(* ===== verification/Prelude.thy ===== *)
theory Prelude
  imports Main "HOL-Library.Monad_Syntax"
begin

text \<open>
  Shared vocabulary of the development: the lemma collections of the component proofs, the
  option monad in which undefined behaviour and non-termination are both \<open>None\<close>, and
  singly linked chains of cells in a pointer heap, used for the two link fields of
  \<^verbatim>\<open>struct flow_cfg\<close>.
\<close>

named_theorems chain_simps
named_theorems heap_intros

section \<open>Pointers\<close>

type_synonym addr = nat
type_synonym ptr = "addr option"

abbreviation (input) NULL :: ptr where
  "NULL \<equiv> None"

section \<open>The option monad\<close>

lemma bind_eq_Some_iff:
  "Option.bind m f = Some y \<longleftrightarrow> (\<exists>x. m = Some x \<and> f x = Some y)"
  by (cases m) auto

lemma bind_Some_eq [simp]: "Option.bind (Some x) f = f x"
  by simp

section \<open>Chains of cells\<close>

text \<open>
  \<open>chain fld h p as q\<close>: starting at pointer \<open>p\<close> and following the link field \<open>fld\<close>
  through allocated cells of \<open>h\<close>, the cells \<open>as\<close> are visited and \<open>q\<close> is reached.
\<close>

primrec chain :: "('c \<Rightarrow> ptr) \<Rightarrow> (addr \<rightharpoonup> 'c) \<Rightarrow> ptr \<Rightarrow> addr list \<Rightarrow> ptr \<Rightarrow> bool" where
  "chain fld h p [] q \<longleftrightarrow> p = q"
| "chain fld h p (a # as) q \<longleftrightarrow>
     p = Some a \<and> (case h a of None \<Rightarrow> False | Some c \<Rightarrow> chain fld h (fld c) as q)"

lemma chain_NULL [chain_simps]: "chain fld h NULL as q \<longleftrightarrow> as = [] \<and> q = NULL"
  by (cases as) auto

lemma chain_append [chain_simps]:
  "chain fld h p (as @ bs) q \<longleftrightarrow> (\<exists>r. chain fld h p as r \<and> chain fld h r bs q)"
  by (induction as arbitrary: p) (auto split: option.splits)

lemma chain_Some_NULL:
  "chain fld h (Some a) as NULL \<longleftrightarrow>
     (\<exists>c bs. as = a # bs \<and> h a = Some c \<and> chain fld h (fld c) bs NULL)"
  by (cases as) (auto split: option.splits)

lemma chain_upd_notin [chain_simps]:
  "u \<notin> set as \<Longrightarrow> chain fld (h(u := v)) p as q = chain fld h p as q"
  by (induction as arbitrary: p) (auto split: option.splits)

lemma chain_upd_same_link:
  assumes "h u = Some c" and "fld c' = fld c"
  shows "chain fld (h(u \<mapsto> c')) p as q = chain fld h p as q"
  using assms by (induction as arbitrary: p) (auto split: option.splits)

lemma chain_cong:
  assumes "\<And>a. a \<in> set as \<Longrightarrow> map_option fld (h a) = map_option fld (h' a)"
  shows "chain fld h p as q = chain fld h' p as q"
  using assms
proof (induction as arbitrary: p)
  case (Cons a as)
  from Cons.prems have "map_option fld (h a) = map_option fld (h' a)" by simp
  moreover have "\<And>p. chain fld h p as q = chain fld h' p as q"
    using Cons.IH Cons.prems by simp
  ultimately show ?case by (cases "h a"; cases "h' a") auto
qed simp

lemma chain_dom: "chain fld h p as q \<Longrightarrow> set as \<subseteq> dom h"
  by (induction as arbitrary: p) (auto split: option.splits)

lemma chain_unique:
  "chain fld h p as NULL \<Longrightarrow> chain fld h p bs NULL \<Longrightarrow> as = bs"
proof (induction as arbitrary: p bs)
  case (Cons a as)
  then show ?case by (cases bs) (auto split: option.splits)
qed (auto simp: chain_simps)

lemma chain_hd_notin:
  assumes "chain fld h p (a # as) NULL"
  shows "a \<notin> set as"
proof
  assume "a \<in> set as"
  then obtain xs ys where as: "as = xs @ a # ys" by (auto simp: in_set_conv_decomp)
  with assms have "chain fld h (Some a) (a # ys) NULL" and "chain fld h (Some a) (a # as) NULL"
    by (auto simp: chain_append split: option.splits)
  then have "a # ys = a # as" by (rule chain_unique)
  with as show False by simp
qed

lemma chain_distinct: "chain fld h p as NULL \<Longrightarrow> distinct as"
proof (induction as arbitrary: p)
  case (Cons a as)
  then show ?case using chain_hd_notin [OF Cons.prems] by (auto split: option.splits)
qed simp

section \<open>Walking to the end of a chain\<close>

text \<open>
  The loop \<^verbatim>\<open>while (t->link != NULL) t = t->link\<close>. Reading an unallocated cell is \<open>None\<close>, and so
  is a walk round a cycle.
\<close>

partial_function (option) walk_last :: "('c \<Rightarrow> ptr) \<Rightarrow> (addr \<rightharpoonup> 'c) \<Rightarrow> addr \<Rightarrow> addr option" where
  "walk_last fld h a =
     (case h a of None \<Rightarrow> None
      | Some c \<Rightarrow> (case fld c of None \<Rightarrow> Some a | Some b \<Rightarrow> walk_last fld h b))"

declare walk_last.simps [code]

lemma walk_last_chain:
  "chain fld h (Some a) as NULL \<Longrightarrow> walk_last fld h a = Some (last as)"
proof (induction as arbitrary: a)
  case (Cons b bs)
  then obtain c where c: "b = a" "h a = Some c" "chain fld h (fld c) bs NULL"
    by (auto split: option.splits)
  show ?case
  proof (cases "fld c")
    case None
    with c have "bs = []" by (simp add: chain_simps)
    with c None show ?thesis by (simp add: walk_last.simps [of fld h a])
  next
    case (Some d)
    with c have "walk_last fld h d = Some (last bs)" and "bs \<noteq> []"
      using Cons.IH [of d] by (auto simp: chain_simps)
    with c Some show ?thesis by (simp add: walk_last.simps [of fld h a])
  qed
qed simp

lemma chain_extend:
  assumes "chain fld h p as NULL" and "as \<noteq> []" and "b \<notin> set as"
    and "h (last as) = Some c" and "fld c' = Some b" and "fld d = NULL"
  shows "chain fld (h(last as \<mapsto> c', b \<mapsto> d)) p (as @ [b]) NULL"
  using assms
proof (induction as arbitrary: p)
  case (Cons a as)
  have dist: "distinct (a # as)" using Cons.prems(1) by (rule chain_distinct)
  show ?case
  proof (cases "as = []")
    case True
    with Cons.prems show ?thesis by (auto simp: chain_simps split: option.splits)
  next
    case False
    from Cons.prems obtain e where e: "h a = Some e" "p = Some a" "chain fld h (fld e) as NULL"
      by (auto split: option.splits)
    from False dist have "a \<noteq> last as" by auto
    with e False Cons show ?thesis by auto
  qed
qed simp

end
