(* ===== verification/C_Library.thy ===== *)
theory C_Library
  imports Prelude "HOL-Library.Word"
begin

text \<open>
  The part of the C standard library that the sources call, on an LP64 machine
  (\<^verbatim>\<open>int\<close> 32 bits, \<^verbatim>\<open>long\<close> 64 bits, little endian): character classes, \<^verbatim>\<open>strncasecmp\<close>,
  \<^verbatim>\<open>strrchr\<close>, \<^verbatim>\<open>fgets\<close>, \<^verbatim>\<open>sscanf\<close>, narrowing conversions and the byte-order functions.
  A C string is a HOL string without its terminator. A format string is a list of
  directives; numbers that do not fit are clamped to 64 bits and then narrowed to the type
  of the argument, as the GNU implementation does.
\<close>

section \<open>Characters and strings\<close>

definition newline :: char where
  "newline = CHR 0x0A"

definition isspace :: "char \<Rightarrow> bool" where
  "isspace c \<longleftrightarrow> c \<in> {CHR '' '', CHR 0x09, CHR 0x0A, CHR 0x0B, CHR 0x0C, CHR 0x0D}"

definition isdigit :: "char \<Rightarrow> bool" where
  "isdigit c \<longleftrightarrow> (48::nat) \<le> of_char c \<and> of_char c \<le> (57::nat)"

definition tolower :: "char \<Rightarrow> char" where
  "tolower c = (if (65::nat) \<le> of_char c \<and> of_char c \<le> (90::nat)
                then char_of (of_char c + (32::nat)) else c)"

fun strncasecmp_eq :: "string \<Rightarrow> string \<Rightarrow> nat \<Rightarrow> bool" where
  "strncasecmp_eq xs ys 0 = True"
| "strncasecmp_eq [] [] (Suc n) = True"
| "strncasecmp_eq (x # xs) (y # ys) (Suc n) = (tolower x = tolower y \<and> strncasecmp_eq xs ys n)"
| "strncasecmp_eq xs ys (Suc n) = False"

text \<open>\<^verbatim>\<open>strrchr\<close>: the text before the last occurrence, and the rest from it on.\<close>

fun strrchr :: "string \<Rightarrow> char \<Rightarrow> (string \<times> string) option" where
  "strrchr [] c = None"
| "strrchr (x # xs) c =
     (case strrchr xs c of
        Some (a, b) \<Rightarrow> Some (x # a, b)
      | None \<Rightarrow> if x = c then Some ([], x # xs) else None)"

text \<open>The C string held by a buffer: everything before the first NUL byte.\<close>

definition c_str :: "string \<Rightarrow> string" where
  "c_str s = takeWhile (\<lambda>c. c \<noteq> CHR 0x00) s"

section \<open>Narrowing conversions\<close>

definition to_signed :: "nat \<Rightarrow> int \<Rightarrow> int" where
  "to_signed b i = (i + 2 ^ (b - 1)) mod 2 ^ b - 2 ^ (b - 1)"

definition to_int :: "int \<Rightarrow> int" where
  "to_int i = to_signed 32 i"

definition clamp_long :: "int \<Rightarrow> int" where
  "clamp_long i = max (- (2 ^ 63)) (min (2 ^ 63 - 1) i)"

text \<open>Division of C integers truncates towards zero.\<close>

definition c_div :: "int \<Rightarrow> int \<Rightarrow> int" where
  "c_div a b = sgn a * sgn b * (\<bar>a\<bar> div \<bar>b\<bar>)"

definition c_mod :: "int \<Rightarrow> int \<Rightarrow> int" where
  "c_mod a b = a - c_div a b * b"

section \<open>sscanf\<close>

datatype conv =
    C_d nat          \<comment> \<open>\<^verbatim>\<open>%d\<close>, \<^verbatim>\<open>%ld\<close>: signed decimal of the given width in bits\<close>
  | C_u nat          \<comment> \<open>\<^verbatim>\<open>%u\<close>, \<^verbatim>\<open>%hu\<close>: unsigned decimal of the given width in bits\<close>
  | C_i nat          \<comment> \<open>\<^verbatim>\<open>%i\<close>: signed, base from the prefix\<close>
  | C_s "nat option" \<comment> \<open>\<^verbatim>\<open>%s\<close>, \<^verbatim>\<open>%ns\<close>: a word, at most \<open>n\<close> characters\<close>
  | C_digits nat     \<comment> \<open>\<^verbatim>\<open>%n[0-9]\<close>: at most \<open>n\<close> digits\<close>

datatype directive = D_ws | D_lit char | D_assign conv | D_skip conv

datatype scan_val = VInt int | VStr string

definition digit_val :: "char \<Rightarrow> int" where
  "digit_val c = int (of_char c) - 48"

definition number :: "int \<Rightarrow> (char \<Rightarrow> int) \<Rightarrow> string \<Rightarrow> int" where
  "number base dv ds = foldl (\<lambda>n d. base * n + dv d) 0 ds"

definition scan_sign :: "string \<Rightarrow> bool \<times> string" where
  "scan_sign s = (case s of
      c # cs \<Rightarrow> if c = CHR ''-'' then (True, cs) else if c = CHR ''+'' then (False, cs) else (False, s)
    | [] \<Rightarrow> (False, s))"

definition isxdigit :: "char \<Rightarrow> bool" where
  "isxdigit c \<longleftrightarrow> isdigit c \<or> tolower c \<in> set ''abcdef''"

definition xdigit_val :: "char \<Rightarrow> int" where
  "xdigit_val c = (if isdigit c then digit_val c else int (of_char (tolower c)) - 87)"

definition isodigit :: "char \<Rightarrow> bool" where
  "isodigit c \<longleftrightarrow> isdigit c \<and> digit_val c < 8"

text \<open>Digits of an integer with optional sign: its absolute value, its sign and the rest.\<close>

definition scan_dec :: "string \<Rightarrow> (bool \<times> int \<times> string) option" where
  "scan_dec s =
     (let (neg, r) = scan_sign (dropWhile isspace s); ds = takeWhile isdigit r
      in if ds = [] then None else Some (neg, number 10 digit_val ds, dropWhile isdigit r))"

definition scan_any :: "string \<Rightarrow> (bool \<times> int \<times> string) option" where
  "scan_any s =
     (let (neg, r) = scan_sign (dropWhile isspace s)
      in case r of
           [] \<Rightarrow> None
         | c # cs \<Rightarrow>
             if c = CHR ''0'' then
               (if cs \<noteq> [] \<and> tolower (hd cs) = CHR ''x''
                then Some (neg, number 16 xdigit_val (takeWhile isxdigit (tl cs)), dropWhile isxdigit (tl cs))
                else Some (neg, number 8 digit_val (takeWhile isodigit r), dropWhile isodigit r))
             else if isdigit c then Some (neg, number 10 digit_val (takeWhile isdigit r), dropWhile isdigit r)
             else None)"

definition apply_sign :: "bool \<Rightarrow> int \<Rightarrow> int" where
  "apply_sign neg n = (if neg then - n else n)"

definition strtoul_val :: "bool \<Rightarrow> int \<Rightarrow> int" where
  "strtoul_val neg n = (if 2 ^ 64 \<le> n then 2 ^ 64 - 1 else apply_sign neg n mod 2 ^ 64)"

text \<open>One conversion: the value and the rest of the input, or a matching failure.\<close>

fun scan_conv :: "conv \<Rightarrow> string \<Rightarrow> (scan_val \<times> string) option" where
  "scan_conv (C_d b) s =
     map_option (\<lambda>(neg, n, r). (VInt (to_signed b (clamp_long (apply_sign neg n))), r)) (scan_dec s)"
| "scan_conv (C_u b) s =
     map_option (\<lambda>(neg, n, r). (VInt (strtoul_val neg n mod 2 ^ b), r)) (scan_dec s)"
| "scan_conv (C_i b) s =
     map_option (\<lambda>(neg, n, r). (VInt (to_signed b (clamp_long (apply_sign neg n))), r)) (scan_any s)"
| "scan_conv (C_s w) s =
     (let r = dropWhile isspace s;
          t = takeWhile (\<lambda>c. \<not> isspace c) (case w of None \<Rightarrow> r | Some n \<Rightarrow> take n r)
      in if t = [] then None else Some (VStr t, drop (length t) r))"
| "scan_conv (C_digits n) s =
     (let t = takeWhile isdigit (take n s)
      in if t = [] then None else Some (VStr t, drop (length t) s))"

text \<open>The values assigned before the first failure; the result of \<^verbatim>\<open>sscanf\<close> is their number.\<close>

fun sscanf :: "directive list \<Rightarrow> string \<Rightarrow> scan_val list" where
  "sscanf [] s = []"
| "sscanf (D_ws # fs) s = sscanf fs (dropWhile isspace s)"
| "sscanf (D_lit c # fs) s =
     (case s of [] \<Rightarrow> [] | x # xs \<Rightarrow> if x = c then sscanf fs xs else [])"
| "sscanf (D_assign k # fs) s =
     (case scan_conv k s of None \<Rightarrow> [] | Some (v, r) \<Rightarrow> v # sscanf fs r)"
| "sscanf (D_skip k # fs) s =
     (case scan_conv k s of None \<Rightarrow> [] | Some (v, r) \<Rightarrow> sscanf fs r)"

text \<open>Abbreviations for the conversions that occur in the sources.\<close>

abbreviation "LD \<equiv> D_assign (C_d 64)"                \<comment> \<open>\<^verbatim>\<open>%ld\<close>\<close>
abbreviation "DEC \<equiv> D_assign (C_d 32)"               \<comment> \<open>\<^verbatim>\<open>%d\<close>\<close>
abbreviation "HU \<equiv> D_assign (C_u 16)"                \<comment> \<open>\<^verbatim>\<open>%hu\<close>\<close>
abbreviation "II \<equiv> D_assign (C_i 32)"                \<comment> \<open>\<^verbatim>\<open>%i\<close>\<close>
abbreviation "WORD n \<equiv> D_assign (C_s (Some n))"       \<comment> \<open>\<^verbatim>\<open>%ns\<close>\<close>
abbreviation "SKIP_D \<equiv> D_skip (C_d 32)"              \<comment> \<open>\<^verbatim>\<open>%*d\<close>\<close>
abbreviation "SKIP_U \<equiv> D_skip (C_u 32)"              \<comment> \<open>\<^verbatim>\<open>%*u\<close>\<close>
abbreviation "SKIP_WORD n \<equiv> D_skip (C_s (Some n))"    \<comment> \<open>\<^verbatim>\<open>%*ns\<close>\<close>
abbreviation "SKIP_REST \<equiv> D_skip (C_s None)"         \<comment> \<open>\<^verbatim>\<open>%*s\<close>\<close>

section \<open>fgets\<close>

text \<open>
  \<open>fgets_take n s\<close> is what \<^verbatim>\<open>fgets(buf, n + 1, f)\<close> stores when the file still holds \<open>s\<close>,
  and what the file holds afterwards; it stops after a newline.
\<close>

fun fgets_take :: "nat \<Rightarrow> string \<Rightarrow> string \<times> string" where
  "fgets_take 0 s = ([], s)"
| "fgets_take (Suc n) [] = ([], [])"
| "fgets_take (Suc n) (c # cs) =
     (if c = newline then ([c], cs) else (let (a, b) = fgets_take n cs in (c # a, b)))"

lemma fgets_take_append: "fgets_take n s = (a, b) \<Longrightarrow> a @ b = s"
  by (induction n s arbitrary: a rule: fgets_take.induct) (auto split: if_splits prod.splits)

lemma fgets_take_progress:
  "fgets_take (Suc n) (c # cs) = (a, b) \<Longrightarrow> length b < length (c # cs)"
  using fgets_take_append [of "Suc n" "c # cs" a b]
  by (cases a) (auto split: if_splits prod.splits)

text \<open>The successive buffers of \<^verbatim>\<open>while (fgets(buf, n + 1, f) != NULL)\<close>, for \<open>n > 0\<close>.\<close>

function fgets_lines :: "nat \<Rightarrow> string \<Rightarrow> string list" where
  "fgets_lines n [] = []"
| "fgets_lines n (c # cs) =
     (if n = 0 then []
      else fst (fgets_take n (c # cs)) # fgets_lines n (snd (fgets_take n (c # cs))))"
  by pat_completeness auto
termination
proof (relation "measure (\<lambda>(n, s). length s)")
  fix n :: nat and c cs
  assume "n \<noteq> 0"
  then obtain m where "n = Suc m" by (cases n) auto
  then show "((n, snd (fgets_take n (c # cs))), n, c # cs) \<in> measure (\<lambda>(n, s). length s)"
    using fgets_take_progress [of m c cs] by (cases "fgets_take n (c # cs)") auto
qed auto

text \<open>
  The end-of-file indicator after \<^verbatim>\<open>fgets\<close>: the input ran out before a newline was seen and
  before the buffer was full.
\<close>

definition fgets_eof :: "nat \<Rightarrow> string \<Rightarrow> bool" where
  "fgets_eof n s \<longleftrightarrow> (let (a, b) = fgets_take n s
                       in b = [] \<and> length a < n \<and> (a = [] \<or> last a \<noteq> newline))"

lemma fgets_lines_concat: "0 < n \<Longrightarrow> concat (fgets_lines n s) = s"
proof (induction n s rule: fgets_lines.induct)
  case (2 n c cs)
  have "concat (fgets_lines n (c # cs)) =
        fst (fgets_take n (c # cs)) @ snd (fgets_take n (c # cs))"
    using 2 by simp
  also have "\<dots> = c # cs"
    using fgets_take_append [of n "c # cs"] by (metis prod.collapse)
  finally show ?case .
qed simp

section \<open>Byte order\<close>

unbundle bit_operations_syntax

type_synonym byte = "8 word"

definition bswap16 :: "16 word \<Rightarrow> 16 word" where
  "bswap16 w = push_bit 8 w OR drop_bit 8 w"

definition bswap32 :: "32 word \<Rightarrow> 32 word" where
  "bswap32 w = push_bit 24 w OR (push_bit 8 w AND 0x00FF0000)
               OR (drop_bit 8 w AND 0x0000FF00) OR drop_bit 24 w"

definition htons :: "16 word \<Rightarrow> 16 word" where "htons = bswap16"
definition ntohs :: "16 word \<Rightarrow> 16 word" where "ntohs = bswap16"
definition htonl :: "32 word \<Rightarrow> 32 word" where "htonl = bswap32"
definition ntohl :: "32 word \<Rightarrow> 32 word" where "ntohl = bswap32"

lemma bswap16_bswap16 [simp]: "bswap16 (bswap16 w) = w"
  by (rule bit_word_eqI) (auto simp: bswap16_def bit_simps)

lemma bit_byte_mask:
  "bit (0x00FF0000 :: int) n \<longleftrightarrow> 16 \<le> n \<and> n < 24"
  "bit (0x0000FF00 :: int) n \<longleftrightarrow> 8 \<le> n \<and> n < 16"
proof -
  have m: "(0x00FF0000 :: int) = push_bit 16 (mask 8)" "(0x0000FF00 :: int) = push_bit 8 (mask 8)"
    by (simp_all add: mask_eq_exp_minus_1)
  show "bit (0x00FF0000 :: int) n \<longleftrightarrow> 16 \<le> n \<and> n < 24"
    unfolding m by (simp add: bit_push_bit_iff bit_mask_iff, linarith)
  show "bit (0x0000FF00 :: int) n \<longleftrightarrow> 8 \<le> n \<and> n < 16"
    unfolding m by (simp add: bit_push_bit_iff bit_mask_iff, linarith)
qed

lemma not_bit32: "32 \<le> n \<Longrightarrow> \<not> bit (w :: 32 word) n"
  using bit_imp_le_length [of w n] by auto

lemma bit_bswap32: "bit (bswap32 w) n \<longleftrightarrow>
   n < 32 \<and> bit w (if n < 8 then n + 24 else if n < 16 then n + 8 else if n < 24 then n - 8 else n - 24)"
proof (cases "n < 32")
  case True
  then consider "n < 8" | "8 \<le> n" "n < 16" | "16 \<le> n" "n < 24" | "24 \<le> n" by linarith
  then show ?thesis
    by cases (use True in \<open>simp_all add: bswap32_def bit_byte_mask not_bit32 bit_or_iff bit_and_iff
      bit_push_bit_iff bit_drop_bit_eq add.commute\<close>)
next
  case False
  then show ?thesis by (simp add: not_bit32)
qed
lemma bswap32_bswap32 [simp]: "bswap32 (bswap32 w) = w"
  by (rule bit_word_eqI) (auto simp: bit_bswap32)

lemma ntohs_htons [simp]: "ntohs (htons w) = w"
  by (simp add: ntohs_def htons_def)

lemma ntohl_htonl [simp]: "ntohl (htonl w) = w"
  by (simp add: ntohl_def htonl_def)

end
