(* ===== verification/Timeval.thy ===== *)
theory Timeval
  imports C_Library
begin

text \<open>
  \<^verbatim>\<open>struct timeval\<close> with the macros \<^verbatim>\<open>timeradd\<close> and \<^verbatim>\<open>timercmp\<close>. The comparison macro is the
  lexicographic order on seconds and microseconds, so \<open>timeval\<close> is made an instance of
  \<open>linorder\<close> with it; on normalised values it is the order of the microsecond counts.
\<close>

datatype timeval = Timeval (tv_sec: int) (tv_usec: int)

definition tv_zero :: timeval where
  "tv_zero = Timeval 0 0"

definition timeradd :: "timeval \<Rightarrow> timeval \<Rightarrow> timeval" where
  "timeradd a b =
     (let s = tv_sec a + tv_sec b; u = tv_usec a + tv_usec b
      in if u \<ge> 1000000 then Timeval (s + 1) (u - 1000000) else Timeval s u)"

text \<open>\<^verbatim>\<open>timercmp(a, b, <)\<close>\<close>

definition timer_less :: "timeval \<Rightarrow> timeval \<Rightarrow> bool" where
  "timer_less a b \<longleftrightarrow>
     (if tv_sec a = tv_sec b then tv_usec a < tv_usec b else tv_sec a < tv_sec b)"

instantiation timeval :: linorder
begin

definition less_timeval :: "timeval \<Rightarrow> timeval \<Rightarrow> bool" where
  "less_timeval = timer_less"

definition less_eq_timeval :: "timeval \<Rightarrow> timeval \<Rightarrow> bool" where
  "less_eq_timeval a b \<longleftrightarrow> \<not> timer_less b a"

instance
proof
  fix x y z :: timeval
  show "(x < y) = (x \<le> y \<and> \<not> y \<le> x)"
    by (auto simp: less_timeval_def less_eq_timeval_def timer_less_def)
  show "x \<le> x"
    by (simp add: less_eq_timeval_def timer_less_def)
  show "x \<le> y \<Longrightarrow> y \<le> z \<Longrightarrow> x \<le> z"
    by (auto simp: less_eq_timeval_def timer_less_def split: if_splits)
  show "x \<le> y \<Longrightarrow> y \<le> x \<Longrightarrow> x = y"
    by (cases x; cases y) (auto simp: less_eq_timeval_def timer_less_def split: if_splits)
  show "x \<le> y \<or> y \<le> x"
    by (auto simp: less_eq_timeval_def timer_less_def)
qed

end

lemma timer_less_iff [simp]: "timer_less a b \<longleftrightarrow> a < b"
  by (simp add: less_timeval_def)

definition normalized :: "timeval \<Rightarrow> bool" where
  "normalized t \<longleftrightarrow> 0 \<le> tv_usec t \<and> tv_usec t < 1000000"

definition micros :: "timeval \<Rightarrow> int" where
  "micros t = tv_sec t * 1000000 + tv_usec t"

lemma micros_timeradd [simp]: "micros (timeradd a b) = micros a + micros b"
  by (simp add: micros_def timeradd_def Let_def)

lemma normalized_timeradd [intro]:
  "normalized a \<Longrightarrow> normalized b \<Longrightarrow> normalized (timeradd a b)"
  by (auto simp: normalized_def timeradd_def Let_def)

lemma less_micros: "normalized a \<Longrightarrow> normalized b \<Longrightarrow> a < b \<longleftrightarrow> micros a < micros b"
  by (cases "tv_sec a" "tv_sec b" rule: linorder_cases)
    (simp_all add: less_timeval_def timer_less_def normalized_def micros_def del: timer_less_iff)

lemma le_micros: "normalized a \<Longrightarrow> normalized b \<Longrightarrow> a \<le> b \<longleftrightarrow> micros a \<le> micros b"
  using less_micros [of b a] by (simp add: not_less [symmetric])

lemma micros_inj: "normalized a \<Longrightarrow> normalized b \<Longrightarrow> micros a = micros b \<Longrightarrow> a = b"
  using le_micros [of a b] le_micros [of b a] by simp

lemma normalized_zero [simp]: "normalized tv_zero" and micros_zero [simp]: "micros tv_zero = 0"
  by (simp_all add: normalized_def micros_def tv_zero_def)

text \<open>
  The conversion of a millisecond argument, as written three times in \<^verbatim>\<open>parse.c\<close>:
  \<^verbatim>\<open>tv_sec = time/1000; tv_usec = (time-(tv_sec*1000))*1000\<close>.
\<close>

definition ms_to_timeval :: "int \<Rightarrow> timeval" where
  "ms_to_timeval t = (let s = c_div t 1000 in Timeval s ((t - s * 1000) * 1000))"

lemma micros_ms_to_timeval [simp]: "micros (ms_to_timeval t) = t * 1000"
  by (simp add: ms_to_timeval_def micros_def Let_def algebra_simps)

lemma normalized_ms_to_timeval: "0 \<le> t \<Longrightarrow> normalized (ms_to_timeval t)"
  by (auto simp: ms_to_timeval_def normalized_def Let_def c_div_def sgn_if)

end
