(* ===== verification/Flow_Heap.thy ===== *)
theory Flow_Heap
  imports Timeval
begin

text \<open>
  The data of \<^verbatim>\<open>rude/include/rude.h\<close> and the global variables of \<^verbatim>\<open>rude/rude/main.c\<close>. Flows live in a
  heap of \<^verbatim>\<open>struct flow_cfg\<close> cells: \<^verbatim>\<open>head\<close> starts the list of flows linked by \<^verbatim>\<open>next\<close>, every
  flow is the list of its blocks linked by \<^verbatim>\<open>mod_flow\<close>, and \<^verbatim>\<open>done\<close> starts the list of
  finished blocks, linked by \<^verbatim>\<open>next\<close> again. \<open>flows_rep\<close> relates such a heap to lists of
  addresses.
\<close>

section \<open>Data\<close>

definition DNMAXLEN :: int where "DNMAXLEN = 128"
definition PMINSIZE :: int where "PMINSIZE = 20"
definition PMAXSIZE :: int where "PMAXSIZE = 32768"

text \<open>\<^verbatim>\<open>CBR\<close> and \<^verbatim>\<open>CONSTANT\<close> are one value of the C enumeration.\<close>

datatype f_type = UNKNOWN | CBR | TRACE

abbreviation (input) "CONSTANT \<equiv> CBR"

record sockaddr_in =
  sin_family :: int
  sin_port :: "16 word"
  sin_addr :: "32 word"

record cbr_params =
  rate :: int
  psize :: int

record trace_entry =
  te_psize :: int
  te_wait :: timeval

record trace_params =
  max_psize :: int
  list_size :: nat
  list_index :: nat
  trace_list :: "trace_entry list"

text \<open>The union \<^verbatim>\<open>params\<close>, told apart by its common first member \<^verbatim>\<open>ftype\<close>; all bytes are zero in a fresh block.\<close>

datatype params = P_zero | P_cbr cbr_params | P_trace trace_params

fun ftype :: "params \<Rightarrow> f_type option" where
  "ftype P_zero = None"
| "ftype (P_cbr p) = Some CBR"
| "ftype (P_trace p) = Some TRACE"

datatype send_fun = Send_null | Send_cbr | Send_trace

record flow_cfg =
  next_flow :: ptr
  mod_flow :: ptr
  dst :: sockaddr_in
  send_sock :: int
  flow_id :: int
  flow_sport :: int
  flow_start :: timeval
  flow_stop :: timeval
  next_tx :: timeval
  send_func :: send_fun
  errors :: int
  success :: int
  sequence_nmbr :: int
  tos :: int
  params :: params

text \<open>The content of a block after \<^verbatim>\<open>memset(new, 0, sizeof(struct flow_cfg))\<close>.\<close>

definition zero_flow :: flow_cfg where
  "zero_flow = \<lparr>next_flow = NULL, mod_flow = NULL,
     dst = \<lparr>sin_family = 0, sin_port = 0, sin_addr = 0\<rparr>, send_sock = 0, flow_id = 0,
     flow_sport = 0, flow_start = tv_zero, flow_stop = tv_zero, next_tx = tv_zero,
     send_func = Send_null, errors = 0, success = 0, sequence_nmbr = 0, tos = 0,
     params = P_zero\<rparr>"

text \<open>A datagram handed to the kernel: socket, bytes, destination and the clock read before sending.\<close>

record datagram =
  dg_sock :: int
  dg_bytes :: "byte list"
  dg_dst :: sockaddr_in
  dg_time :: timeval

text \<open>
  The global variables. \<open>buffer\<close> is the packet buffer (\<^verbatim>\<open>data\<close> points at its first byte);
  \<open>ticks\<close> counts the clock readings, \<open>sent\<close>, \<open>opened\<close>, \<open>closed\<close> and \<open>sockopts\<close> record the
  calls of \<^verbatim>\<open>sendto\<close>, \<^verbatim>\<open>socket\<close>, \<^verbatim>\<open>close\<close> and \<^verbatim>\<open>setsockopt\<close>.
\<close>

record rude =
  heap :: "addr \<rightharpoonup> flow_cfg"
  head :: ptr
  done_ptr :: ptr
  tester_start :: timeval
  max_packet_size :: int
  buffer :: "byte list"
  ticks :: nat
  sent :: "datagram list"
  opened :: "int list"
  closed :: "int list"
  sockopts :: "(int \<times> int) list"

definition init_state :: rude where
  "init_state = \<lparr>heap = Map.empty, head = NULL, done_ptr = NULL, tester_start = tv_zero,
     max_packet_size = 0, buffer = [], ticks = 0, sent = [], opened = [], closed = [], sockopts = []\<rparr>"

section \<open>Heap access\<close>

definition store :: "addr \<Rightarrow> flow_cfg \<Rightarrow> rude \<Rightarrow> rude" where
  "store a c s = s\<lparr>heap := (heap s)(a \<mapsto> c)\<rparr>"

text \<open>\<^verbatim>\<open>free\<close> of a block that is not allocated is undefined.\<close>

definition free_block :: "addr \<Rightarrow> rude \<Rightarrow> rude option" where
  "free_block a s =
     (case heap s a of None \<Rightarrow> None | Some c \<Rightarrow> Some (s\<lparr>heap := (heap s)(a := None)\<rparr>))"

abbreviation blk :: "rude \<Rightarrow> addr \<Rightarrow> flow_cfg" where
  "blk s a \<equiv> the (heap s a)"

lemma heap_store [simp]: "heap (store a c s) = (heap s)(a \<mapsto> c)"
  and store_frame [simp]: "head (store a c s) = head s" "done_ptr (store a c s) = done_ptr s"
    "tester_start (store a c s) = tester_start s"
    "max_packet_size (store a c s) = max_packet_size s" "buffer (store a c s) = buffer s"
    "ticks (store a c s) = ticks s" "sent (store a c s) = sent s" "opened (store a c s) = opened s"
    "sockopts (store a c s) = sockopts s" "closed (store a c s) = closed s"
  by (simp_all add: store_def)

lemma free_block_store:
  "free_block a (store a c s) = Some (s\<lparr>heap := (heap s)(a := None)\<rparr>)"
  by (simp add: free_block_def store_def)

lemma free_fresh: "heap s a = None \<Longrightarrow> free_block a (store a c s) = Some s"
  by (simp add: free_block_store fun_upd_idem)

text \<open>What the program has done to the outside world, and its packet buffer.\<close>

definition io :: "rude \<Rightarrow> byte list \<times> nat \<times> datagram list \<times> int list \<times> int list \<times> (int \<times> int) list" where
  "io s = (buffer s, ticks s, sent s, opened s, closed s, sockopts s)"

lemma io_simps [simp]:
  "io (store a c s) = io s" "io (s\<lparr>heap := h\<rparr>) = io s" "io (s\<lparr>head := p\<rparr>) = io s"
  "io (s\<lparr>tester_start := t\<rparr>) = io s" "io (s\<lparr>max_packet_size := m\<rparr>) = io s"
  by (simp_all add: io_def)

section \<open>The representation of flows\<close>

definition same_links :: "flow_cfg \<Rightarrow> flow_cfg \<Rightarrow> bool" where
  "same_links c d \<longleftrightarrow> next_flow c = next_flow d \<and> mod_flow c = mod_flow d"

text \<open>
  \<open>flows_rep s fs dn\<close>: the active flows are \<open>fs\<close>, each a non-empty list of block addresses,
  the finished blocks are \<open>dn\<close>, no block occurs twice and no other block is allocated.
\<close>

definition flows_rep :: "rude \<Rightarrow> addr list list \<Rightarrow> addr list \<Rightarrow> bool" where
  "flows_rep s fs dn \<longleftrightarrow>
     chain next_flow (heap s) (head s) (map hd fs) NULL \<and>
     (\<forall>f \<in> set fs. f \<noteq> [] \<and> chain mod_flow (heap s) (Some (hd f)) f NULL) \<and>
     chain next_flow (heap s) (done_ptr s) dn NULL \<and>
     distinct (concat fs @ dn) \<and>
     dom (heap s) = set (concat fs @ dn)"

lemma flows_rep_init: "flows_rep init_state [] []"
  by (simp add: flows_rep_def init_state_def)

lemma flows_repD:
  assumes "flows_rep s fs dn"
  shows "chain next_flow (heap s) (head s) (map hd fs) NULL"
    and "\<And>f. f \<in> set fs \<Longrightarrow> f \<noteq> []"
    and "\<And>f. f \<in> set fs \<Longrightarrow> chain mod_flow (heap s) (Some (hd f)) f NULL"
    and "chain next_flow (heap s) (done_ptr s) dn NULL"
    and "distinct (concat fs @ dn)"
    and "dom (heap s) = set (concat fs @ dn)"
  using assms by (auto simp: flows_rep_def)

lemma flows_rep_alloc:
  assumes "flows_rep s fs dn" and "f \<in> set fs" and "a \<in> set f"
  obtains c where "heap s a = Some c"
proof -
  from assms have "a \<in> set (concat fs @ dn)" by auto
  then have "a \<in> dom (heap s)" using flows_repD(6) [OF assms(1)] by simp
  then show ?thesis using that by blast
qed

lemma flows_rep_allocD:
  "flows_rep s fs dn \<Longrightarrow> f \<in> set fs \<Longrightarrow> a \<in> set f \<Longrightarrow> heap s a \<noteq> None"
  by (metis flows_rep_alloc option.distinct(1))

lemma flows_rep_hd_alloc:
  assumes "flows_rep s fs dn" and "f \<in> set fs"
  obtains c where "heap s (hd f) = Some c"
  using flows_rep_alloc [OF assms, of "hd f"] flows_repD(2) [OF assms] by auto

text \<open>The representation only depends on the links.\<close>

lemma flows_rep_store:
  assumes "flows_rep s fs dn" and "heap s a = Some c" and "same_links c' c"
  shows "flows_rep (store a c' s) fs dn"
  using assms
  by (auto simp: flows_rep_def same_links_def chain_upd_same_link insert_absorb)

lemma flows_rep_frame:
  assumes "flows_rep s fs dn" and "heap s' = heap s" and "head s' = head s"
    and "done_ptr s' = done_ptr s"
  shows "flows_rep s' fs dn"
  using assms by (simp add: flows_rep_def)

lemma same_links_refl [simp]: "same_links c c"
  by (simp add: same_links_def)

lemma flows_rep_disjoint:
  assumes "flows_rep s fs dn" and "f \<in> set fs" and "g \<in> set fs" and "a \<in> set f" and "a \<in> set g"
  shows "f = g"
proof (rule ccontr)
  assume "f \<noteq> g"
  have d: "distinct (concat fs)" using flows_repD(5) [OF assms(1)] by simp
  then have "set f \<inter> set g = {}"
    using assms(2,3) \<open>f \<noteq> g\<close> by (auto simp: distinct_concat_iff)
  with assms(4,5) show False by blast
qed

text \<open>The lists are determined by the state.\<close>

lemma flows_rep_unique:
  assumes "flows_rep s fs dn" and "flows_rep s gs dm"
  shows "fs = gs" and "dn = dm"
proof -
  show "dn = dm"
    using flows_repD(4) [OF assms(1)] flows_repD(4) [OF assms(2)] by (rule chain_unique)
  have hds: "map hd fs = map hd gs"
    using flows_repD(1) [OF assms(1)] flows_repD(1) [OF assms(2)] by (rule chain_unique)
  then have len: "length fs = length gs" using map_eq_imp_length_eq by blast
  show "fs = gs"
  proof (rule nth_equalityI [OF len])
    fix i assume i: "i < length fs"
    then have mem: "fs ! i \<in> set fs" "gs ! i \<in> set gs" using len by auto
    have "hd (fs ! i) = hd (gs ! i)" using hds i len by (metis nth_map)
    then show "fs ! i = gs ! i"
      using flows_repD(3) [OF assms(1) mem(1)] flows_repD(3) [OF assms(2) mem(2)]
      by (auto intro: chain_unique)
  qed
qed

end
