(* ===== verification/Parse_Defs.thy ===== *)
theory Parse_Defs
  imports Flow_Heap
begin

text \<open>
  The configuration parser \<^verbatim>\<open>rude/rude/parse.c\<close>, function by function. Return codes are the
  \<^verbatim>\<open>int\<close> values of the code; an access to an unallocated block and a walk that does not end are
  \<open>None\<close>. The debug messages (\<^verbatim>\<open>RUDEBUG1\<close>, \<^verbatim>\<open>RUDEBUG7\<close>) are left out.
\<close>

section \<open>The environment\<close>

text \<open>
  What the parser asks of the system: name resolution, files (their contents, and whether reading
  them fails), the allocator for blocks and for trace arrays, the clock and the broken-down local
  time.
\<close>

record parse_env =
  gethostbyname :: "string \<Rightarrow> 32 word option"
  fopen :: "string \<Rightarrow> (string \<times> bool) option"
  malloc :: "(addr \<rightharpoonup> flow_cfg) \<Rightarrow> addr option"
  malloc_list :: "nat \<Rightarrow> bool"
  timeofday :: timeval
  localtime :: "int \<times> int \<times> int"

section \<open>find_flow_id, check_type, check_dst\<close>

partial_function (option) find_flow_id_from :: "(addr \<rightharpoonup> flow_cfg) \<Rightarrow> int \<Rightarrow> ptr \<Rightarrow> ptr option" where
  "find_flow_id_from h i temp =
     (case temp of
        None \<Rightarrow> Some NULL
      | Some a \<Rightarrow>
          (case h a of
             None \<Rightarrow> None
           | Some c \<Rightarrow> if flow_id c = i then Some (Some a) else find_flow_id_from h i (next_flow c)))"

declare find_flow_id_from.simps [code]

definition find_flow_id :: "rude \<Rightarrow> int \<Rightarrow> ptr option" where
  "find_flow_id s i = find_flow_id_from (heap s) i (head s)"

definition check_type :: "string \<Rightarrow> f_type" where
  "check_type type =
     (if strncasecmp_eq type ''CBR'' 3 then CBR
      else if strncasecmp_eq type ''CONSTANT'' 8 then CONSTANT
      else if strncasecmp_eq type ''TRACE'' 5 then TRACE
      else UNKNOWN)"

text \<open>\<^verbatim>\<open>check_dst\<close> returns its error code or the filled-in address.\<close>

definition check_dst :: "parse_env \<Rightarrow> string \<Rightarrow> int + sockaddr_in" where
  "check_dst env d =
     (case strrchr d (CHR '':'') of
        None \<Rightarrow> Inl (-2)
      | Some (dname, commaptr) \<Rightarrow>
          (let dnamelen = int (length dname)
           in if dnamelen < 1 \<and> dnamelen > DNMAXLEN - 2 then Inl (-2)
              else (case sscanf [D_lit (CHR '':''), HU] commaptr of
                      [VInt dport] \<Rightarrow>
                        (case gethostbyname env dname of
                           None \<Rightarrow> Inl (-3)
                         | Some ip \<Rightarrow> Inr \<lparr>sin_family = 2, sin_port = htons (word_of_int dport),
                                             sin_addr = ip\<rparr>)
                    | _ \<Rightarrow> Inl (-2))))"

section \<open>trace_parse\<close>

text \<open>The first pass: how often \<^verbatim>\<open>fgets(target, 255, fptr)\<close> does not reach the end of the file.\<close>

lemma not_eof_progress:
  assumes "\<not> fgets_eof (Suc n) s"
  shows "length (snd (fgets_take (Suc n) s)) < length s"
proof (cases s)
  case Nil
  with assms show ?thesis by (simp add: fgets_eof_def)
next
  case (Cons c cs)
  then show ?thesis
    using fgets_take_progress [of n c cs] by (cases "fgets_take (Suc n) s") auto
qed

function count_lines :: "string \<Rightarrow> nat" where
  "count_lines s = (if fgets_eof 254 s then 0 else Suc (count_lines (snd (fgets_take 254 s))))"
  by pat_completeness auto
termination
  by (relation "measure length") (use not_eof_progress [of 253] in auto)

declare count_lines.simps [simp del]

text \<open>One line of a trace file: packet size and waiting time, or a format or range error.\<close>

definition trace_line :: "string \<Rightarrow> trace_entry option" where
  "trace_line target =
     (case sscanf [DEC, D_ws, LD, D_lit (CHR ''.''), D_assign (C_digits 6), D_ws] target of
        [VInt p_size, VInt time1, VStr frac] \<Rightarrow>
          (let time2_array = frac @ replicate (6 - length frac) (CHR ''0'');
               time2 = number 10 digit_val time2_array
           in if p_size < PMINSIZE \<or> p_size > PMAXSIZE \<or> time1 < 0 \<or> time2 < 0 then None
              else Some \<lparr>te_psize = p_size, te_wait = Timeval time1 time2\<rparr>)
      | _ \<Rightarrow> None)"

text \<open>
  The second pass over \<open>n\<close> lines. The result holds the array built, or nothing after an error,
  and the running maximum of the packet sizes.
\<close>

fun trace_fill :: "nat \<Rightarrow> string \<Rightarrow> trace_entry list \<Rightarrow> int \<Rightarrow> trace_entry list option \<times> int" where
  "trace_fill 0 s acc m = (Some (rev acc), m)"
| "trace_fill (Suc n) [] acc m = (None, m)"
| "trace_fill (Suc n) (c # cs) acc m =
     (case trace_line (c_str (fst (fgets_take 254 (c # cs)))) of
        None \<Rightarrow> (None, m)
      | Some e \<Rightarrow> trace_fill n (snd (fgets_take 254 (c # cs))) (e # acc)
                    (if te_psize e > m then te_psize e else m))"

definition trace_parse :: "parse_env \<Rightarrow> string \<Rightarrow> trace_params \<Rightarrow> trace_params" where
  "trace_parse env buf par =
     (case sscanf [SKIP_D, D_ws, SKIP_D, D_ws, SKIP_WORD 10, D_ws, SKIP_U, D_ws, SKIP_WORD 127,
                   D_ws, SKIP_WORD 31, D_ws, WORD 250] buf of
        [VStr target] \<Rightarrow>
          (case fopen env target of
             None \<Rightarrow> par
           | Some (content, fails) \<Rightarrow>
               if fails then par
               else (let l_size = count_lines content
                     in if \<not> malloc_list env l_size then par
                        else (case trace_fill l_size content [] (max_psize par) of
                                (None, m) \<Rightarrow> par\<lparr>max_psize := m, list_size := 0, trace_list := []\<rparr>
                              | (Some es, m) \<Rightarrow>
                                  par\<lparr>max_psize := m, list_size := l_size, trace_list := es\<rparr>)))
      | _ \<Rightarrow> par)"

section \<open>flow_on\<close>

text \<open>Appending the new block to the list at \<^verbatim>\<open>head\<close>.\<close>

definition link_new :: "addr \<Rightarrow> rude \<Rightarrow> rude option" where
  "link_new new s =
     (case head s of
        None \<Rightarrow> Some (s\<lparr>head := Some new\<rparr>)
      | Some h \<Rightarrow> do {
          temp \<leftarrow> walk_last next_flow (heap s) h;
          c \<leftarrow> heap s temp;
          Some (store temp (c\<lparr>next_flow := Some new\<rparr>) s)
        })"

definition fail_free :: "int \<Rightarrow> addr \<Rightarrow> rude \<Rightarrow> (int \<times> rude) option" where
  "fail_free code a s = do { s' \<leftarrow> free_block a s; Some (code, s') }"

definition flow_on_cbr :: "string \<Rightarrow> addr \<Rightarrow> flow_cfg \<Rightarrow> rude \<Rightarrow> (int \<times> rude) option" where
  "flow_on_cbr buf new c s =
     (case sscanf [SKIP_D, D_ws, SKIP_D, D_ws, SKIP_WORD 10, D_ws, SKIP_U, D_ws, SKIP_WORD 127,
                   D_ws, SKIP_WORD 31, D_ws, LD, D_ws, LD] buf of
        [VInt r, VInt p] \<Rightarrow>
          if r < 0 \<or> p < PMINSIZE \<or> p > PMAXSIZE then fail_free (-4) new s
          else do {
            s' \<leftarrow> link_new new (store new (c\<lparr>send_func := Send_cbr,
                    params := P_cbr \<lparr>rate = to_int r, psize = to_int p\<rparr>\<rparr>) s);
            Some (0, s')
          }
      | _ \<Rightarrow> fail_free (-4) new s)"

definition flow_on_trace :: "parse_env \<Rightarrow> string \<Rightarrow> addr \<Rightarrow> flow_cfg \<Rightarrow> rude \<Rightarrow> (int \<times> rude) option" where
  "flow_on_trace env buf new c s =
     (let t = trace_parse env buf \<lparr>max_psize = 0, list_size = 0, list_index = 0, trace_list = []\<rparr>
      in if list_size t = 0 then fail_free (-4) new s
         else do {
           s' \<leftarrow> link_new new (store new (c\<lparr>send_func := Send_trace, params := P_trace t\<rparr>) s);
           Some (0, s')
         })"

definition flow_on :: "parse_env \<Rightarrow> string \<Rightarrow> rude \<Rightarrow> (int \<times> rude) option" where
  "flow_on env buf s =
     (case sscanf [LD, D_ws, LD, D_ws, SKIP_WORD 10, D_ws, HU, D_ws, WORD 127, D_ws, WORD 31,
                   D_ws, SKIP_REST] buf of
        [VInt time, VInt i, VInt sport, VStr d, VStr type] \<Rightarrow>
          (case malloc env (heap s) of
             None \<Rightarrow> Some (-2, s)
           | Some new \<Rightarrow>
               (let s1 = store new (zero_flow\<lparr>tos := -1\<rparr>) s
                in if time < 0 \<or> sport < 1024 \<or> check_type type = UNKNOWN then fail_free (-3) new s1
                   else (case check_dst env d of
                           Inl e \<Rightarrow> fail_free (-3) new s1
                         | Inr addr \<Rightarrow>
                             (let start = timeradd (ms_to_timeval time) (tester_start s1);
                                  c = zero_flow\<lparr>tos := -1, dst := addr, flow_start := start,
                                        next_tx := start, flow_id := i, flow_sport := sport\<rparr>
                              in case check_type type of
                                   CBR \<Rightarrow> flow_on_cbr buf new c s1
                                 | TRACE \<Rightarrow> flow_on_trace env buf new c s1
                                 | UNKNOWN \<Rightarrow> fail_free (-5) new s1))))
      | _ \<Rightarrow> Some (-1, s))"

section \<open>flow_off and flow_modify\<close>

definition flow_off :: "addr \<Rightarrow> int \<Rightarrow> rude \<Rightarrow> (int \<times> rude) option" where
  "flow_off target time s = do {
     temp \<leftarrow> walk_last mod_flow (heap s) target;
     c \<leftarrow> heap s temp;
     if tv_sec (flow_stop c) \<noteq> 0 \<or> tv_usec (flow_stop c) \<noteq> 0 then Some (-1, s)
     else (let stop = timeradd (ms_to_timeval time) (tester_start s)
           in if timer_less stop (flow_start c)
              then Some (-2, store temp (c\<lparr>flow_stop := flow_start c\<rparr>) s)
              else Some (0, store temp (c\<lparr>flow_stop := stop\<rparr>) s))
   }"

definition flow_modify_cbr :: "string \<Rightarrow> int \<Rightarrow> addr \<Rightarrow> addr \<Rightarrow> rude \<Rightarrow> (int \<times> rude) option" where
  "flow_modify_cbr buf time temp new s =
     (case sscanf [SKIP_D, D_ws, SKIP_D, D_ws, SKIP_WORD 10, D_ws, SKIP_WORD 31, D_ws, LD, D_ws, LD] buf of
        [VInt r, VInt p] \<Rightarrow>
          if r < 0 \<or> p < PMINSIZE \<or> p > PMAXSIZE then fail_free (-4) new s
          else do {
            c \<leftarrow> heap s temp;
            let start = timeradd (ms_to_timeval time) (tester_start s);
            Some (0, store temp (c\<lparr>mod_flow := Some new\<rparr>)
                       (store new (zero_flow\<lparr>flow_start := start, next_tx := start,
                          flow_id := flow_id c, dst := dst c, flow_sport := flow_sport c,
                          send_func := Send_cbr,
                          params := P_cbr \<lparr>rate = to_int r, psize = to_int p\<rparr>\<rparr>) s))
          }
      | _ \<Rightarrow> fail_free (-4) new s)"

definition flow_modify :: "parse_env \<Rightarrow> addr \<Rightarrow> string \<Rightarrow> rude \<Rightarrow> (int \<times> rude) option" where
  "flow_modify env target buf s =
     (case sscanf [LD, D_ws, SKIP_D, D_ws, SKIP_WORD 10, D_ws, WORD 31, D_ws, SKIP_REST] buf of
        [VInt time, VStr type] \<Rightarrow>
          if time < 0 \<or> check_type type = UNKNOWN then Some (-2, s)
          else (case malloc env (heap s) of
                  None \<Rightarrow> Some (-3, s)
                | Some new \<Rightarrow> do {
                    let s1 = store new zero_flow s;
                    temp \<leftarrow> walk_last mod_flow (heap s1) target;
                    (r, s2) \<leftarrow> flow_off temp time s1;
                    if r < 0 then fail_free (-4) new s2
                    else (case check_type type of
                            CBR \<Rightarrow> flow_modify_cbr buf time temp new s2
                          | _ \<Rightarrow> fail_free (-5) new s2)
                  })
      | _ \<Rightarrow> Some (-1, s))"

section \<open>start_time\<close>

definition start_offset :: "int \<times> int \<times> int \<Rightarrow> int \<Rightarrow> int \<Rightarrow> int \<Rightarrow> int" where
  "start_offset now hh mm ss =
     (let (tm_hour, tm_min, tm_sec) = now;
          m = (if ss < tm_sec then mm - 1 else mm);
          t1 = (if ss < tm_sec then (ss + 60) - tm_sec else ss - tm_sec);
          h = (if m < tm_min then hh - 1 else hh);
          t2 = (if m < tm_min then ((m + 60) - tm_min) * 60 else (m - tm_min) * 60);
          t3 = (if h < tm_hour then ((h + 24) - tm_hour) * 3600 else (h - tm_hour) * 3600)
      in t1 + t2 + t3)"

definition start_time :: "parse_env \<Rightarrow> int \<Rightarrow> int \<Rightarrow> int \<Rightarrow> rude \<Rightarrow> int \<times> rude" where
  "start_time env h m s st =
     (if h < 0 \<or> h > 23 \<or> m < 0 \<or> m > 59 \<or> s < 0 \<or> s > 59 then (-1, st)
      else (let now = timeofday env
            in (0, st\<lparr>tester_start :=
                  Timeval (tv_sec now + start_offset (localtime env) h m s) (tv_usec now)\<rparr>)))"

section \<open>read_cfg\<close>

record reader =
  rs :: rude
  nerrors :: int
  commands :: int
  start_set :: bool

abbreviation line_error :: "reader \<Rightarrow> reader" where
  "line_error r \<equiv> r\<lparr>nerrors := nerrors r - 1\<rparr>"

text \<open>Counting one command: an error code decrements \<^verbatim>\<open>errors\<close>, success increments \<^verbatim>\<open>commands\<close>.\<close>

definition count_result :: "reader \<Rightarrow> int \<times> rude \<Rightarrow> reader" where
  "count_result r res =
     (if fst res < 0 then line_error (r\<lparr>rs := snd res\<rparr>)
      else r\<lparr>rs := snd res, commands := commands r + 1\<rparr>)"

definition read_start :: "parse_env \<Rightarrow> string \<Rightarrow> reader \<Rightarrow> reader" where
  "read_start env buf r =
     (case sscanf [SKIP_WORD 5, D_ws, LD, D_lit (CHR '':''), LD, D_lit (CHR '':''), LD] buf of
        [VInt h, VInt m, VInt s] \<Rightarrow>
          if start_set r then line_error r
          else (case start_time env h m s (rs r) of
                  (code, s') \<Rightarrow>
                    if code = 0 then r\<lparr>rs := s', start_set := True, commands := commands r + 1\<rparr>
                    else line_error (r\<lparr>rs := s'\<rparr>))
      | _ \<Rightarrow> line_error r)"

definition read_tos :: "string \<Rightarrow> reader \<Rightarrow> reader option" where
  "read_tos buf r =
     (case sscanf [SKIP_WORD 3, D_ws, LD, D_ws, II] buf of
        [VInt i, VInt t] \<Rightarrow> do {
          temp \<leftarrow> find_flow_id (rs r) i;
          (case temp of
             None \<Rightarrow> Some (line_error r)
           | Some a \<Rightarrow>
               if t < 0 \<or> t > 0xFF then Some (line_error r)
               else do { c \<leftarrow> heap (rs r) a; Some (r\<lparr>rs := store a (c\<lparr>tos := t\<rparr>) (rs r)\<rparr>) })
        }
      | _ \<Rightarrow> Some (line_error r))"

definition read_cmd :: "parse_env \<Rightarrow> string \<Rightarrow> reader \<Rightarrow> reader option" where
  "read_cmd env buf r =
     (case sscanf [LD, D_ws, LD, D_ws, WORD 10] buf of
        [VInt time, VInt i, VStr cmd] \<Rightarrow>
          if time < 0 then Some (line_error r)
          else do {
            temp \<leftarrow> find_flow_id (rs r) i;
            if strncasecmp_eq cmd ''ON'' 2 \<and> temp = NULL
            then do { res \<leftarrow> flow_on env buf (rs r); Some (count_result r res) }
            else (case temp of
                    None \<Rightarrow> Some (line_error r)
                  | Some a \<Rightarrow>
                      if strncasecmp_eq cmd ''OFF'' 3
                      then do { res \<leftarrow> flow_off a time (rs r); Some (count_result r res) }
                      else if strncasecmp_eq cmd ''MODIFY'' 6
                      then do { res \<leftarrow> flow_modify env a buf (rs r); Some (count_result r res) }
                      else Some (line_error r))
          }
      | _ \<Rightarrow> Some (line_error r))"

definition read_line :: "parse_env \<Rightarrow> string \<Rightarrow> reader \<Rightarrow> reader option" where
  "read_line env buf r =
     (if buf \<noteq> [] \<and> (hd buf = CHR ''#'' \<or> hd buf = newline) then Some (r\<lparr>commands := commands r + 1\<rparr>)
      else if strncasecmp_eq buf ''START NOW'' 9 then
        (if start_set r then Some (line_error r)
         else Some (r\<lparr>rs := (rs r)\<lparr>tester_start := timeofday env\<rparr>, start_set := True,
                      commands := commands r + 1\<rparr>))
      else if strncasecmp_eq buf ''START'' 5 then Some (read_start env buf r)
      else if start_set r then
        (if strncasecmp_eq buf ''TOS'' 3 then read_tos buf r else read_cmd env buf r)
      else Some (line_error r))"

fun read_lines :: "parse_env \<Rightarrow> string list \<Rightarrow> reader \<Rightarrow> reader option" where
  "read_lines env [] r = Some r"
| "read_lines env (l # ls) r = do { r' \<leftarrow> read_line env (c_str l) r; read_lines env ls r' }"

text \<open>The check of one block at the end of \<^verbatim>\<open>read_cfg\<close>.\<close>

definition finish_block :: "addr \<Rightarrow> flow_cfg \<Rightarrow> int \<Rightarrow> rude \<Rightarrow> int \<times> rude" where
  "finish_block a c e s =
     (let e' = (if tv_sec (flow_stop c) = 0 \<and> tv_usec (flow_stop c) = 0 then e - 1 else e)
      in case params c of
           P_cbr p \<Rightarrow>
             (let s' = (if psize p > max_packet_size s then s\<lparr>max_packet_size := psize p\<rparr> else s)
              in (e', if rate p = 0
                      then store a (c\<lparr>next_tx := Timeval (tv_sec (flow_stop c) + 1) (tv_usec (flow_stop c))\<rparr>) s'
                      else s'))
         | P_trace t \<Rightarrow>
             (e', if max_psize t > max_packet_size s then s\<lparr>max_packet_size := max_psize t\<rparr> else s)
         | P_zero \<Rightarrow> (e' - 1, s))"

partial_function (option) finish_loop :: "ptr \<Rightarrow> ptr \<Rightarrow> int \<Rightarrow> rude \<Rightarrow> (int \<times> rude) option" where
  "finish_loop temp tmp e s =
     (case temp of
        None \<Rightarrow> Some (e, s)
      | Some a \<Rightarrow>
          (case heap s a of
             None \<Rightarrow> None
           | Some c \<Rightarrow>
               (case mod_flow c of
                  Some m \<Rightarrow> finish_loop (Some m) tmp (fst (finish_block a c e s)) (snd (finish_block a c e s))
                | None \<Rightarrow>
                    (case tmp of
                       None \<Rightarrow> None
                     | Some t \<Rightarrow>
                         (case heap s t of
                            None \<Rightarrow> None
                          | Some d \<Rightarrow> finish_loop (next_flow d) (next_flow d)
                                        (fst (finish_block a c e s)) (snd (finish_block a c e s)))))))"

declare finish_loop.simps [code]

definition read_cfg :: "parse_env \<Rightarrow> string \<Rightarrow> rude \<Rightarrow> (int \<times> rude) option" where
  "read_cfg env infile s = do {
     r \<leftarrow> read_lines env (fgets_lines 1022 infile)
           \<lparr>rs = s, nerrors = 0, commands = 0, start_set = False\<rparr>;
     (e, s') \<leftarrow> finish_loop (head (rs r)) (head (rs r)) (nerrors r) (rs r);
     Some (if e \<noteq> 0 then e else commands r, s')
   }"

end
