(* ===== verification/Parse_Inv.thy ===== *)
theory Parse_Inv
  imports Parse_Defs
begin

text \<open>
  The invariant of the flow table while \<^verbatim>\<open>rude/rude/parse.c\<close> builds it, and its preservation by
  \<^verbatim>\<open>flow_on\<close>, \<^verbatim>\<open>flow_off\<close>, \<^verbatim>\<open>flow_modify\<close> and the TOS clause. The comment at the top of the file
  promises that the blocks of one flow never overlap in time; \<open>slots_ok\<close> states it.
\<close>

section \<open>Blocks and flows\<close>

fun params_ok :: "params \<Rightarrow> send_fun \<Rightarrow> bool" where
  "params_ok P_zero f \<longleftrightarrow> False"
| "params_ok (P_cbr p) f \<longleftrightarrow> f = Send_cbr \<and> PMINSIZE \<le> psize p \<and> psize p \<le> PMAXSIZE"
| "params_ok (P_trace t) f \<longleftrightarrow>
     f = Send_trace \<and> list_size t = length (trace_list t) \<and> list_index t < list_size t \<and>
     max_psize t \<le> PMAXSIZE \<and>
     (\<forall>e \<in> set (trace_list t). PMINSIZE \<le> te_psize e \<and> te_psize e \<le> max_psize t \<and>
        normalized (te_wait e) \<and> 0 \<le> tv_sec (te_wait e))"

definition block_ok :: "flow_cfg \<Rightarrow> bool" where
  "block_ok c \<longleftrightarrow> normalized (flow_start c) \<and> normalized (flow_stop c) \<and> normalized (next_tx c) \<and>
     1024 \<le> flow_sport c \<and> flow_sport c < 65536 \<and> send_sock c = 0 \<and> sequence_nmbr c = 0 \<and>
     params_ok (params c) (send_func c)"

text \<open>The time slots of one flow: consecutive, not overlapping, only the last may be open.\<close>

fun slots_ok :: "flow_cfg list \<Rightarrow> bool" where
  "slots_ok [] \<longleftrightarrow> True"
| "slots_ok [c] \<longleftrightarrow> flow_stop c = tv_zero \<or> flow_start c \<le> flow_stop c"
| "slots_ok (c # d # cs) \<longleftrightarrow>
     flow_start c \<le> flow_stop c \<and> flow_stop c = flow_start d \<and>
     flow_id d = flow_id c \<and> dst d = dst c \<and> flow_sport d = flow_sport c \<and> slots_ok (d # cs)"

lemma slots_ok_snoc_upd:
  assumes "slots_ok (cs @ [d])" and "flow_start d' = flow_start d" and "flow_id d' = flow_id d"
    and "dst d' = dst d" and "flow_sport d' = flow_sport d"
    and "flow_stop d' = tv_zero \<or> flow_start d' \<le> flow_stop d'"
  shows "slots_ok (cs @ [d'])"
  using assms
proof (induction cs)
  case (Cons c cs)
  then show ?case by (cases cs) auto
qed auto

lemma slots_ok_snoc_extend:
  assumes "slots_ok (cs @ [d])" and "flow_start d \<le> flow_stop d" and "flow_start e = flow_stop d"
    and "flow_id e = flow_id d" and "dst e = dst d" and "flow_sport e = flow_sport d"
    and "flow_stop e = tv_zero \<or> flow_start e \<le> flow_stop e"
  shows "slots_ok (cs @ [d, e])"
  using assms
proof (induction cs)
  case (Cons c cs)
  then show ?case by (cases cs) auto
qed auto

section \<open>The invariant\<close>

definition flow_ids :: "rude \<Rightarrow> addr list list \<Rightarrow> int list" where
  "flow_ids s fs = map (\<lambda>f. flow_id (blk s (hd f))) fs"

definition cfg_inv :: "rude \<Rightarrow> addr list list \<Rightarrow> bool" where
  "cfg_inv s fs \<longleftrightarrow> flows_rep s fs [] \<and> distinct (flow_ids s fs) \<and> io s = io init_state \<and>
     (\<forall>f \<in> set fs. (\<forall>a \<in> set f. block_ok (blk s a)) \<and> slots_ok (map (blk s) f))"

text \<open>What the parser relies on: fresh blocks from the allocator, a clock after the epoch.\<close>

definition env_ok :: "parse_env \<Rightarrow> bool" where
  "env_ok env \<longleftrightarrow> (\<forall>h a. malloc env h = Some a \<longrightarrow> h a = None) \<and>
     normalized (timeofday env) \<and> 0 < tv_sec (timeofday env) \<and>
     (case localtime env of (h, m, s) \<Rightarrow> 0 \<le> h \<and> h \<le> 23 \<and> 0 \<le> m \<and> m \<le> 59 \<and> 0 \<le> s \<and> s \<le> 60)"

definition started :: "rude \<Rightarrow> bool" where
  "started s \<longleftrightarrow> normalized (tester_start s) \<and> 0 < tv_sec (tester_start s)"

lemma cfg_invD:
  assumes "cfg_inv s fs"
  shows "flows_rep s fs []" and "distinct (flow_ids s fs)"
    and "\<And>f a. f \<in> set fs \<Longrightarrow> a \<in> set f \<Longrightarrow> block_ok (blk s a)"
    and "\<And>f. f \<in> set fs \<Longrightarrow> slots_ok (map (blk s) f)" and "io s = io init_state"
  using assms by (auto simp: cfg_inv_def)

lemma cfg_inv_init: "cfg_inv init_state []"
  by (simp add: cfg_inv_def flows_rep_init flow_ids_def)

lemma cfg_inv_frame:
  assumes "cfg_inv s fs" and "heap s' = heap s" and "head s' = head s" and "done_ptr s' = done_ptr s"
    and "io s' = io s"
  shows "cfg_inv s' fs"
  using assms flows_rep_frame [of s fs "[]" s'] by (simp add: cfg_inv_def flow_ids_def)

lemma hd_in_concat: "f \<in> set fs \<Longrightarrow> f \<noteq> [] \<Longrightarrow> hd f \<in> set (concat fs)"
  by (auto intro!: bexI [of _ f])

section \<open>find_flow_id\<close>

lemma find_flow_id_from_chain:
  assumes "chain next_flow h p as NULL"
  shows "find_flow_id_from h i p = Some (find (\<lambda>a. flow_id (the (h a)) = i) as)"
  using assms
proof (induction as arbitrary: p)
  case Nil
  then show ?case by (simp add: find_flow_id_from.simps)
next
  case (Cons a as)
  then show ?case
    by (auto simp: find_flow_id_from.simps [of h i "Some a"] split: option.splits)
qed

lemma find_flow_id_cases:
  assumes "flows_rep s fs dn"
  obtains (none) "find_flow_id s i = Some NULL" and "i \<notin> set (flow_ids s fs)"
  | (found) f where "find_flow_id s i = Some (Some (hd f))" and "f \<in> set fs"
      and "flow_id (blk s (hd f)) = i"
proof -
  have eq: "find_flow_id s i = Some (find (\<lambda>a. flow_id (blk s a) = i) (map hd fs))"
    unfolding find_flow_id_def using flows_repD(1) [OF assms] by (rule find_flow_id_from_chain)
  show thesis
  proof (cases "find (\<lambda>a. flow_id (blk s a) = i) (map hd fs)")
    case None
    then have "i \<notin> set (flow_ids s fs)" by (auto simp: find_None_iff flow_ids_def)
    with None eq none show ?thesis by simp
  next
    case (Some a)
    then obtain f where "f \<in> set fs" "a = hd f" "flow_id (blk s a) = i"
      by (auto simp: find_Some_iff) (metis nth_mem)
    with Some eq found show ?thesis by simp
  qed
qed

section \<open>Storing into one block\<close>

text \<open>
  Changing a block without touching its links, its identity or its start keeps the invariant,
  provided the new block is well formed and the slots of its flow are.
\<close>

lemma map_the_upd_notin [simp]:
  "a \<notin> set f \<Longrightarrow> map (\<lambda>b. the (if b = a then x else h b)) f = map (\<lambda>b. the (h b)) f"
  by (induction f) auto

lemma cfg_inv_store:
  assumes inv: "cfg_inv s fs" and f: "f \<in> set fs" "a \<in> set f" and c: "heap s a = Some c"
    and links: "same_links c' c" and id: "flow_id c' = flow_id c" and ok: "block_ok c'"
    and slots: "slots_ok (map (blk (store a c' s)) f)"
  shows "cfg_inv (store a c' s) fs"
proof -
  have rep: "flows_rep (store a c' s) fs []"
    using cfg_invD(1) [OF inv] c links by (rule flows_rep_store)
  have ids: "flow_ids (store a c' s) fs = flow_ids s fs"
    using c id by (auto simp: flow_ids_def)
  have "(\<forall>b \<in> set g. block_ok (blk (store a c' s) b)) \<and> slots_ok (map (blk (store a c' s)) g)"
    if g: "g \<in> set fs" for g
  proof (cases "g = f")
    case True
    with slots ok inv f show ?thesis by (auto simp: cfg_inv_def)
  next
    case False
    then have "a \<notin> set g" using flows_rep_disjoint [OF cfg_invD(1) [OF inv] f(1) g f(2)] by blast
    with g inv show ?thesis by (auto simp: cfg_inv_def)
  qed
  with rep ids inv show ?thesis by (simp add: cfg_inv_def)
qed

text \<open>The last block of a flow.\<close>

lemma flow_last:
  assumes "flows_rep s fs dn" and "f \<in> set fs"
  obtains g t c where "f = g @ [t]" and "t \<notin> set g" and "heap s t = Some c" and "mod_flow c = NULL"
    and "walk_last mod_flow (heap s) (hd f) = Some t"
proof -
  have ne: "f \<noteq> []" and ch: "chain mod_flow (heap s) (Some (hd f)) f NULL"
    using flows_repD(2,3) [OF assms] by auto
  then obtain g t where f: "f = g @ [t]" by (cases f rule: rev_cases) auto
  with ch have "distinct f" by (intro chain_distinct)
  moreover obtain c where "heap s t = Some c" "mod_flow c = NULL"
    using ch f by (auto simp: chain_append split: option.splits)
  moreover have "walk_last mod_flow (heap s) (hd f) = Some t"
    using walk_last_chain [OF ch] f by simp
  ultimately show ?thesis using that f by auto
qed

section \<open>flow_off\<close>

lemma normalized_offset:
  "started s \<Longrightarrow> 0 \<le> t \<Longrightarrow> normalized (timeradd (ms_to_timeval t) (tester_start s))"
  by (auto simp: started_def intro: normalized_ms_to_timeval)

text \<open>The effect of \<^verbatim>\<open>flow_off\<close> on a block that ends its flow, on each of its three branches.\<close>

lemma flow_off_last:
  assumes "walk_last mod_flow (heap s) a = Some t" and "heap s t = Some c"
  shows "flow_off a time s =
    (let stop = timeradd (ms_to_timeval time) (tester_start s)
     in if flow_stop c \<noteq> tv_zero then Some (-1, s)
        else if stop < flow_start c then Some (-2, store t (c\<lparr>flow_stop := flow_start c\<rparr>) s)
        else Some (0, store t (c\<lparr>flow_stop := stop\<rparr>) s))"
proof -
  have "(tv_sec (flow_stop c) \<noteq> 0 \<or> tv_usec (flow_stop c) \<noteq> 0) = (flow_stop c \<noteq> tv_zero)"
    by (cases "flow_stop c") (auto simp: tv_zero_def)
  then show ?thesis using assms by (simp add: flow_off_def Let_def)
qed

lemma cfg_inv_set_stop:
  assumes inv: "cfg_inv s fs" and f: "g @ [t] \<in> set fs" and c: "heap s t = Some c"
    and stop: "normalized stop" "flow_start c \<le> stop"
  shows "cfg_inv (store t (c\<lparr>flow_stop := stop\<rparr>) s) fs"
proof (rule cfg_inv_store [OF inv f _ c])
  show "t \<in> set (g @ [t])" by simp
  show "same_links (c\<lparr>flow_stop := stop\<rparr>) c" by (simp add: same_links_def)
  show "flow_id (c\<lparr>flow_stop := stop\<rparr>) = flow_id c" by simp
  have "block_ok (blk s t)" using cfg_invD(3) [OF inv f] by simp
  then show "block_ok (c\<lparr>flow_stop := stop\<rparr>)" using c stop by (simp add: block_ok_def)
  have "t \<notin> set g"
    using chain_distinct [OF flows_repD(3) [OF cfg_invD(1) [OF inv] f]] by simp
  moreover have "slots_ok (map (blk s) g @ [c])"
    using cfg_invD(4) [OF inv f] c by simp
  then have "slots_ok (map (blk s) g @ [c\<lparr>flow_stop := stop\<rparr>])"
    by (rule slots_ok_snoc_upd) (use stop in auto)
  ultimately show "slots_ok (map (blk (store t (c\<lparr>flow_stop := stop\<rparr>) s)) (g @ [t]))"
    by simp
qed

lemma flow_off_inv:
  assumes inv: "cfg_inv s fs" and f: "f \<in> set fs" and st: "started s" and t0: "0 \<le> time"
  obtains r s' where "flow_off (hd f) time s = Some (r, s')" and "cfg_inv s' fs"
    and "tester_start s' = tester_start s" and "r \<le> 0" and "max_packet_size s' = max_packet_size s"
proof -
  obtain g t c where g: "f = g @ [t]" and c: "heap s t = Some c"
    and w: "walk_last mod_flow (heap s) (hd f) = Some t"
    using flow_last [OF cfg_invD(1) [OF inv] f] by metis
  note eq = flow_off_last [OF w c, of time]
  have ok: "block_ok c" using cfg_invD(3) [OF inv f, of t] g c by simp
  let ?stop = "timeradd (ms_to_timeval time) (tester_start s)"
  have n: "normalized ?stop" using st t0 by (rule normalized_offset)
  consider (a) "flow_stop c \<noteq> tv_zero"
    | (b) "flow_stop c = tv_zero" "?stop < flow_start c"
    | (c) "flow_stop c = tv_zero" "flow_start c \<le> ?stop" by fastforce
  then show ?thesis
  proof cases
    case a
    with eq inv that show ?thesis by simp
  next
    case b
    have "cfg_inv (store t (c\<lparr>flow_stop := flow_start c\<rparr>) s) fs"
      using cfg_inv_set_stop [OF inv _ c] f g ok by (simp add: block_ok_def)
    with b eq that show ?thesis by (simp add: Let_def)
  next
    case c': c
    have "cfg_inv (store t (c\<lparr>flow_stop := ?stop\<rparr>) s) fs"
      using cfg_inv_set_stop [OF inv _ c n] f g c' by simp
    with c' eq that show ?thesis by (simp add: Let_def not_less [symmetric])
  qed
qed

section \<open>Scanned values\<close>

lemma to_signed_id: "0 < b \<Longrightarrow> - (2 ^ (b - 1)) \<le> i \<Longrightarrow> i < 2 ^ (b - 1) \<Longrightarrow> to_signed b i = i"
  by (cases b) (simp_all add: to_signed_def)

lemma to_int_id: "- 2147483648 \<le> i \<Longrightarrow> i < 2147483648 \<Longrightarrow> to_int i = i"
  by (simp add: to_int_def to_signed_id)

lemma to_int_psize: "PMINSIZE \<le> p \<Longrightarrow> p \<le> PMAXSIZE \<Longrightarrow> to_int p = p"
  by (rule to_int_id) (auto simp: PMINSIZE_def PMAXSIZE_def)

lemma digit_val_range: "isdigit c \<Longrightarrow> 0 \<le> digit_val c \<and> digit_val c \<le> 9"
  by (auto simp: isdigit_def digit_val_def)

lemma number_snoc: "number b dv (ds @ [d]) = b * number b dv ds + dv d"
  by (simp add: number_def)

lemma number_range:
  "(\<And>c. c \<in> set ds \<Longrightarrow> isdigit c) \<Longrightarrow>
     0 \<le> number 10 digit_val ds \<and> number 10 digit_val ds < 10 ^ length ds"
proof (induction ds rule: rev_induct)
  case Nil
  then show ?case by (simp add: number_def)
next
  case (snoc d ds)
  then have "0 \<le> number 10 digit_val ds" "number 10 digit_val ds < 10 ^ length ds" "isdigit d" by auto
  with digit_val_range [of d] show ?case by (auto simp: number_snoc)
qed

lemma sscanf_assign_cases:
  assumes "sscanf (D_assign k # fs) s = vs" and "vs \<noteq> []"
  obtains v r vs' where "scan_conv k s = Some (v, r)" and "vs = v # vs'" and "sscanf fs r = vs'"
  using assms by (auto split: option.splits)

lemma sscanf_skip_cases:
  assumes "sscanf (D_skip k # fs) s = vs" and "vs \<noteq> []"
  obtains v r where "scan_conv k s = Some (v, r)" and "sscanf fs r = vs"
  using assms by (auto split: option.splits)

lemma scan_hu_range: "scan_conv (C_u 16) s = Some (VInt v, r) \<Longrightarrow> 0 \<le> v \<and> v < 65536"
  by (auto simp: split: prod.splits)

text \<open>\<^verbatim>\<open>flow_on\<close> reads the same time and id as the command line that led to it.\<close>

lemma flow_on_scan:
  assumes "sscanf [LD, D_ws, LD, D_ws, SKIP_WORD 10, D_ws, HU, D_ws, WORD 127, D_ws, WORD 31,
                   D_ws, SKIP_REST] buf = [VInt time, VInt i, VInt sport, VStr d, VStr type]"
    and "sscanf [LD, D_ws, LD, D_ws, WORD 10] buf = [VInt time', VInt i', VStr cmd]"
  shows "time' = time" and "i' = i" and "0 \<le> sport" and "sport < 65536"
proof -
  from assms show "time' = time" and "i' = i"
    by (auto simp del: scan_conv.simps split: option.splits)
  from assms(1) obtain x y where "scan_conv (C_u 16) x = Some (VInt sport, y)"
    by (auto simp del: scan_conv.simps split: option.splits)
  then show "0 \<le> sport" and "sport < 65536" using scan_hu_range by blast+
qed

section \<open>trace_parse\<close>

definition entry_ok :: "trace_entry \<Rightarrow> bool" where
  "entry_ok e \<longleftrightarrow> PMINSIZE \<le> te_psize e \<and> te_psize e \<le> PMAXSIZE \<and>
     normalized (te_wait e) \<and> 0 \<le> tv_sec (te_wait e)"

lemma scan_digits:
  "scan_conv (C_digits n) s = Some (VStr t, r) \<Longrightarrow> length t \<le> n \<and> (\<forall>c \<in> set t. isdigit c)"
  by (auto simp: Let_def split: if_splits dest: set_takeWhileD)
    (metis length_take length_takeWhile_le min.bounded_iff)

lemma trace_line_ok: "trace_line l = Some e \<Longrightarrow> entry_ok e"
proof -
  assume "trace_line l = Some e"
  then obtain p t1 frac where
      sc: "sscanf [DEC, D_ws, LD, D_lit (CHR ''.''), D_assign (C_digits 6), D_ws] l = [VInt p, VInt t1, VStr frac]"
    and rng: "PMINSIZE \<le> p" "p \<le> PMAXSIZE" "0 \<le> t1"
    and e: "e = \<lparr>te_psize = p, te_wait = Timeval t1
                (number 10 digit_val (frac @ replicate (6 - length frac) (CHR ''0'')))\<rparr>"
    by (auto simp: trace_line_def Let_def not_less simp del: sscanf.simps split: list.splits scan_val.splits if_splits)
  obtain r r' where "scan_conv (C_digits 6) r = Some (VStr frac, r')"
    using sc by (auto simp del: scan_conv.simps split: option.splits list.splits if_splits)
  then have "length frac \<le> 6" "\<forall>c \<in> set frac. isdigit c" using scan_digits by blast+
  moreover have "isdigit (CHR ''0'')" by (simp add: isdigit_def)
  ultimately have "\<forall>c \<in> set (frac @ replicate (6 - length frac) (CHR ''0'')). isdigit c"
    and "length (frac @ replicate (6 - length frac) (CHR ''0'')) = 6" by auto
  then have "0 \<le> tv_usec (te_wait e) \<and> tv_usec (te_wait e) < 10 ^ 6"
    using number_range [of "frac @ replicate (6 - length frac) (CHR ''0'')"] e by simp
  then show ?thesis
    using rng e by (simp add: entry_ok_def normalized_def)
qed

lemma trace_fill_ok:
  assumes "trace_fill n s acc m = (Some es, m')"
    and "\<forall>e \<in> set acc. entry_ok e \<and> te_psize e \<le> m" and "m \<le> PMAXSIZE"
  shows "length es = length acc + n \<and> m' \<le> PMAXSIZE \<and> (\<forall>e \<in> set es. entry_ok e \<and> te_psize e \<le> m')"
  using assms
proof (induction n s acc m rule: trace_fill.induct)
  case (3 n c cs acc m)
  let ?l = "c_str (fst (fgets_take 254 (c # cs)))"
  let ?r = "snd (fgets_take 254 (c # cs))"
  from "3.prems"(1) obtain e where e: "trace_line ?l = Some e"
    by (cases "trace_line ?l") auto
  let ?m = "if te_psize e > m then te_psize e else m"
  have rec: "trace_fill n ?r (e # acc) ?m = (Some es, m')"
    using "3.prems"(1) e by simp
  have ok: "entry_ok e" using e by (rule trace_line_ok)
  have "\<forall>x \<in> set (e # acc). entry_ok x \<and> te_psize x \<le> ?m"
    using "3.prems"(2) ok by auto
  moreover have "?m \<le> PMAXSIZE" using "3.prems"(3) ok by (simp add: entry_ok_def)
  ultimately have "length es = length (e # acc) + n \<and> m' \<le> PMAXSIZE \<and>
      (\<forall>x \<in> set es. entry_ok x \<and> te_psize x \<le> m')"
    by (rule "3.IH" [OF e rec])
  then show ?case by simp
qed auto

lemma trace_parse_ok:
  assumes "list_size (trace_parse env buf \<lparr>max_psize = 0, list_size = 0, list_index = 0, trace_list = []\<rparr>) \<noteq> 0"
    (is "list_size ?t \<noteq> 0")
  shows "params_ok (P_trace ?t) Send_trace"
proof -
  obtain content es m where
      fill: "trace_fill (count_lines content) content [] 0 = (Some es, m)"
    and t: "?t = \<lparr>max_psize = m, list_size = count_lines content, list_index = 0, trace_list = es\<rparr>"
    using assms
    by (auto simp: trace_parse_def Let_def simp del: sscanf.simps split: list.splits scan_val.splits option.splits prod.splits if_splits)
  from trace_fill_ok [OF fill] have "length es = count_lines content" "m \<le> PMAXSIZE"
    "\<forall>e \<in> set es. entry_ok e \<and> te_psize e \<le> m" by (auto simp: PMAXSIZE_def)
  with t assms show ?thesis by (auto simp: entry_ok_def)
qed

end
