(* ===== verification/Parse.thy ===== *)
theory Parse
  imports Parse_Inv
begin

text \<open>
  Every command of the configuration file keeps the flow table well formed, and \<^verbatim>\<open>read_cfg\<close>
  returns on every input: no access outside the allocated blocks, no walk without end.
\<close>

section \<open>flow_on\<close>

text \<open>What a block holds besides its place in the list of flows.\<close>

definition payload :: "flow_cfg \<Rightarrow> flow_cfg" where
  "payload c = c\<lparr>next_flow := NULL\<rparr>"

lemma payload_simps [simp]:
  "mod_flow (payload c) = mod_flow c" "flow_id (payload c) = flow_id c"
  "block_ok (payload c) = block_ok c" "payload (c\<lparr>next_flow := p\<rparr>) = payload c"
  by (simp_all add: payload_def block_ok_def)

lemma slots_ok_payload: "slots_ok (map payload cs) = slots_ok cs"
  by (induction cs rule: slots_ok.induct) (simp_all add: payload_def)

definition same_payload :: "addr set \<Rightarrow> rude \<Rightarrow> rude \<Rightarrow> bool" where
  "same_payload A s s' \<longleftrightarrow>
     (\<forall>a \<in> A. map_option payload (heap s' a) = map_option payload (heap s a))"

lemma same_payload_blk:
  assumes "same_payload A s s'" and "a \<in> A" and "heap s a = Some c"
  obtains c' where "heap s' a = Some c'" and "payload c' = payload c"
proof -
  have "map_option payload (heap s' a) = Some (payload c)"
    using assms by (simp add: same_payload_def)
  then show ?thesis using that by (cases "heap s' a") auto
qed

lemma flow_of_payload:
  assumes sp: "same_payload (set f) s s'" and al: "\<And>a. a \<in> set f \<Longrightarrow> heap s a \<noteq> None"
  shows "chain mod_flow (heap s') p f q = chain mod_flow (heap s) p f q"
    and "map (payload \<circ> blk s') f = map (payload \<circ> blk s) f"
proof -
  have eq: "map_option payload (heap s' a) = map_option payload (heap s a)" if "a \<in> set f" for a
    using sp that by (simp add: same_payload_def)
  have "map_option mod_flow (heap s' a) = map_option mod_flow (heap s a)" if a: "a \<in> set f" for a
    using eq [OF a] by (cases "heap s' a"; cases "heap s a")
      (auto dest: arg_cong [where f = mod_flow])
  then show "chain mod_flow (heap s') p f q = chain mod_flow (heap s) p f q"
    by (rule chain_cong)
  show "map (payload \<circ> blk s') f = map (payload \<circ> blk s) f"
  proof (rule map_cong [OF refl])
    fix a assume "a \<in> set f"
    then have "map_option payload (heap s' a) = map_option payload (heap s a)" and "heap s a \<noteq> None"
      using eq al by auto
    then show "(payload \<circ> blk s') a = (payload \<circ> blk s) a"
      by (cases "heap s a"; cases "heap s' a") auto
  qed
qed

lemma cfg_inv_append:
  assumes inv: "cfg_inv s fs" and new: "heap s new = None" and c: "heap s' new = Some c"
    and ok: "block_ok c" and mod: "mod_flow c = NULL" and stop: "flow_stop c = tv_zero"
    and id: "flow_id c \<notin> set (flow_ids s fs)" and sp: "same_payload (- {new}) s s'"
    and dp: "done_ptr s' = done_ptr s" and io: "io s' = io s"
    and ch: "chain next_flow (heap s') (head s') (map hd fs @ [new]) NULL"
  shows "cfg_inv s' (fs @ [[new]])"
proof -
  have rep: "flows_rep s fs []" using cfg_invD(1) [OF inv] .
  have al: "a \<noteq> new" "heap s a \<noteq> None" if "f \<in> set fs" "a \<in> set f" for f a
    using flows_rep_allocD [OF rep that] new by auto
  have spf: "same_payload (set f) s s'" if "f \<in> set fs" for f
    using sp al(1) [OF that] by (auto simp: same_payload_def)
  have fl: "chain mod_flow (heap s') p f q = chain mod_flow (heap s) p f q"
      "map (payload \<circ> blk s') f = map (payload \<circ> blk s) f" if f: "f \<in> set fs" for f p q
    using flow_of_payload [OF spf [OF f] al(2) [OF f]] by blast+
  have none: "(heap s' a = None) = (heap s a = None)" if "a \<noteq> new" for a
  proof -
    have "map_option payload (heap s' a) = map_option payload (heap s a)"
      using sp that by (simp add: same_payload_def)
    then show ?thesis by (cases "heap s a"; cases "heap s' a") auto
  qed
  have dom: "dom (heap s') = insert new (dom (heap s))"
    using none c by (fastforce simp: domIff set_eq_iff)
  have rep': "flows_rep s' (fs @ [[new]]) []"
    unfolding flows_rep_def
  proof (intro conjI)
    show "chain next_flow (heap s') (head s') (map hd (fs @ [[new]])) NULL" using ch by simp
    show "\<forall>f \<in> set (fs @ [[new]]). f \<noteq> [] \<and> chain mod_flow (heap s') (Some (hd f)) f NULL"
      using fl(1) flows_repD(2,3) [OF rep] c mod by auto
    show "chain next_flow (heap s') (done_ptr s') [] NULL" using flows_repD(4) [OF rep] dp by simp
    show "distinct (concat (fs @ [[new]]) @ [])" using flows_repD(5) [OF rep] al(1) by auto
    show "dom (heap s') = set (concat (fs @ [[new]]) @ [])"
      using flows_repD(6) [OF rep] dom by simp
  qed
  have blks: "payload (blk s' a) = payload (blk s a)" if "f \<in> set fs" "a \<in> set f" for f a
    using fl(2) [OF that(1)] that(2) by simp
  have "flow_ids s' fs = flow_ids s fs"
    unfolding flow_ids_def
    by (rule map_cong [OF refl])
      (metis blks flows_repD(2) [OF rep] hd_in_set payload_simps(2))
  then have ids: "flow_ids s' (fs @ [[new]]) = flow_ids s fs @ [flow_id c]"
    using c by (simp add: flow_ids_def)
  have "block_ok (blk s' a)" if "f \<in> set fs" "a \<in> set f" for f a
    using cfg_invD(3) [OF inv that] blks [OF that] by (metis payload_simps(3))
  moreover have "slots_ok (map (blk s') f)" if f: "f \<in> set fs" for f
    using cfg_invD(4) [OF inv f] fl(2) [OF f] slots_ok_payload by (metis map_map)
  ultimately show ?thesis
    using rep' ids id cfg_invD(2,5) [OF inv] io c ok stop by (auto simp: cfg_inv_def)
qed

lemma link_new_inv:
  assumes inv: "cfg_inv s fs" and new: "heap s new = None" and ok: "block_ok c"
    and links: "next_flow c = NULL" "mod_flow c = NULL" and stop: "flow_stop c = tv_zero"
    and id: "flow_id c \<notin> set (flow_ids s fs)"
  obtains s' where "link_new new (store new c s) = Some s'" and "cfg_inv s' (fs @ [[new]])"
    and "tester_start s' = tester_start s" and "max_packet_size s' = max_packet_size s"
    and "blk s' new = c"
proof (cases "head s")
  case None
  have rep: "flows_rep s fs []" using cfg_invD(1) [OF inv] .
  then have "fs = []" using flows_repD(1) [OF rep] None by (simp add: chain_simps)
  let ?s' = "(store new c s)\<lparr>head := Some new\<rparr>"
  have "cfg_inv ?s' (fs @ [[new]])"
    by (rule cfg_inv_append [OF inv new _ ok links(2) stop id])
      (use \<open>fs = []\<close> links in \<open>auto simp: same_payload_def\<close>)
  moreover have "link_new new (store new c s) = Some ?s'" by (simp add: link_new_def None)
  ultimately show ?thesis using that by simp
next
  case (Some h)
  have rep: "flows_rep s fs []" using cfg_invD(1) [OF inv] .
  have ch: "chain next_flow (heap s) (Some h) (map hd fs) NULL"
    using flows_repD(1) [OF rep] Some by simp
  have ne: "map hd fs \<noteq> []" using ch by auto
  have notin: "new \<notin> set (map hd fs)" using chain_dom [OF ch] new by auto
  let ?t = "last (map hd fs)"
  obtain d where d: "heap s ?t = Some d" using chain_dom [OF ch] ne last_in_set by blast
  then have tn: "?t \<noteq> new" using new by auto
  let ?d = "d\<lparr>next_flow := Some new\<rparr>"
  have w: "walk_last next_flow (heap (store new c s)) h = Some ?t"
    by (rule walk_last_chain) (use ch notin in \<open>simp add: chain_simps\<close>)
  let ?s' = "store ?t ?d (store new c s)"
  have "chain next_flow ((heap s)(?t \<mapsto> ?d, new \<mapsto> c)) (Some h) (map hd fs @ [new]) NULL"
    by (rule chain_extend [OF ch ne notin d]) (use links in auto)
  then have ch': "chain next_flow (heap ?s') (head ?s') (map hd fs @ [new]) NULL"
    using tn Some by (simp add: fun_upd_twist)
  have "cfg_inv ?s' (fs @ [[new]])"
    by (rule cfg_inv_append [OF inv new _ ok links(2) stop id _ _ _ ch'])
      (use tn d in \<open>auto simp: same_payload_def\<close>)
  moreover have "link_new new (store new c s) = Some ?s'"
    using Some w d tn by (simp add: link_new_def)
  moreover have "blk ?s' new = c" using tn by simp
  ultimately show ?thesis using that by simp
qed

lemma fail_free_fresh: "heap s a = None \<Longrightarrow> fail_free r a (store a c s) = Some (r, s)"
  by (simp add: fail_free_def free_fresh)

lemma store_store [simp]: "store a c (store a d s) = store a c s"
  by (simp add: store_def)

text \<open>
  \<^verbatim>\<open>flow_on\<close> either leaves the state as it was and reports an error, or appends a well-formed flow
  with the id of the line.
\<close>

definition added_flow :: "rude \<Rightarrow> addr list list \<Rightarrow> int \<Rightarrow> (int \<times> rude) option \<Rightarrow> bool" where
  "added_flow s fs i res \<longleftrightarrow>
     (\<exists>r < 0. res = Some (r, s)) \<or>
     (\<exists>s' new. res = Some (0, s') \<and> cfg_inv s' (fs @ [[new]]) \<and> flow_id (blk s' new) = i \<and>
        tester_start s' = tester_start s \<and> max_packet_size s' = max_packet_size s)"

lemma added_flow_error: "r < 0 \<Longrightarrow> added_flow s fs i (Some (r, s))"
  by (simp add: added_flow_def)

lemma added_flow_fail:
  "heap s new = None \<Longrightarrow> r < 0 \<Longrightarrow> added_flow s fs i (fail_free r new (store new c s))"
  by (simp add: fail_free_fresh added_flow_error)

definition new_block :: "flow_cfg \<Rightarrow> bool" where
  "new_block c \<longleftrightarrow> normalized (flow_start c) \<and> normalized (next_tx c) \<and> flow_stop c = tv_zero \<and>
     next_flow c = NULL \<and> mod_flow c = NULL \<and> send_sock c = 0 \<and> sequence_nmbr c = 0 \<and> 1024 \<le> flow_sport c \<and> flow_sport c < 65536"

lemma added_flow_link:
  assumes inv: "cfg_inv s fs" and new: "heap s new = None" and c: "new_block c"
    and ok: "params_ok (params c) (send_func c)" and id: "flow_id c \<notin> set (flow_ids s fs)"
  shows "added_flow s fs (flow_id c) (do { s' \<leftarrow> link_new new (store new c s); Some (0, s') })"
proof -
  have "normalized tv_zero" by (simp add: normalized_def tv_zero_def)
  then have "block_ok c" using c ok by (simp add: block_ok_def new_block_def)
  from link_new_inv [OF inv new this _ _ _ id] c obtain s' where
    "link_new new (store new c s) = Some s'" "cfg_inv s' (fs @ [[new]])"
    "tester_start s' = tester_start s" "max_packet_size s' = max_packet_size s" "blk s' new = c"
    by (auto simp: new_block_def)
  then show ?thesis by (auto simp: added_flow_def)
qed

lemma flow_on_cbr_added:
  assumes "cfg_inv s fs" and new: "heap s new = None" and "new_block c"
    and "flow_id c \<notin> set (flow_ids s fs)"
  shows "added_flow s fs (flow_id c) (flow_on_cbr buf new c (store new c0 s))"
proof -
  have "added_flow s fs (flow_id c)
      (do { s' \<leftarrow> link_new new (store new (c\<lparr>send_func := Send_cbr,
              params := P_cbr \<lparr>rate = to_int r, psize = to_int p\<rparr>\<rparr>) s); Some (0, s') })"
    if "PMINSIZE \<le> p" "p \<le> PMAXSIZE" for r p
    using added_flow_link [of s fs new "c\<lparr>send_func := Send_cbr,
        params := P_cbr \<lparr>rate = to_int r, psize = to_int p\<rparr>\<rparr>"] assms that
    by (simp add: new_block_def to_int_psize)
  then show ?thesis
    using new by (auto simp: flow_on_cbr_def not_less added_flow_fail simp del: sscanf.simps split: list.split scan_val.split)
qed

lemma flow_on_trace_added:
  assumes "cfg_inv s fs" and new: "heap s new = None" and "new_block c"
    and "flow_id c \<notin> set (flow_ids s fs)"
  shows "added_flow s fs (flow_id c) (flow_on_trace env buf new c (store new c0 s))"
proof -
  let ?t = "trace_parse env buf \<lparr>max_psize = 0, list_size = 0, list_index = 0, trace_list = []\<rparr>"
  have "added_flow s fs (flow_id c)
      (do { s' \<leftarrow> link_new new (store new (c\<lparr>send_func := Send_trace, params := P_trace ?t\<rparr>) s); Some (0, s') })"
    if "list_size ?t \<noteq> 0"
    using added_flow_link [of s fs new "c\<lparr>send_func := Send_trace, params := P_trace ?t\<rparr>"]
      assms trace_parse_ok [OF that]
    by (simp add: new_block_def del: params_ok.simps)
  then show ?thesis
    using new by (simp add: flow_on_trace_def Let_def added_flow_fail)
qed

lemma flow_on_added:
  assumes inv: "cfg_inv s fs" and env: "env_ok env" and st: "started s"
    and line: "sscanf [LD, D_ws, LD, D_ws, WORD 10] buf = [VInt time, VInt i, VStr cmd]"
    and id: "i \<notin> set (flow_ids s fs)"
  shows "added_flow s fs i (flow_on env buf s)"
proof (cases "\<exists>time' i' sport d type. sscanf [LD, D_ws, LD, D_ws, SKIP_WORD 10, D_ws, HU, D_ws,
    WORD 127, D_ws, WORD 31, D_ws, SKIP_REST] buf = [VInt time', VInt i', VInt sport, VStr d, VStr type]")
  case False
  then have "flow_on env buf s = Some (-1, s)"
    unfolding flow_on_def by (auto simp del: sscanf.simps split: list.split scan_val.split)
  then show ?thesis by (simp add: added_flow_error)
next
  case True
  then obtain time' i' sport d type where
    sc: "sscanf [LD, D_ws, LD, D_ws, SKIP_WORD 10, D_ws, HU, D_ws,
      WORD 127, D_ws, WORD 31, D_ws, SKIP_REST] buf = [VInt time', VInt i', VInt sport, VStr d, VStr type]"
    by blast
  note same = flow_on_scan [OF sc line]
  let ?start = "timeradd (ms_to_timeval time') (tester_start s)"
  have n: "0 \<le> time' \<Longrightarrow> normalized ?start" using normalized_offset [OF st] by simp
  have fresh: "malloc env (heap s) = Some a \<Longrightarrow> heap s a = None" for a
    using env by (simp add: env_ok_def)
  have blk: "new_block (zero_flow\<lparr>tos := -1, dst := x, flow_start := ?start, next_tx := ?start,
               flow_id := i', flow_sport := sport\<rparr>)" if "0 \<le> time'" "1024 \<le> sport" for x
    using that n same by (simp add: new_block_def zero_flow_def)
  note add = flow_on_cbr_added [OF inv fresh blk] flow_on_trace_added [OF inv fresh blk]
  show ?thesis
    unfolding flow_on_def sc
    using add id same fresh
    by (auto simp: not_less Let_def added_flow_error added_flow_fail split: option.split sum.split f_type.split)
qed

end
