(* ===== verification/Parse_Cfg.thy ===== *)
theory Parse_Cfg
  imports Parse
begin

text \<open>
  The MODIFY command, the reading loop and the final check of \<^verbatim>\<open>read_cfg\<close> in
  \<^verbatim>\<open>rude/rude/parse.c\<close>: every line keeps the flow table well formed, and the whole function
  returns on every file.
\<close>

section \<open>flow_modify\<close>

lemma map_hd_extend [simp]: "f \<noteq> [] \<Longrightarrow> map hd (fs1 @ (f @ as) # fs2) = map hd (fs1 @ f # fs2)"
  by simp

text \<open>Appending a fresh block to one flow.\<close>

lemma flows_rep_extend:
  assumes rep: "flows_rep s (fs1 @ f # fs2) dn" and new: "heap s new = None"
    and c: "heap s (last f) = Some c" and c': "mod_flow c' = Some new" "next_flow c' = next_flow c"
    and d: "mod_flow d = NULL"
  shows "flows_rep (store (last f) c' (store new d s)) (fs1 @ (f @ [new]) # fs2) dn"
proof -
  let ?fs = "fs1 @ f # fs2" and ?t = "last f"
  let ?s' = "store ?t c' (store new d s)"
  have dom: "dom (heap s) = set (concat ?fs @ dn)" using flows_repD(6) [OF rep] .
  have ne: "f \<noteq> []" using flows_repD(2) [OF rep] by simp
  have notin: "new \<notin> set (concat ?fs @ dn)" using new dom by (metis domIff)
  have tn: "?t \<noteq> new" using c new by auto
  have h: "heap ?s' = (heap s)(?t \<mapsto> c', new \<mapsto> d)" using tn by (simp add: fun_upd_twist)
  have nx: "chain next_flow (heap ?s') p as q" if "chain next_flow (heap s) p as q" "new \<notin> set as" for p as q
    using that c c' h by (simp add: chain_simps chain_upd_same_link)
  have "new \<notin> set (map hd ?fs)"
    using notin flows_repD(2) [OF rep] by (auto dest: hd_in_set)
  then have "chain next_flow (heap ?s') (head ?s') (map hd ?fs) NULL"
    using nx [OF flows_repD(1) [OF rep]] by simp
  moreover have "chain next_flow (heap ?s') (done_ptr ?s') dn NULL"
    using nx [OF flows_repD(4) [OF rep]] notin by simp
  moreover have "chain mod_flow (heap ?s') (Some (hd (f @ [new]))) (f @ [new]) NULL"
    unfolding h using chain_extend [OF flows_repD(3) [OF rep, of f] ne _ c c'(1) d] notin ne by simp
  moreover have "chain mod_flow (heap ?s') (Some (hd g)) g NULL" if g: "g \<in> set fs1 \<union> set fs2" for g
  proof -
    have "?t \<notin> set g"
      using flows_repD(5) [OF rep] ne g by (auto dest!: last_in_set)
    moreover have "new \<notin> set g" using notin g by auto
    ultimately show ?thesis
      unfolding h using flows_repD(3) [OF rep, of g] g by (simp add: chain_simps)
  qed
  moreover have "distinct (concat (fs1 @ (f @ [new]) # fs2) @ dn)"
    using flows_repD(5) [OF rep] notin by auto
  moreover have "dom (heap ?s') = set (concat (fs1 @ (f @ [new]) # fs2) @ dn)"
    unfolding h using dom ne by (auto simp: dom_fun_upd)
  ultimately show ?thesis
    using flows_repD(2) [OF rep] by (auto simp: flows_rep_def ne)
qed

lemma cfg_inv_extend:
  assumes inv: "cfg_inv s (fs1 @ f # fs2)" and new: "heap s new = None"
    and c: "heap s (last f) = Some c" "flow_start c \<le> flow_stop c"
    and d: "block_ok d" "mod_flow d = NULL" "flow_start d = flow_stop c" "flow_id d = flow_id c"
      "dst d = dst c" "flow_sport d = flow_sport c" "flow_stop d = tv_zero"
  shows "cfg_inv (store (last f) (c\<lparr>mod_flow := Some new\<rparr>) (store new d s)) (fs1 @ (f @ [new]) # fs2)"
    (is "cfg_inv ?s' _")
proof -
  let ?fs = "fs1 @ f # fs2"
  note rep = cfg_invD(1) [OF inv]
  have ne: "f \<noteq> []" using flows_repD(2) [OF rep] by simp
  then obtain g t where f: "f = g @ [t]" by (cases f rule: rev_cases) auto
  have old: "new \<notin> set h" if "h \<in> set ?fs" for h
    using flows_rep_allocD [OF rep that] new by metis
  have tn: "t \<noteq> new" using c new f by auto
  have tg: "t \<notin> set g" using chain_distinct [OF flows_repD(3) [OF rep, of f]] f by simp
  have other: "t \<notin> set h" if "h \<in> set fs1 \<union> set fs2" for h
    using flows_repD(5) [OF rep] f that by auto
  have "flows_rep ?s' (fs1 @ (f @ [new]) # fs2) []"
    by (rule flows_rep_extend [OF rep new c(1)]) (use d in auto)
  moreover have "flow_ids ?s' (fs1 @ (f @ [new]) # fs2) = flow_ids s ?fs"
  proof -
    have "flow_id (blk ?s' (hd h)) = flow_id (blk s (hd h))" if "h \<in> set ?fs" for h
      using c new old [OF that] flows_repD(2) [OF rep that] by auto
    then have "map (\<lambda>h. flow_id (blk ?s' (hd h))) ?fs = map (\<lambda>h. flow_id (blk s (hd h))) ?fs"
      by (intro map_cong) auto
    then show ?thesis using ne by (simp add: flow_ids_def del: heap_store)
  qed
  moreover have "(\<forall>a \<in> set h. block_ok (blk ?s' a)) \<and> slots_ok (map (blk ?s') h)"
    if "h \<in> set fs1 \<union> set fs2" for h
    using cfg_invD(3,4) [OF inv, of h] other [OF that] old [of h] that f by auto
  moreover have "\<forall>a \<in> set (f @ [new]). block_ok (blk ?s' a)"
  proof -
    have "block_ok c" using cfg_invD(3) [OF inv, of f t] c f by simp
    then have "block_ok (c\<lparr>mod_flow := Some new\<rparr>)" by (simp add: block_ok_def)
    then show ?thesis using cfg_invD(3) [OF inv, of f] d(1) tn f by simp
  qed
  moreover have "slots_ok (map (blk ?s') (f @ [new]))"
  proof -
    have "slots_ok (map (blk s) g @ [c])" using cfg_invD(4) [OF inv, of f] c f by simp
    then have "slots_ok (map (blk s) g @ [c\<lparr>mod_flow := Some new\<rparr>])"
      by (rule slots_ok_snoc_upd) (use c in auto)
    then have "slots_ok (map (blk s) g @ [c\<lparr>mod_flow := Some new\<rparr>, d])"
      by (rule slots_ok_snoc_extend) (use c d in auto)
    moreover have "map (blk ?s') (f @ [new]) = map (blk s) g @ [c\<lparr>mod_flow := Some new\<rparr>, d]"
      using tg tn f old [of f] by simp
    ultimately show ?thesis by simp
  qed
  ultimately show ?thesis using cfg_invD(2,5) [OF inv] by (auto simp: cfg_inv_def)
qed

text \<open>
  The outcome of MODIFY on flow \<open>f\<close>: an error, which may leave the slot of the last block closed,
  or a new block at the end of the flow.
\<close>

definition modified_flow :: "rude \<Rightarrow> addr list list \<Rightarrow> addr list \<Rightarrow> addr list list \<Rightarrow> (int \<times> rude) option \<Rightarrow> bool" where
  "modified_flow s fs1 f fs2 res \<longleftrightarrow>
     (\<exists>r s'. res = Some (r, s') \<and> tester_start s' = tester_start s \<and>
        max_packet_size s' = max_packet_size s \<and>
        (r < 0 \<and> cfg_inv s' (fs1 @ f # fs2) \<or>
         r = 0 \<and> (\<exists>new. cfg_inv s' (fs1 @ (f @ [new]) # fs2))))"

lemma modified_flow_error:
  "r < 0 \<Longrightarrow> cfg_inv s' (fs1 @ f # fs2) \<Longrightarrow> tester_start s' = tester_start s \<Longrightarrow>
     max_packet_size s' = max_packet_size s \<Longrightarrow> modified_flow s fs1 f fs2 (Some (r, s'))"
  by (simp add: modified_flow_def)

lemma store_twist: "a \<noteq> b \<Longrightarrow> store a c (store b d s) = store b d (store a c s)"
  by (simp add: store_def fun_upd_twist)

lemma flow_modify_cbr_inv:
  assumes inv: "cfg_inv s (fs1 @ f # fs2)" and new: "heap s new = None" and st: "started s" and t0: "0 \<le> time"
    and c: "heap s (last f) = Some c" "flow_start c \<le> flow_stop c"
      "flow_stop c = timeradd (ms_to_timeval time) (tester_start s)"
  shows "modified_flow s fs1 f fs2 (flow_modify_cbr buf time (last f) new (store new zero_flow s))"
proof -
  let ?start = "timeradd (ms_to_timeval time) (tester_start s)"
  have err: "modified_flow s fs1 f fs2 (fail_free (-4) new (store new zero_flow s))"
    using inv new by (simp add: fail_free_fresh modified_flow_error)
  have tn: "last f \<noteq> new" using c new by auto
  have f: "f \<noteq> []" using flows_repD(2) [OF cfg_invD(1) [OF inv]] by simp
  have ok: "block_ok c" using cfg_invD(3) [OF inv, of f "last f"] c f by simp
  have "modified_flow s fs1 f fs2 (Some (0, store (last f) (c\<lparr>mod_flow := Some new\<rparr>) (store new
      (zero_flow\<lparr>flow_start := ?start, next_tx := ?start, flow_id := flow_id c, dst := dst c,
         flow_sport := flow_sport c, send_func := Send_cbr,
         params := P_cbr \<lparr>rate = to_int r, psize = to_int p\<rparr>\<rparr>) s)))"
    if "PMINSIZE \<le> p" "p \<le> PMAXSIZE" for r p
  proof -
    let ?d = "zero_flow\<lparr>flow_start := ?start, next_tx := ?start, flow_id := flow_id c, dst := dst c,
         flow_sport := flow_sport c, send_func := Send_cbr,
         params := P_cbr \<lparr>rate = to_int r, psize = to_int p\<rparr>\<rparr>"
    have "block_ok ?d"
      using ok that c by (auto simp: block_ok_def zero_flow_def to_int_psize normalized_def tv_zero_def)
    then have "cfg_inv (store (last f) (c\<lparr>mod_flow := Some new\<rparr>) (store new ?d s)) (fs1 @ (f @ [new]) # fs2)"
      by (intro cfg_inv_extend [OF inv new c(1,2)]) (use c in \<open>auto simp: zero_flow_def\<close>)
    then show ?thesis by (auto simp: modified_flow_def)
  qed
  with err c tn show ?thesis
    by (auto simp: flow_modify_cbr_def Let_def not_less simp del: sscanf.simps split: list.split scan_val.split)
qed

lemma flow_modify_inv:
  assumes inv: "cfg_inv s (fs1 @ f # fs2)" and env: "env_ok env" and st: "started s"
  shows "modified_flow s fs1 f fs2 (flow_modify env (hd f) buf s)"
proof -
  let ?fs = "fs1 @ f # fs2"
  obtain g t c where f: "f = g @ [t]" and c: "heap s t = Some c" "mod_flow c = NULL"
    and w: "walk_last mod_flow (heap s) (hd f) = Some t"
    using flow_last [OF cfg_invD(1) [OF inv], of f] by (metis in_set_conv_decomp)
  have ok: "block_ok c" using cfg_invD(3) [OF inv, of f t] f c by simp
  have body: "modified_flow s fs1 f fs2 (do {
        temp \<leftarrow> walk_last mod_flow (heap (store new zero_flow s)) (hd f);
        (r, s2) \<leftarrow> flow_off temp time (store new zero_flow s);
        if r < 0 then fail_free (-4) new s2
        else (case k of CBR \<Rightarrow> flow_modify_cbr buf time temp new s2 | _ \<Rightarrow> fail_free (-5) new s2) })"
    if t0: "0 \<le> time" and new: "heap s new = None" for time new k
  proof -
    let ?s1 = "store new zero_flow s" and ?stop = "timeradd (ms_to_timeval time) (tester_start s)"
    have tn: "t \<noteq> new" using c new by auto
    have "new \<notin> set f" using flows_rep_allocD [OF cfg_invD(1) [OF inv], of f new] new by auto
    then have w1: "walk_last mod_flow (heap ?s1) (hd f) = Some t"
      using walk_last_chain [of mod_flow "heap ?s1" "hd f" f] flows_repD(3) [OF cfg_invD(1) [OF inv], of f] f
      by (simp add: chain_simps del: chain.simps)
    have w2: "walk_last mod_flow (heap ?s1) t = Some t"
      by (rule walk_last_chain [where as = "[t]", simplified]) (use c tn in simp)
    note off = flow_off_last [OF w2, of c time]
    have fr: "fail_free r new (store t d ?s1) = Some (r, store t d s)" for r d
      using tn new by (simp add: store_twist fail_free_fresh)
    consider (a) "flow_stop c \<noteq> tv_zero" | (b) "flow_stop c = tv_zero" "?stop < flow_start c"
      | (c) "flow_stop c = tv_zero" "flow_start c \<le> ?stop" by fastforce
    then show ?thesis
    proof cases
      case a
      then show ?thesis using w1 off c tn inv new by (simp add: fail_free_fresh modified_flow_error)
    next
      case b
      then show ?thesis
        using w1 off c tn cfg_inv_set_stop [OF inv _ c(1), of g "flow_start c"] f ok
        by (simp add: Let_def fr modified_flow_error block_ok_def)
    next
      case c': c
      let ?c = "c\<lparr>flow_stop := ?stop\<rparr>"
      have inv2: "cfg_inv (store t ?c s) ?fs"
        using cfg_inv_set_stop [OF inv _ c(1) normalized_offset [OF st t0], of g] c' f by simp
      have "modified_flow (store t ?c s) fs1 f fs2 (flow_modify_cbr buf time t new (store new zero_flow (store t ?c s)))"
        using flow_modify_cbr_inv [OF inv2 _ _ t0, of new ?c buf] tn new st c' f by (simp add: started_def)
      then have "modified_flow s fs1 f fs2 (flow_modify_cbr buf time t new (store t ?c ?s1))"
        using tn by (simp add: modified_flow_def store_twist)
      then show ?thesis
        using w1 off c tn c' inv2 f
        by (auto simp: Let_def fr modified_flow_error not_less [symmetric] split: f_type.split)
    qed
  qed
  have fresh: "malloc env (heap s) = Some a \<Longrightarrow> heap s a = None" for a
    using env by (simp add: env_ok_def)
  show ?thesis
    unfolding flow_modify_def Let_def
    using inv body fresh
    by (auto simp: not_less modified_flow_error simp del: sscanf.simps split: list.split scan_val.split option.split)
qed

section \<open>Changes that keep the time slots\<close>

definition slot :: "flow_cfg \<Rightarrow> timeval \<times> timeval \<times> int \<times> sockaddr_in \<times> int" where
  "slot c = (flow_start c, flow_stop c, flow_id c, dst c, flow_sport c)"

lemma slots_ok_cong: "map slot cs = map slot ds \<Longrightarrow> slots_ok cs = slots_ok ds"
proof (induction cs arbitrary: ds rule: slots_ok.induct)
  case (3 c d cs)
  then obtain c' d' ds' where "ds = c' # d' # ds'" by (auto simp: Cons_eq_map_conv)
  moreover from this have "slots_ok (d # cs) = slots_ok (d' # ds')" using 3 by simp
  ultimately show ?case using "3.prems" by (auto simp: slot_def)
qed (auto simp: slot_def)

lemma cfg_inv_store_slot:
  assumes inv: "cfg_inv s fs" and f: "f \<in> set fs" "a \<in> set f" and c: "heap s a = Some c"
    and c': "same_links c' c" "slot c' = slot c" "block_ok c'"
  shows "cfg_inv (store a c' s) fs"
proof (rule cfg_inv_store [OF inv f c c'(1) _ c'(3)])
  show "flow_id c' = flow_id c" using c' by (simp add: slot_def)
  have "map slot (map (blk (store a c' s)) f) = map slot (map (blk s) f)" using c c' by simp
  then show "slots_ok (map (blk (store a c' s)) f)"
    using cfg_invD(4) [OF inv f(1)] slots_ok_cong by blast
qed

section \<open>Reading the lines\<close>

definition reader_inv :: "reader \<Rightarrow> addr list list \<Rightarrow> bool" where
  "reader_inv r fs \<longleftrightarrow> cfg_inv (rs r) fs \<and> (start_set r \<longrightarrow> started (rs r)) \<and>
     nerrors r \<le> 0 \<and> 0 \<le> commands r"

text \<open>One line takes the reader to a well-formed reader; errors are never taken back.\<close>

definition step_ok :: "reader \<Rightarrow> reader option \<Rightarrow> bool" where
  "step_ok r res \<longleftrightarrow>
     (\<exists>r' fs'. res = Some r' \<and> reader_inv r' fs' \<and> nerrors r' \<le> nerrors r \<and>
        max_packet_size (rs r') = max_packet_size (rs r))"

lemma step_ok_error: "reader_inv r fs \<Longrightarrow> step_ok r (Some (line_error r))"
  by (auto simp: step_ok_def reader_inv_def)

lemma step_ok_count:
  assumes "reader_inv r fs" and "cfg_inv s' fs'" and "tester_start s' = tester_start (rs r)"
    and "max_packet_size s' = max_packet_size (rs r)"
  shows "step_ok r (Some (count_result r (code, s')))"
  using assms by (auto simp: step_ok_def reader_inv_def count_result_def started_def)

lemma start_offset_nonneg:
  assumes "case now of (h, m, s) \<Rightarrow> 0 \<le> h \<and> h \<le> 23 \<and> 0 \<le> m \<and> m \<le> 59 \<and> 0 \<le> s \<and> s \<le> 60"
    and "0 \<le> hh" "hh \<le> 23" "0 \<le> mm" "mm \<le> 59" "0 \<le> ss" "ss \<le> 59"
  shows "0 \<le> start_offset now hh mm ss"
  using assms by (auto simp: start_offset_def Let_def)

lemma read_start_ok:
  assumes inv: "reader_inv r fs" and env: "env_ok env"
  shows "step_ok r (Some (read_start env buf r))"
proof -
  have "step_ok r (Some (case start_time env h m s (rs r) of (code, s') \<Rightarrow>
          if code = 0 then r\<lparr>rs := s', start_set := True, commands := commands r + 1\<rparr>
          else line_error (r\<lparr>rs := s'\<rparr>)))" for h m s
    using inv env start_offset_nonneg [of "localtime env" h m s]
    by (auto simp: step_ok_def reader_inv_def start_time_def Let_def env_ok_def started_def normalized_def
        intro!: exI [of _ fs] elim: cfg_inv_frame)
  then show ?thesis
    using step_ok_error [OF inv]
    by (auto simp: read_start_def simp del: sscanf.simps split: list.split scan_val.split)
qed

lemma read_tos_ok:
  assumes inv: "reader_inv r fs"
  shows "step_ok r (read_tos buf r)"
proof -
  have cfg: "cfg_inv (rs r) fs" using inv by (simp add: reader_inv_def)
  have "step_ok r (do { temp \<leftarrow> find_flow_id (rs r) i;
          (case temp of
             None \<Rightarrow> Some (line_error r)
           | Some a \<Rightarrow>
               if t < 0 \<or> t > 0xFF then Some (line_error r)
               else do { c \<leftarrow> heap (rs r) a; Some (r\<lparr>rs := store a (c\<lparr>tos := t\<rparr>) (rs r)\<rparr>) }) })" for i t
    using cfg_invD(1) [OF cfg]
  proof (cases rule: find_flow_id_cases [where i = i])
    case none
    then show ?thesis using step_ok_error [OF inv] by simp
  next
    case (found f)
    have hd: "hd f \<in> set f" using flows_repD(2) [OF cfg_invD(1) [OF cfg] found(2)] by simp
    obtain c where c: "heap (rs r) (hd f) = Some c"
      using flows_rep_hd_alloc [OF cfg_invD(1) [OF cfg] found(2)] by blast
    have "block_ok (c\<lparr>tos := t\<rparr>)" using cfg_invD(3) [OF cfg found(2) hd] c by (simp add: block_ok_def)
    then have "cfg_inv (store (hd f) (c\<lparr>tos := t\<rparr>) (rs r)) fs"
      by (intro cfg_inv_store_slot [OF cfg found(2) hd c]) (auto simp: same_links_def slot_def)
    then show ?thesis
      using found c step_ok_error [OF inv] inv by (auto simp: step_ok_def reader_inv_def started_def)
  qed
  then show ?thesis
    using step_ok_error [OF inv]
    by (auto simp: read_tos_def simp del: sscanf.simps split: list.split scan_val.split)
qed

lemma read_cmd_on:
  assumes inv: "reader_inv r fs" and env: "env_ok env" and st: "started (rs r)"
    and line: "sscanf [LD, D_ws, LD, D_ws, WORD 10] buf = [VInt time, VInt i, VStr cmd]"
    and id: "i \<notin> set (flow_ids (rs r) fs)"
  shows "step_ok r (do { res \<leftarrow> flow_on env buf (rs r); Some (count_result r res) })"
proof -
  have cfg: "cfg_inv (rs r) fs" using inv by (simp add: reader_inv_def)
  from flow_on_added [OF cfg env st line id] obtain code s' fs' where
    "flow_on env buf (rs r) = Some (code, s')" "cfg_inv s' fs'"
    "tester_start s' = tester_start (rs r)" "max_packet_size s' = max_packet_size (rs r)"
    using cfg unfolding added_flow_def by metis
  then show ?thesis using step_ok_count [OF inv] by simp
qed

lemma read_cmd_flow:
  assumes inv: "reader_inv r fs" and env: "env_ok env" and st: "started (rs r)"
    and f: "f \<in> set fs" and t0: "0 \<le> time"
  shows "step_ok r (do { res \<leftarrow> flow_off (hd f) time (rs r); Some (count_result r res) })"
    and "step_ok r (do { res \<leftarrow> flow_modify env (hd f) buf (rs r); Some (count_result r res) })"
proof -
  have cfg: "cfg_inv (rs r) fs" using inv by (simp add: reader_inv_def)
  obtain code s' where "flow_off (hd f) time (rs r) = Some (code, s')" "cfg_inv s' fs"
    "tester_start s' = tester_start (rs r)" "max_packet_size s' = max_packet_size (rs r)"
    using flow_off_inv [OF cfg f st t0] by metis
  then show "step_ok r (do { res \<leftarrow> flow_off (hd f) time (rs r); Some (count_result r res) })"
    using step_ok_count [OF inv] by simp
  obtain fs1 fs2 where fs: "fs = fs1 @ f # fs2" using f by (auto simp: in_set_conv_decomp)
  from flow_modify_inv [OF cfg [unfolded fs] env st, of buf] obtain code s' fs' where
    "flow_modify env (hd f) buf (rs r) = Some (code, s')" "cfg_inv s' fs'"
    "tester_start s' = tester_start (rs r)" "max_packet_size s' = max_packet_size (rs r)"
    unfolding modified_flow_def by metis
  then show "step_ok r (do { res \<leftarrow> flow_modify env (hd f) buf (rs r); Some (count_result r res) })"
    using step_ok_count [OF inv] by simp
qed

lemma read_cmd_ok:
  assumes inv: "reader_inv r fs" and env: "env_ok env" and set: "start_set r"
  shows "step_ok r (read_cmd env buf r)"
proof (cases "\<exists>time i cmd. sscanf [LD, D_ws, LD, D_ws, WORD 10] buf = [VInt time, VInt i, VStr cmd] \<and> 0 \<le> time")
  case False
  then have "read_cmd env buf r = Some (line_error r)"
    unfolding read_cmd_def by (auto simp del: sscanf.simps split: list.split scan_val.split)
  then show ?thesis using step_ok_error [OF inv] by simp
next
  case True
  then obtain time i cmd where
    line: "sscanf [LD, D_ws, LD, D_ws, WORD 10] buf = [VInt time, VInt i, VStr cmd]" and t0: "0 \<le> time"
    by blast
  have cfg: "cfg_inv (rs r) fs" and st: "started (rs r)" using inv set by (auto simp: reader_inv_def)
  show ?thesis
    using cfg_invD(1) [OF cfg]
  proof (cases rule: find_flow_id_cases [where i = i])
    case none
    then show ?thesis
      unfolding read_cmd_def line
      using t0 read_cmd_on [OF inv env st line none(2)] step_ok_error [OF inv] by simp
  next
    case (found f)
    then show ?thesis
      unfolding read_cmd_def line
      using t0 read_cmd_flow [OF inv env st found(2) t0] step_ok_error [OF inv] by simp
  qed
qed

lemma read_line_ok:
  assumes inv: "reader_inv r fs" and env: "env_ok env"
  shows "step_ok r (read_line env buf r)"
proof -
  have "step_ok r (Some (r\<lparr>commands := commands r + 1\<rparr>))"
    using inv by (auto simp: step_ok_def reader_inv_def)
  moreover have "step_ok r (Some (r\<lparr>rs := (rs r)\<lparr>tester_start := timeofday env\<rparr>, start_set := True,
                      commands := commands r + 1\<rparr>))"
    using inv env
    by (auto simp: step_ok_def reader_inv_def env_ok_def started_def intro!: exI [of _ fs] elim: cfg_inv_frame)
  ultimately show ?thesis
    using step_ok_error [OF inv] read_start_ok [OF inv env] read_tos_ok [OF inv] read_cmd_ok [OF inv env]
    by (simp add: read_line_def)
qed

lemma read_lines_ok:
  assumes "reader_inv r fs" and "env_ok env"
  shows "step_ok r (read_lines env ls r)"
  using assms(1)
proof (induction ls arbitrary: r fs)
  case Nil
  then show ?case by (auto simp: step_ok_def)
next
  case (Cons l ls)
  obtain r' fs' where l: "read_line env (c_str l) r = Some r'" "reader_inv r' fs'" "nerrors r' \<le> nerrors r"
    "max_packet_size (rs r') = max_packet_size (rs r)"
    using read_line_ok [OF Cons.prems assms(2), of "c_str l"] by (auto simp: step_ok_def)
  with Cons.IH [OF l(2)] show ?case by (fastforce simp: step_ok_def)
qed

end
