(* ===== verification/Parse_Finish.thy ===== *)
theory Parse_Finish
  imports Parse_Cfg
begin

text \<open>
  The pass of \<^verbatim>\<open>read_cfg\<close> over all blocks after the last line: it visits the blocks of every flow
  once, in order, computes \<^verbatim>\<open>max_packet_size\<close>, counts the blocks without stop time as errors and
  moves the transmission time of silent blocks past their end.
\<close>

section \<open>The pass as a fold\<close>

definition open_block :: "flow_cfg \<Rightarrow> bool" where
  "open_block c \<longleftrightarrow> flow_stop c = tv_zero"

definition block_size :: "flow_cfg \<Rightarrow> int" where
  "block_size c = (case params c of P_cbr p \<Rightarrow> psize p | P_trace t \<Rightarrow> max_psize t | P_zero \<Rightarrow> 0)"

definition silent :: "flow_cfg \<Rightarrow> bool" where
  "silent c \<longleftrightarrow> (case params c of P_cbr p \<Rightarrow> rate p = 0 | _ \<Rightarrow> False)"

definition tidy :: "flow_cfg \<Rightarrow> flow_cfg" where
  "tidy c = (if silent c
     then c\<lparr>next_tx := Timeval (tv_sec (flow_stop c) + 1) (tv_usec (flow_stop c))\<rparr> else c)"

lemma tidy_simps [simp]:
  "next_flow (tidy c) = next_flow c" "mod_flow (tidy c) = mod_flow c" "flow_stop (tidy c) = flow_stop c"
  "params (tidy c) = params c" "same_links (tidy c) c" "slot (tidy c) = slot c"
  "open_block (tidy c) = open_block c" "block_size (tidy c) = block_size c" "silent (tidy c) = silent c"
  by (simp_all add: tidy_def same_links_def slot_def open_block_def block_size_def silent_def)

lemma block_ok_tidy: "block_ok c \<Longrightarrow> block_ok (tidy c)"
  by (auto simp: block_ok_def tidy_def normalized_def)

lemma silent_next: "silent c \<Longrightarrow> flow_stop c < next_tx (tidy c)"
  by (simp add: tidy_def less_timeval_def timer_less_def del: timer_less_iff)

lemma finish_block_eq:
  assumes "heap s a = Some c" and "params c \<noteq> P_zero"
  shows "finish_block a c e s =
    (if open_block c then e - 1 else e,
     (store a (tidy c) s)\<lparr>max_packet_size := max (max_packet_size s) (block_size c)\<rparr>)"
proof -
  have "(tv_sec (flow_stop c) = 0 \<and> tv_usec (flow_stop c) = 0) = open_block c"
    by (cases "flow_stop c") (auto simp: open_block_def tv_zero_def)
  moreover have "store a c s = s" using assms(1) by (simp add: store_def fun_upd_idem)
  ultimately show ?thesis
    using assms(2)
    by (cases "params c") (auto simp: finish_block_def Let_def tidy_def silent_def block_size_def store_def max_def)
qed

fun finish_blocks :: "addr list \<Rightarrow> int \<Rightarrow> rude \<Rightarrow> int \<times> rude" where
  "finish_blocks [] e s = (e, s)"
| "finish_blocks (a # as) e s =
     (let (e', s') = finish_block a (blk s a) e s in finish_blocks as e' s')"

lemma finish_blocks_append:
  "finish_blocks (as @ bs) e s = (let (e', s') = finish_blocks as e s in finish_blocks bs e' s')"
  by (induction as arbitrary: e s) (simp_all add: case_prod_beta)

text \<open>The blocks of a state in which every listed block is allocated and has parameters.\<close>

definition ready :: "rude \<Rightarrow> addr list \<Rightarrow> bool" where
  "ready s as \<longleftrightarrow> (\<forall>a \<in> set as. \<exists>c. heap s a = Some c \<and> params c \<noteq> P_zero)"

definition same_shape :: "rude \<Rightarrow> rude \<Rightarrow> bool" where
  "same_shape s s' \<longleftrightarrow> (\<forall>a. map_option next_flow (heap s' a) = map_option next_flow (heap s a) \<and>
     map_option mod_flow (heap s' a) = map_option mod_flow (heap s a) \<and>
     map_option params (heap s' a) = map_option params (heap s a))"

lemma same_shape_refl [simp]: "same_shape s s"
  by (simp add: same_shape_def)

lemma same_shape_trans: "same_shape s s' \<Longrightarrow> same_shape s' s'' \<Longrightarrow> same_shape s s''"
  by (simp add: same_shape_def)

lemma same_shape_chain:
  "same_shape s s' \<Longrightarrow> chain next_flow (heap s') p as q = chain next_flow (heap s) p as q"
  "same_shape s s' \<Longrightarrow> chain mod_flow (heap s') p as q = chain mod_flow (heap s) p as q"
  by (auto simp: same_shape_def intro!: chain_cong)

lemma same_shape_ready: "same_shape s s' \<Longrightarrow> ready s' as = ready s as"
proof -
  assume "same_shape s s'"
  then have "map_option params (heap s' a) = map_option params (heap s a)" for a
    by (simp add: same_shape_def)
  then have "(\<exists>c. heap s' a = Some c \<and> params c \<noteq> P_zero) = (\<exists>c. heap s a = Some c \<and> params c \<noteq> P_zero)" for a
    by (metis (no_types, lifting) map_option_eq_Some)
  then show ?thesis by (simp add: ready_def)
qed

lemma finish_block_shape:
  assumes "heap s a = Some c" and "params c \<noteq> P_zero"
  shows "same_shape s (snd (finish_block a c e s))"
  using assms by (simp add: finish_block_eq same_shape_def)

lemma finish_blocks_shape: "ready s as \<Longrightarrow> same_shape s (snd (finish_blocks as e s))"
proof (induction as arbitrary: e s)
  case (Cons a as)
  from Cons.prems obtain c where c: "heap s a = Some c" "params c \<noteq> P_zero" by (auto simp: ready_def)
  let ?r = "finish_block a c e s"
  have sh: "same_shape s (snd ?r)" using c by (rule finish_block_shape)
  then have "ready (snd ?r) as" using Cons.prems by (simp add: same_shape_ready) (simp add: ready_def)
  from same_shape_trans [OF sh Cons.IH [OF this]] show ?case
    using c by (simp add: case_prod_beta)
qed simp

section \<open>The loop is the fold\<close>

lemma finish_loop_flow:
  assumes "chain mod_flow (heap s) (Some a) f NULL" and "heap s t = Some d" and "ready s f"
  shows "finish_loop (Some a) (Some t) e s =
    (let (e', s') = finish_blocks f e s in finish_loop (next_flow d) (next_flow d) e' s')"
  using assms
proof (induction f arbitrary: a e s d)
  case (Cons b f)
  then obtain c where c: "b = a" "heap s a = Some c" "chain mod_flow (heap s) (mod_flow c) f NULL" "params c \<noteq> P_zero"
    by (auto simp: ready_def split: option.splits)
  obtain e1 s1 where r: "finish_block a c e s = (e1, s1)" by fastforce
  have sh: "same_shape s s1" using finish_block_shape [OF c(2,4), of e] r by simp
  then have "map_option next_flow (heap s1 t) = Some (next_flow d)" using Cons.prems by (simp add: same_shape_def)
  then obtain d1 where d1: "heap s1 t = Some d1" "next_flow d1 = next_flow d" by auto
  have "ready s1 f" using Cons.prems sh by (simp add: same_shape_ready) (simp add: ready_def)
  moreover have ch: "chain mod_flow (heap s1) (mod_flow c) f NULL" using c sh by (simp add: same_shape_chain)
  ultimately show ?case
    using Cons.IH [of s1 _ d1 e1] c r d1 Cons.prems
    by (cases "mod_flow c") (simp_all add: finish_loop.simps [of "Some a"] chain_NULL)
qed simp

lemma finish_loop_flows:
  assumes "chain next_flow (heap s) p (map hd fs) NULL"
    and "\<And>f. f \<in> set fs \<Longrightarrow> f \<noteq> [] \<and> chain mod_flow (heap s) (Some (hd f)) f NULL \<and> ready s f"
  shows "finish_loop p p e s = Some (finish_blocks (concat fs) e s)"
  using assms
proof (induction fs arbitrary: p e s)
  case Nil
  then show ?case by (simp add: finish_loop.simps)
next
  case (Cons f fs)
  then obtain d where d: "p = Some (hd f)" "heap s (hd f) = Some d" "chain next_flow (heap s) (next_flow d) (map hd fs) NULL"
    by (auto split: option.splits)
  obtain e1 s1 where r: "finish_blocks f e s = (e1, s1)" by fastforce
  have sh: "same_shape s s1" using finish_blocks_shape [of s f e] Cons.prems(2) [of f] r by simp
  have "finish_loop (next_flow d) (next_flow d) e1 s1 = Some (finish_blocks (concat fs) e1 s1)"
    using Cons.prems(2) d sh by (intro Cons.IH) (simp_all add: same_shape_chain same_shape_ready)
  moreover have "finish_blocks (f @ g) e s = finish_blocks g e1 s1" for g
    using r by (simp add: finish_blocks_append)
  ultimately show ?case using finish_loop_flow [of s "hd f" f "hd f" d e] Cons.prems(2) [of f] d r by simp
qed

section \<open>The effect of the pass\<close>

lemma finish_blocks_effect:
  assumes "ready s as" and "distinct as"
  shows "finish_blocks as e s =
    (e - int (length (filter (\<lambda>a. open_block (blk s a)) as)),
     s\<lparr>heap := (\<lambda>a. if a \<in> set as then map_option tidy (heap s a) else heap s a),
       max_packet_size := fold (\<lambda>a m. max m (block_size (blk s a))) as (max_packet_size s)\<rparr>)"
  using assms
proof (induction as arbitrary: e s)
  case (Cons a as)
  from Cons.prems obtain c where c: "heap s a = Some c" "params c \<noteq> P_zero" by (auto simp: ready_def)
  obtain e1 s1 where r: "finish_block a c e s = (e1, s1)" by fastforce
  have eq: "e1 = (if open_block c then e - 1 else e)"
    "s1 = (store a (tidy c) s)\<lparr>max_packet_size := max (max_packet_size s) (block_size c)\<rparr>"
    using r finish_block_eq [OF c, of e] by auto
  have "same_shape s s1" using finish_block_shape [OF c, of e] r by simp
  then have ready: "ready s1 as" using Cons.prems by (simp add: same_shape_ready) (simp add: ready_def)
  have same: "heap s1 b = heap s b" if "b \<in> set as" for b
    using that Cons.prems(2) eq by auto
  have "filter (\<lambda>b. open_block (blk s1 b)) as = filter (\<lambda>b. open_block (blk s b)) as"
    using same by (intro filter_cong) auto
  moreover have "fold (\<lambda>b m. max m (block_size (blk s1 b))) as x = fold (\<lambda>b m. max m (block_size (blk s b))) as x" for x
    using same by (intro fold_cong) auto
  moreover have "(\<lambda>b. if b \<in> set as then map_option tidy (heap s1 b) else heap s1 b) =
      (\<lambda>b. if b \<in> set (a # as) then map_option tidy (heap s b) else heap s b)"
    using same c eq Cons.prems(2) by (auto simp: fun_eq_iff)
  ultimately show ?case
    using Cons.IH [OF ready, of e1] Cons.prems(2) r c eq by simp
qed (simp)

lemma fold_max_ge_init:
  fixes g :: "'a \<Rightarrow> int"
  shows "m \<le> fold (\<lambda>a m. max m (g a)) as m"
  by (induction as arbitrary: m) (auto intro: order_trans [OF max.cobounded1])

lemma fold_max_ge:
  fixes g :: "'a \<Rightarrow> int"
  shows "a \<in> set as \<Longrightarrow> g a \<le> fold (\<lambda>a m. max m (g a)) as m"
  by (induction as arbitrary: m) (auto intro: order_trans [OF max.cobounded2 fold_max_ge_init])

lemma fold_max_le:
  fixes g :: "'a \<Rightarrow> int"
  shows "m \<le> b \<Longrightarrow> (\<And>a. a \<in> set as \<Longrightarrow> g a \<le> b) \<Longrightarrow> fold (\<lambda>a m. max m (g a)) as m \<le> b"
  by (induction as arbitrary: m) auto

lemma cfg_inv_tidy:
  assumes inv: "cfg_inv s fs" and heap: "\<And>a. heap s' a = map_option tidy (heap s a)"
    and "head s' = head s" and "done_ptr s' = done_ptr s" and "io s' = io s"
  shows "cfg_inv s' fs"
proof -
  note rep = cfg_invD(1) [OF inv]
  have al: "\<And>f a. f \<in> set fs \<Longrightarrow> a \<in> set f \<Longrightarrow> heap s a \<noteq> None" using flows_rep_allocD [OF rep] .
  have sh: "same_shape s s'" by (simp add: same_shape_def heap option.map_comp comp_def)
  have "dom (heap s') = dom (heap s)" by (auto simp: heap dom_def)
  then have "flows_rep s' fs []"
    using rep assms(3,4) by (simp add: flows_rep_def same_shape_chain [OF sh])
  moreover have b: "blk s' a = tidy (blk s a)" if "f \<in> set fs" "a \<in> set f" for f a
    using al [OF that] heap by (auto simp: option.map_sel)
  moreover have "flow_ids s' fs = flow_ids s fs"
    using b flows_repD(2) [OF rep] by (auto simp: flow_ids_def tidy_def)
  moreover have "slots_ok (map (blk s') f)" if f: "f \<in> set fs" for f
    using slots_ok_cong [of "map (blk s') f" "map (blk s) f"] cfg_invD(4) [OF inv f] b [OF f] by simp
  ultimately show ?thesis
    using inv assms(5) by (auto simp: cfg_inv_def block_ok_tidy)
qed

section \<open>read_cfg\<close>

lemma cfg_inv_ready:
  assumes "cfg_inv s fs" and "f \<in> set fs"
  shows "ready s f"
  unfolding ready_def
proof
  fix a assume a: "a \<in> set f"
  obtain c where "heap s a = Some c" using flows_rep_alloc [OF cfg_invD(1) [OF assms(1)] assms(2) a] .
  moreover have "block_ok (blk s a)" using cfg_invD(3) [OF assms a] .
  ultimately show "\<exists>c. heap s a = Some c \<and> params c \<noteq> P_zero"
    by (cases "params (blk s a)") (auto simp: block_ok_def)
qed

text \<open>What the final pass leaves behind, relative to the table it started from.\<close>

lemma finish_loop_inv:
  assumes inv: "cfg_inv s fs"
  obtains s' where
    "finish_loop (head s) (head s) e s =
       Some (e - int (length (filter (\<lambda>a. open_block (blk s a)) (concat fs))), s')"
    and "cfg_inv s' fs" and "tester_start s' = tester_start s"
    and "\<And>a. heap s' a = map_option tidy (heap s a)"
    and "max_packet_size s' = fold (\<lambda>a m. max m (block_size (blk s a))) (concat fs) (max_packet_size s)"
proof -
  note rep = cfg_invD(1) [OF inv]
  have rd: "ready s (concat fs)" using cfg_inv_ready [OF inv] by (auto simp: ready_def)
  have "finish_loop (head s) (head s) e s = Some (finish_blocks (concat fs) e s)"
    using flows_repD(2,3) [OF rep] cfg_inv_ready [OF inv]
    by (intro finish_loop_flows [OF flows_repD(1) [OF rep]]) auto
  moreover note finish_blocks_effect [OF rd, of e]
  moreover have d: "distinct (concat fs)" using flows_repD(5) [OF rep] by simp
  moreover have "(\<lambda>a. if a \<in> set (concat fs) then map_option tidy (heap s a) else heap s a) =
      (\<lambda>a. map_option tidy (heap s a))"
  proof
    fix x
    show "(if x \<in> set (concat fs) then map_option tidy (heap s x) else heap s x) = map_option tidy (heap s x)"
    proof (cases "x \<in> dom (heap s)")
      case True
      then show ?thesis using flows_repD(6) [OF rep] by simp
    qed (simp add: domIff)
  qed
  ultimately show ?thesis
    using that cfg_inv_tidy [OF inv] by simp
qed

definition complete :: "rude \<Rightarrow> addr list list \<Rightarrow> bool" where
  "complete s fs \<longleftrightarrow>
     (\<forall>f \<in> set fs. \<forall>a \<in> set f. \<not> open_block (blk s a) \<and> block_size (blk s a) \<le> max_packet_size s \<and>
        (silent (blk s a) \<longrightarrow> flow_stop (blk s a) < next_tx (blk s a)))"

lemma read_cfg_result:
  assumes env: "env_ok env"
  shows "\<exists>n s' fs. read_cfg env infile init_state = Some (n, s') \<and> cfg_inv s' fs \<and>
    max_packet_size s' \<le> PMAXSIZE \<and> (0 \<le> n \<longrightarrow> complete s' fs)"
proof -
  let ?r0 = "\<lparr>rs = init_state, nerrors = 0, commands = 0, start_set = False\<rparr>"
  have "reader_inv ?r0 []" by (simp add: reader_inv_def cfg_inv_init)
  from read_lines_ok [OF this env, of "fgets_lines 1022 infile"] obtain r fs where
    r: "read_lines env (fgets_lines 1022 infile) ?r0 = Some r" "reader_inv r fs" "max_packet_size (rs r) = 0"
    by (auto simp: step_ok_def init_state_def)
  then have inv: "cfg_inv (rs r) fs" and e: "nerrors r \<le> 0" "0 \<le> commands r" by (auto simp: reader_inv_def)
  let ?k = "int (length (filter (\<lambda>a. open_block (blk (rs r) a)) (concat fs)))"
  obtain s' where f: "finish_loop (head (rs r)) (head (rs r)) (nerrors r) (rs r) = Some (nerrors r - ?k, s')"
    and inv': "cfg_inv s' fs" and heap: "\<And>a. heap s' a = map_option tidy (heap (rs r) a)"
    and m: "max_packet_size s' = fold (\<lambda>a m. max m (block_size (blk (rs r) a))) (concat fs) (max_packet_size (rs r))"
    using finish_loop_inv [OF inv] by metis
  let ?n = "if nerrors r - ?k \<noteq> 0 then nerrors r - ?k else commands r"
  have eq: "read_cfg env infile init_state = Some (?n, s')"
    using r f by (simp add: read_cfg_def)
  have al: "\<exists>c. heap (rs r) a = Some c" if "f \<in> set fs" "a \<in> set f" for f a
    using flows_rep_allocD [OF cfg_invD(1) [OF inv] that] by auto
  have b: "blk s' a = tidy (blk (rs r) a)" if "f \<in> set fs" "a \<in> set f" for f a
    using al [OF that] heap by (auto simp: option.map_sel)
  have size: "block_size (blk (rs r) a) \<le> PMAXSIZE" if "f \<in> set fs" "a \<in> set f" for f a
    using cfg_invD(3) [OF inv that] by (cases "params (blk (rs r) a)") (auto simp: block_ok_def block_size_def)
  have "max_packet_size s' \<le> PMAXSIZE"
    unfolding m using r(3) size by (intro fold_max_le) (auto simp: PMAXSIZE_def)
  moreover have "\<not> open_block (blk s' a)" if "0 \<le> ?n" "f \<in> set fs" "a \<in> set f" for f a
  proof
    assume o: "open_block (blk s' a)"
    then have "a \<in> set (filter (\<lambda>a. open_block (blk (rs r) a)) (concat fs))" using b that by auto
    then have "0 < ?k" by (metis length_pos_if_in_set of_nat_0_less_iff)
    with e that(1) show False by (simp split: if_splits)
  qed
  moreover have "block_size (blk s' a) \<le> max_packet_size s'" if "f \<in> set fs" "a \<in> set f" for f a
    unfolding m using b [OF that] that by (auto intro!: fold_max_ge)
  moreover have "flow_stop (blk s' a) < next_tx (blk s' a)" if "f \<in> set fs" "a \<in> set f" "silent (blk s' a)" for f a
    using b [OF that(1,2)] that(3) silent_next by simp
  ultimately show ?thesis
    unfolding complete_def using eq inv' by (intro exI [of _ ?n] exI [of _ s'] exI [of _ fs]) blast
qed

lemma slots_ok_closed:
  assumes "slots_ok cs" and "\<And>c. c \<in> set cs \<Longrightarrow> flow_stop c \<noteq> tv_zero"
  shows "\<forall>c \<in> set cs. flow_start c \<le> flow_stop c"
    and "sorted_wrt (\<lambda>c d. flow_stop c \<le> flow_start d) cs"
proof -
  have "(\<forall>c \<in> set cs. flow_start c \<le> flow_stop c) \<and> sorted_wrt (\<lambda>c d. flow_stop c \<le> flow_start d) cs"
    using assms
  proof (induction cs rule: slots_ok.induct)
    case (3 c d cs)
    then have IH: "\<forall>x \<in> set (d # cs). flow_start x \<le> flow_stop x"
      "sorted_wrt (\<lambda>c d. flow_stop c \<le> flow_start d) (d # cs)" by auto
    have "flow_stop c \<le> flow_start x" if "x \<in> set cs" for x
      using IH "3.prems"(1) that order_trans [of "flow_start d" "flow_stop d" "flow_start x"] by simp
    with IH "3.prems" show ?case by auto
  qed auto
  then show "\<forall>c \<in> set cs. flow_start c \<le> flow_stop c"
    and "sorted_wrt (\<lambda>c d. flow_stop c \<le> flow_start d) cs" by auto
qed

section \<open>A configuration with two commands on one flow\<close>

definition example_env :: parse_env where
  "example_env = \<lparr>gethostbyname = (\<lambda>n. if n = ''h'' then Some 16909060 else None),
     fopen = (\<lambda>_. None),
     malloc = (\<lambda>h. if h 1 = None then Some 1 else if h 2 = None then Some 2 else None),
     malloc_list = (\<lambda>_. True), timeofday = Timeval 1000 5, localtime = (10, 20, 30)\<rparr>"

definition example_cfg :: string where
  "example_cfg = concat (map (\<lambda>l. l @ [newline])
     [''START NOW'', ''1000 1 ON 3001 h:80 CBR 5 60'', ''9000 1 OFF''])"

lemma env_ok_example: "env_ok example_env"
  by (simp add: env_ok_def example_env_def normalized_def)

lemma start_offset_spec:
  assumes "0 \<le> th" "th \<le> 23" "0 \<le> tm" "tm \<le> 59" "0 \<le> ts" "ts \<le> 59"
    and "0 \<le> h" "h \<le> 23" "0 \<le> m" "m \<le> 59" "0 \<le> s" "s \<le> 59"
  shows "0 \<le> start_offset (th, tm, ts) h m s" and "start_offset (th, tm, ts) h m s < 86400"
    and "(th * 3600 + tm * 60 + ts + start_offset (th, tm, ts) h m s) mod 86400 = h * 3600 + m * 60 + s"
proof -
  let ?d = "start_offset (th, tm, ts) h m s"
  show "0 \<le> ?d" using assms by (auto simp: start_offset_def Let_def)
  have eq: "th * 3600 + tm * 60 + ts + ?d = h * 3600 + m * 60 + s \<or>
      th * 3600 + tm * 60 + ts + ?d = h * 3600 + m * 60 + s + 86400"
    by (auto simp: start_offset_def Let_def)
  show "?d < 86400" using assms by (auto simp: start_offset_def Let_def)
  show "(th * 3600 + tm * 60 + ts + ?d) mod 86400 = h * 3600 + m * 60 + s"
    using eq assms by (elim disjE) simp_all
qed

section \<open>Properties of the configuration reader\<close>

text \<open>
  C2. The configuration reader is total and memory safe: for every file content it returns (no
  access to a block that is not allocated, no walk along a list that does not end), and the flow
  table it leaves is well formed: every allocated block is on exactly one flow, flow ids are unique,
  times are normalised, packet sizes are within the bounds, and the blocks of a flow share id,
  destination and source port and follow each other without a gap.
\<close>

theorem read_cfg_total:
  assumes "env_ok env"
  shows "\<exists>n s' fs. read_cfg env infile init_state = Some (n, s') \<and> cfg_inv s' fs"
  using read_cfg_result [OF assms, of infile] by blast

theorem read_cfg_total_witness:
  "env_ok example_env \<and> (\<exists>n s' fs. read_cfg example_env example_cfg init_state = Some (n, s') \<and> cfg_inv s' fs)"
  using env_ok_example read_cfg_total [OF env_ok_example] by blast

text \<open>
  C3. A file that \<^verbatim>\<open>read_cfg\<close> accepts (its result is not negative) configures only complete
  flows: every block has a stop time, which is not before its start, the slots of a flow are ordered
  and do not overlap, no packet is larger than \<^verbatim>\<open>max_packet_size\<close>, and a block of rate 0 is due
  only after its own stop time.
\<close>

theorem read_cfg_accepted:
  assumes "env_ok env" and "read_cfg env infile init_state = Some (n, s')" and "0 \<le> n"
  shows "\<exists>fs. cfg_inv s' fs \<and> max_packet_size s' \<le> PMAXSIZE \<and>
    (\<forall>f \<in> set fs. sorted_wrt (\<lambda>c d. flow_stop c \<le> flow_start d) (map (blk s') f) \<and>
       (\<forall>c \<in> set (map (blk s') f). flow_stop c \<noteq> tv_zero \<and> flow_start c \<le> flow_stop c \<and>
          block_size c \<le> max_packet_size s' \<and> (silent c \<longrightarrow> flow_stop c < next_tx c)))"
proof -
  obtain fs where inv: "cfg_inv s' fs" and m: "max_packet_size s' \<le> PMAXSIZE"
    and b: "complete s' fs"
    using read_cfg_result [OF assms(1), of infile] assms(2,3) by auto
  have "sorted_wrt (\<lambda>c d. flow_stop c \<le> flow_start d) (map (blk s') f)"
    "\<forall>c \<in> set (map (blk s') f). flow_start c \<le> flow_stop c" if f: "f \<in> set fs" for f
    using slots_ok_closed [OF cfg_invD(4) [OF inv f]] b f by (auto simp: open_block_def complete_def)
  with inv m b show ?thesis by (intro exI [of _ fs]) (auto simp: open_block_def complete_def)
qed

theorem read_cfg_accepted_witness:
  "\<exists>s' fs. read_cfg example_env example_cfg init_state = Some (3, s') \<and> cfg_inv s' fs \<and> max_packet_size s' \<le> PMAXSIZE"
proof -
  have "map_option fst (read_cfg example_env example_cfg init_state) = Some 3" by code_simp
  then obtain s' where s': "read_cfg example_env example_cfg init_state = Some (3, s')" by auto
  from read_cfg_accepted [OF env_ok_example this] obtain fs where
    "cfg_inv s' fs" "max_packet_size s' \<le> PMAXSIZE" by auto
  with s' show ?thesis by blast
qed

text \<open>
  C6. START hh:mm:ss: \<^verbatim>\<open>start_time\<close> refuses a time of day out of range, and otherwise sets the start
  less than a day into the future, at the next instant whose local time of day is hh:mm:ss.
\<close>

theorem start_time_next_occurrence:
  assumes "localtime env = (th, tm, ts)" and "0 \<le> th" "th \<le> 23" "0 \<le> tm" "tm \<le> 59" "0 \<le> ts" "ts \<le> 59"
  shows "case start_time env h m s st of (r, st') \<Rightarrow>
    if 0 \<le> h \<and> h \<le> 23 \<and> 0 \<le> m \<and> m \<le> 59 \<and> 0 \<le> s \<and> s \<le> 59
    then r = 0 \<and> (\<exists>d. 0 \<le> d \<and> d < 86400 \<and>
      st' = st\<lparr>tester_start := Timeval (tv_sec (timeofday env) + d) (tv_usec (timeofday env))\<rparr> \<and>
      (th * 3600 + tm * 60 + ts + d) mod 86400 = h * 3600 + m * 60 + s)
    else r = -1 \<and> st' = st"
proof (cases "0 \<le> h \<and> h \<le> 23 \<and> 0 \<le> m \<and> m \<le> 59 \<and> 0 \<le> s \<and> s \<le> 59")
  case True
  from start_offset_spec [of th tm ts h m s] assms True show ?thesis
    by (auto simp: start_time_def Let_def not_less)
next
  case False
  then show ?thesis by (auto simp: start_time_def)
qed

theorem start_time_next_occurrence_witness:
  "fst (start_time example_env 10 20 0 init_state) = 0 \<and>
   (\<exists>d. 0 \<le> d \<and> d < 86400 \<and> (10 * 3600 + 20 * 60 + 30 + d) mod 86400 = (10 * 3600 + 20 * 60 :: int))"
  using start_time_next_occurrence [of example_env 10 20 30 10 20 0 init_state]
  by (auto simp: example_env_def split: prod.splits)

end
