(* ===== verification/Flow_Cntl.thy ===== *)
theory Flow_Cntl
  imports Flow_Heap
begin

text \<open>
  \<^verbatim>\<open>rude/rude/flow_cntl.c\<close>: moving finished blocks to the done list, choosing the flow that sends
  next, and freeing everything at the end. The pointer programs are related to an abstract
  scheduler on lists of blocks.
\<close>

section \<open>remove_flow\<close>

partial_function (option) seek :: "(addr \<rightharpoonup> flow_cfg) \<Rightarrow> addr \<Rightarrow> ptr \<Rightarrow> ptr \<Rightarrow> (ptr \<times> ptr) option" where
  "seek h to_remove prev flow =
     (case flow of
        None \<Rightarrow> Some (prev, NULL)
      | Some a \<Rightarrow>
          if a = to_remove then Some (prev, flow)
          else (case h a of
                  None \<Rightarrow> None
                | Some c \<Rightarrow> seek h to_remove flow (next_flow c)))"

declare seek.simps [code]

definition remove_flow :: "addr \<Rightarrow> rude \<Rightarrow> (int \<times> rude) option" where
  "remove_flow to_remove s = do {
     (prev, flow) \<leftarrow> seek (heap s) to_remove NULL (head s);
     if flow = NULL then Some (0, s)
     else do {
       c \<leftarrow> heap s to_remove;
       (flow, s1) \<leftarrow>
         (case mod_flow c of
            Some m \<Rightarrow> do {
              d \<leftarrow> heap s m;
              Some (Some m, store m (d\<lparr>next_flow := next_flow c, send_sock := send_sock c,
                                       sequence_nmbr := sequence_nmbr c\<rparr>) s)
            }
          | None \<Rightarrow>
              Some (next_flow c, store to_remove (c\<lparr>send_sock := 0\<rparr>)
                (if send_sock c > 0 then s\<lparr>closed := closed s @ [send_sock c]\<rparr> else s)));
       s2 \<leftarrow>
         (case prev of
            None \<Rightarrow> Some (s1\<lparr>head := flow\<rparr>)
          | Some p \<Rightarrow> do { d \<leftarrow> heap s1 p; Some (store p (d\<lparr>next_flow := flow\<rparr>) s1) });
       c \<leftarrow> heap s2 to_remove;
       Some (1, (store to_remove (c\<lparr>next_flow := done_ptr s2\<rparr>) s2)\<lparr>done_ptr := Some to_remove\<rparr>)
     }
   }"

section \<open>find_next\<close>

definition expired :: "timeval \<Rightarrow> flow_cfg \<Rightarrow> bool" where
  "expired now c \<longleftrightarrow> timer_less (flow_stop c) now \<or> timer_less (flow_stop c) (next_tx c)"

partial_function (option) find_next_loop :: "timeval \<Rightarrow> ptr \<Rightarrow> ptr \<Rightarrow> ptr \<Rightarrow> rude \<Rightarrow> (ptr \<times> rude) option" where
  "find_next_loop now flow prev target s =
     (case flow of
        None \<Rightarrow> Some (target, s)
      | Some a \<Rightarrow>
          (case heap s a of
             None \<Rightarrow> None
           | Some c \<Rightarrow>
               if expired now c then
                 (case remove_flow a s of
                    None \<Rightarrow> None
                  | Some (r, s') \<Rightarrow>
                      (case prev of
                         None \<Rightarrow> find_next_loop now (head s') prev target s'
                       | Some p \<Rightarrow>
                           (case heap s' p of
                              None \<Rightarrow> None
                            | Some d \<Rightarrow> find_next_loop now (next_flow d) prev target s')))
               else
                 (case target of
                    None \<Rightarrow> find_next_loop now (next_flow c) flow flow s
                  | Some t \<Rightarrow>
                      (case heap s t of
                         None \<Rightarrow> None
                       | Some d \<Rightarrow>
                           find_next_loop now (next_flow c) flow
                             (if timer_less (next_tx c) (next_tx d) then flow else target) s))))"

declare find_next_loop.simps [code]

text \<open>\<open>clock n\<close> is the \<open>n\<close>-th value \<^verbatim>\<open>gettimeofday\<close> delivers.\<close>

definition find_next :: "(nat \<Rightarrow> timeval) \<Rightarrow> rude \<Rightarrow> (ptr \<times> rude) option" where
  "find_next clock s =
     find_next_loop (clock (ticks s)) (head s) NULL NULL (s\<lparr>ticks := Suc (ticks s)\<rparr>)"

section \<open>clean_up\<close>

text \<open>The array of a TRACE block lives in the block and goes with it.\<close>

partial_function (option) clean_active :: "rude \<Rightarrow> rude option" where
  "clean_active s =
     (case head s of
        None \<Rightarrow> Some s
      | Some a \<Rightarrow>
          (case heap s a of
             None \<Rightarrow> None
           | Some c \<Rightarrow>
               (case (if send_sock c > 0
                      then (store a (c\<lparr>send_sock := 0\<rparr>) s)\<lparr>closed := closed s @ [send_sock c]\<rparr> else s) of
                  s1 \<Rightarrow>
                    (case mod_flow c of
                       Some m \<Rightarrow>
                         (case heap s1 m of
                            None \<Rightarrow> None
                          | Some d \<Rightarrow>
                              (case free_block a ((store m (d\<lparr>next_flow := next_flow c\<rparr>) s1)\<lparr>head := Some m\<rparr>) of
                                 None \<Rightarrow> None
                               | Some s2 \<Rightarrow> clean_active s2))
                     | None \<Rightarrow>
                         (case free_block a (s1\<lparr>head := next_flow c\<rparr>) of
                            None \<Rightarrow> None
                          | Some s2 \<Rightarrow> clean_active s2)))))"

declare clean_active.simps [code]

partial_function (option) clean_done :: "rude \<Rightarrow> rude option" where
  "clean_done s =
     (case done_ptr s of
        None \<Rightarrow> Some s
      | Some a \<Rightarrow>
          (case heap s a of
             None \<Rightarrow> None
           | Some c \<Rightarrow>
               (case free_block a (s\<lparr>done_ptr := next_flow c\<rparr>) of
                  None \<Rightarrow> None
                | Some s' \<Rightarrow> clean_done s')))"

declare clean_done.simps [code]

definition clean_up :: "rude \<Rightarrow> rude option" where
  "clean_up s = do { s1 \<leftarrow> clean_active s; s2 \<leftarrow> clean_done s1; Some (s2\<lparr>buffer := []\<rparr>) }"

section \<open>Chains with one link changed\<close>

lemma seek_chain:
  assumes "chain next_flow h p (as @ b # bs) NULL"
  shows "seek h b prev p = Some (if as = [] then prev else Some (last as), Some b)"
  using assms
proof (induction as arbitrary: p prev)
  case Nil
  then show ?case by (simp add: seek.simps)
next
  case (Cons a as)
  have "a \<noteq> b" using chain_hd_notin [of next_flow h p a "as @ b # bs"] Cons.prems by auto
  moreover obtain c where "p = Some a" "h a = Some c" "chain next_flow h (next_flow c) (as @ b # bs) NULL"
    using Cons.prems by (auto split: option.splits)
  ultimately show ?case using Cons.IH [of "next_flow c" "Some a"] by (simp add: seek.simps [of h b prev "Some a"])
qed

lemma chain_relink:
  assumes "chain fld h p (xs @ x # zs) NULL"
    and "\<And>a. a \<in> set xs \<Longrightarrow> map_option fld (h' a) = map_option fld (h a)"
    and "h' x = Some c" and "chain fld h' (fld c) ys NULL"
  shows "chain fld h' p (xs @ x # ys) NULL"
proof -
  from assms(1) have "chain fld h p xs (Some x)" by (auto simp: chain_append split: option.splits)
  then have "chain fld h' p xs (Some x)" using assms(2) chain_cong [of xs fld h h'] by simp
  with assms(3,4) show ?thesis by (auto simp: chain_append)
qed

section \<open>The effect of remove_flow\<close>

text \<open>A block without its place in the lists.\<close>

definition erase :: "flow_cfg \<Rightarrow> flow_cfg" where
  "erase c = c\<lparr>next_flow := NULL, mod_flow := NULL\<rparr>"

definition inherit :: "flow_cfg \<Rightarrow> flow_cfg \<Rightarrow> flow_cfg" where
  "inherit c d = d\<lparr>send_sock := send_sock c, sequence_nmbr := sequence_nmbr c\<rparr>"

text \<open>The head pointer of a list of flows.\<close>

definition first :: "addr list list \<Rightarrow> ptr" where
  "first fs = (case fs of [] \<Rightarrow> NULL | f # _ \<Rightarrow> Some (hd f))"

definition prev_of :: "addr list list \<Rightarrow> ptr" where
  "prev_of pre = (if pre = [] then NULL else Some (hd (last pre)))"

definition tails :: "addr list \<Rightarrow> addr list list" where
  "tails as = (if as = [] then [] else [as])"

definition socks :: "int \<Rightarrow> int list" where
  "socks k = (if k > 0 then [k] else [])"

lemma chain_first: "chain next_flow h p (map hd fs) NULL \<Longrightarrow> p = first fs"
  by (cases fs) (auto simp: first_def split: option.splits)

text \<open>
  The heap after removing block \<open>a\<close>, the first of flow \<open>a # as\<close>: \<open>a\<close> is linked to the done list,
  its successor inherits the place, the socket and the sequence number, the previous flow is relinked.
\<close>

definition removed_heap :: "rude \<Rightarrow> addr list list \<Rightarrow> addr \<Rightarrow> addr list \<Rightarrow> (addr \<rightharpoonup> flow_cfg)" where
  "removed_heap s pre a as = (\<lambda>x.
     if x = a then Some ((if as = [] then (blk s a)\<lparr>send_sock := 0\<rparr> else blk s a)\<lparr>next_flow := done_ptr s\<rparr>)
     else if as \<noteq> [] \<and> x = hd as then Some ((inherit (blk s a) (blk s x))\<lparr>next_flow := next_flow (blk s a)\<rparr>)
     else if prev_of pre = Some x
     then Some ((blk s x)\<lparr>next_flow := (if as = [] then next_flow (blk s a) else Some (hd as))\<rparr>)
     else heap s x)"

definition removed :: "rude \<Rightarrow> addr list list \<Rightarrow> addr \<Rightarrow> addr list \<Rightarrow> rude" where
  "removed s pre a as = s\<lparr>heap := removed_heap s pre a as, done_ptr := Some a,
     head := (if pre = [] then (if as = [] then next_flow (blk s a) else Some (hd as)) else head s),
     closed := closed s @ (if as = [] then socks (send_sock (blk s a)) else [])\<rparr>"

lemma flow_tail:
  assumes "flows_rep s (pre @ (a # as) # post) dn"
  shows "mod_flow (blk s a) = (if as = [] then NULL else Some (hd as))"
    and "chain mod_flow (heap s) (mod_flow (blk s a)) as NULL"
proof -
  have ch: "chain mod_flow (heap s) (Some a) (a # as) NULL" using flows_repD(3) [OF assms, of "a # as"] by simp
  then show "chain mod_flow (heap s) (mod_flow (blk s a)) as NULL" by (auto split: option.splits)
  then show "mod_flow (blk s a) = (if as = [] then NULL else Some (hd as))"
    by (cases as) (auto split: option.splits)
qed

lemma prev_in:
  assumes "flows_rep s (pre @ fs) dn" and "prev_of pre = Some x"
  shows "x \<in> set (concat pre)"
proof -
  from assms(2) have l: "last pre \<in> set pre" "x = hd (last pre)" by (auto simp: prev_of_def split: if_splits)
  then have "x \<in> set (last pre)" using flows_repD(2) [OF assms(1), of "last pre"] by simp
  with l(1) show ?thesis by auto
qed

lemma remove_flow_eq:
  assumes rep: "flows_rep s (pre @ (a # as) # post) dn"
  shows "remove_flow a s = Some (1, removed s pre a as)"
proof -
  let ?fs = "pre @ (a # as) # post"
  obtain c where c: "heap s a = Some c" using flows_rep_alloc [OF rep, of "a # as" a] by auto
  have "chain next_flow (heap s) (head s) (map hd pre @ a # map hd post) NULL"
    using flows_repD(1) [OF rep] by simp
  from seek_chain [OF this, of NULL] have seek: "seek (heap s) a NULL (head s) = Some (prev_of pre, Some a)"
    by (simp add: prev_of_def last_map)
  have m: "mod_flow c = (if as = [] then NULL else Some (hd as))" using flow_tail(1) [OF rep] c by simp
  have dist: "distinct (concat ?fs)" using flows_repD(5) [OF rep] by (simp only: distinct_append)
  have as: "\<exists>d. heap s (hd as) = Some d \<and> hd as \<noteq> a" if "as \<noteq> []"
    using flows_rep_allocD [OF rep, of "a # as" "hd as"] that dist by (cases as) auto
  have pre: "\<exists>d. heap s p = Some d \<and> p \<noteq> a \<and> (as \<noteq> [] \<longrightarrow> p \<noteq> hd as)" if "prev_of pre = Some p" for p
  proof -
    have p: "p \<in> set (concat pre)" using prev_in [OF rep that] .
    with dist have "p \<notin> set (a # as)" by auto
    with p show ?thesis using flows_rep_allocD [OF rep, of _ p] by (cases as) auto
  qed
  show ?thesis
  proof (cases "prev_of pre")
    case None
    then have "pre = []" by (simp add: prev_of_def split: if_splits)
    then show ?thesis
      using None seek c m as
      by (cases "as = []") (auto simp: remove_flow_def removed_def removed_heap_def store_def inherit_def socks_def
          prev_of_def fun_eq_iff)
  next
    case (Some p)
    then have "pre \<noteq> []" by (auto simp: prev_of_def)
    then show ?thesis
      using Some seek c m as pre [OF Some]
      by (cases "as = []") (auto simp: remove_flow_def removed_def removed_heap_def store_def inherit_def socks_def
          fun_eq_iff)
  qed
qed

lemma removed_heap_other:
  "x \<noteq> a \<Longrightarrow> x \<notin> set as \<Longrightarrow> prev_of pre \<noteq> Some x \<Longrightarrow> removed_heap s pre a as x = heap s x"
  by (auto simp: removed_heap_def)

lemma removed_heap_self:
  "removed_heap s pre a as a =
     Some ((if as = [] then (blk s a)\<lparr>send_sock := 0\<rparr> else blk s a)\<lparr>next_flow := done_ptr s\<rparr>)"
  by (simp add: removed_heap_def)

lemma removed_heap_succ:
  "as \<noteq> [] \<Longrightarrow> hd as \<noteq> a \<Longrightarrow> removed_heap s pre a as (hd as) =
     Some ((inherit (blk s a) (blk s (hd as)))\<lparr>next_flow := next_flow (blk s a)\<rparr>)"
  by (simp add: removed_heap_def)

lemma removed_heap_prev:
  "prev_of pre = Some x \<Longrightarrow> x \<noteq> a \<Longrightarrow> x \<notin> set as \<Longrightarrow> removed_heap s pre a as x =
     Some ((blk s x)\<lparr>next_flow := (if as = [] then next_flow (blk s a) else Some (hd as))\<rparr>)"
  by (auto simp: removed_heap_def)

lemma removed_heap_links:
  assumes rep: "flows_rep s (pre @ (a # as) # post) dn"
  shows "map_option mod_flow (removed_heap s pre a as x) = map_option mod_flow (heap s x)"
    and "dom (removed_heap s pre a as) = dom (heap s)"
proof -
  have al: "heap s a \<noteq> None" "as \<noteq> [] \<Longrightarrow> heap s (hd as) \<noteq> None"
    using flows_rep_allocD [OF rep, of "a # as"] by auto
  have pre: "heap s p \<noteq> None" if "prev_of pre = Some p" for p
    using prev_in [OF rep that] flows_rep_allocD [OF rep] by auto
  show "map_option mod_flow (removed_heap s pre a as x) = map_option mod_flow (heap s x)"
    using al pre by (auto simp: removed_heap_def inherit_def)
  show "dom (removed_heap s pre a as) = dom (heap s)"
    using al pre by (auto simp: removed_heap_def split: if_splits)
qed

lemma removed_rest:
  assumes rep: "flows_rep s (pre @ (a # as) # post) dn"
  shows "chain next_flow (removed_heap s pre a as)
    (if as = [] then next_flow (blk s a) else Some (hd as)) (map hd (tails as @ post)) NULL"
proof -
  let ?h = "removed_heap s pre a as"
  have dist: "distinct (concat (pre @ (a # as) # post))" using flows_repD(5) [OF rep] by (simp only: distinct_append)
  have "\<exists>r. chain next_flow (heap s) r (a # map hd post) NULL"
    using flows_repD(1) [OF rep] by (auto simp: chain_append simp del: chain.simps)
  then have post: "chain next_flow (heap s) (next_flow (blk s a)) (map hd post) NULL"
    by (auto split: option.splits)
  have "?h x = heap s x" if "x \<in> set (map hd post)" for x
  proof (rule removed_heap_other)
    from that obtain f where f: "f \<in> set post" "x = hd f" by auto
    then have "x \<in> set f" using flows_repD(2) [OF rep, of f] by simp
    with f have x: "x \<in> set (concat post)" by auto
    with dist show "x \<noteq> a" "x \<notin> set as" by auto
    show "prev_of pre \<noteq> Some x"
      using prev_in [OF rep] x dist by auto
  qed
  then have "chain next_flow ?h (next_flow (blk s a)) (map hd post) NULL"
    using post chain_cong [of "map hd post" next_flow ?h "heap s"] by simp
  moreover have "hd as \<noteq> a" if "as \<noteq> []" using dist that by (cases as) auto
  ultimately show ?thesis by (auto simp: tails_def removed_heap_succ)
qed

lemma removed_rep:
  assumes rep: "flows_rep s (pre @ (a # as) # post) dn"
  shows "flows_rep (removed s pre a as) (pre @ tails as @ post) (a # dn)"
proof -
  let ?h = "removed_heap s pre a as"
  have dist: "distinct (concat (pre @ (a # as) # post) @ dn)" using flows_repD(5) [OF rep] .
  have ne: "f \<noteq> []" if "f \<in> set (pre @ tails as @ post)" for f
    using flows_repD(2) [OF rep] that by (auto simp: tails_def split: if_splits)
  have "chain next_flow ?h (head (removed s pre a as)) (map hd (pre @ tails as @ post)) NULL"
  proof (cases pre rule: rev_cases)
    case Nil
    then show ?thesis using removed_rest [OF rep] by (simp add: removed_def)
  next
    case (snoc pre0 q)
    have q: "q \<noteq> []" using flows_repD(2) [OF rep, of q] snoc by simp
    have p: "prev_of pre = Some (hd q)" using snoc by (simp add: prev_of_def)
    have hq: "hd q \<in> set q" using q by simp
    have hq': "?h (hd q) = Some ((blk s (hd q))\<lparr>next_flow := (if as = [] then next_flow (blk s a) else Some (hd as))\<rparr>)"
      using dist snoc hq by (intro removed_heap_prev [OF p]) auto
    have same: "?h x = heap s x" if "x \<in> set (map hd pre0)" for x
    proof (rule removed_heap_other)
      from that obtain f where f: "f \<in> set pre0" "x = hd f" by auto
      then have "x \<in> set f" using flows_repD(2) [OF rep, of f] snoc by simp
      with f have "x \<in> set (concat pre0)" by auto
      with dist snoc p hq show "x \<noteq> a" "x \<notin> set as" "prev_of pre \<noteq> Some x" by auto
    qed
    have ch: "chain next_flow (heap s) (head s) (map hd pre0 @ hd q # map hd ((a # as) # post)) NULL"
      using flows_repD(1) [OF rep] snoc by simp
    have "chain next_flow ?h (head s) (map hd pre0 @ hd q # map hd (tails as @ post)) NULL"
      by (rule chain_relink [where h' = ?h and x = "hd q", OF ch _ hq']) (use same removed_rest [OF rep] in \<open>simp_all del: map_append\<close>)
    then show ?thesis using snoc by (simp add: removed_def)
  qed
  moreover have "chain mod_flow ?h (Some (hd f)) f NULL" if f: "f \<in> set (pre @ tails as @ post)" for f
  proof -
    have "chain mod_flow (heap s) (Some (hd f)) f NULL"
    proof (cases "f \<in> set pre \<union> set post")
      case True
      then show ?thesis using flows_repD(3) [OF rep, of f] by auto
    next
      case False
      then have "f = as" "as \<noteq> []" using f by (auto simp: tails_def split: if_splits)
      then show ?thesis using flow_tail [OF rep] by simp
    qed
    moreover have "chain mod_flow ?h (Some (hd f)) f NULL = chain mod_flow (heap s) (Some (hd f)) f NULL"
      by (intro chain_cong removed_heap_links [OF rep])
    ultimately show ?thesis by simp
  qed
  moreover have "chain next_flow ?h (Some a) (a # dn) NULL"
  proof -
    have "?h x = heap s x" if "x \<in> set dn" for x
    proof (rule removed_heap_other)
      show "x \<noteq> a" "x \<notin> set as" using that dist by auto
      show "prev_of pre \<noteq> Some x"
        using prev_in [OF rep] that dist by auto
    qed
    then have "chain next_flow ?h (done_ptr s) dn NULL"
      using flows_repD(4) [OF rep] chain_cong [of dn next_flow ?h "heap s"] by simp
    then show ?thesis by (simp add: removed_heap_self)
  qed
  moreover have "distinct (concat (pre @ tails as @ post) @ a # dn)"
    using dist by (auto simp: tails_def)
  moreover have "dom ?h = set (concat (pre @ tails as @ post) @ a # dn)"
    using flows_repD(6) [OF rep] removed_heap_links(2) [OF rep] by (auto simp: tails_def)
  ultimately show ?thesis using ne by (simp add: flows_rep_def removed_def)
qed

section \<open>The abstract scheduler\<close>

text \<open>
  A flow is the list of its blocks, the first one active. \<open>drain now\<close> drops the blocks that are over at
  time \<open>now\<close> and gives what is left, the dropped blocks in order, and the sockets closed: the socket
  goes with the last block of the flow.
\<close>

fun drain :: "timeval \<Rightarrow> flow_cfg list \<Rightarrow> flow_cfg list \<times> flow_cfg list \<times> int list" where
  "drain now [] = ([], [], [])"
| "drain now [b] = (if expired now b then ([], [b\<lparr>send_sock := 0\<rparr>], socks (send_sock b)) else ([b], [], []))"
| "drain now (b # d # ds) =
     (if expired now b then (case drain now (inherit b d # ds) of (r, f, k) \<Rightarrow> (r, b # f, k))
      else (b # d # ds, [], []))"

text \<open>The first of the flows whose next transmission time is least.\<close>

definition first_min :: "('a \<Rightarrow> timeval) \<Rightarrow> 'a option \<Rightarrow> 'a list \<Rightarrow> 'a option" where
  "first_min key t as =
     fold (\<lambda>a t. case t of None \<Rightarrow> Some a | Some b \<Rightarrow> if key a < key b then Some a else t) as t"

definition view :: "rude \<Rightarrow> addr list \<Rightarrow> flow_cfg list" where
  "view s as = map (\<lambda>a. erase (blk s a)) as"

lemma view_simps [simp]: "view s [] = []" "view s (a # as) = erase (blk s a) # view s as"
  "view s (as @ bs) = view s as @ view s bs" "view s as = [] \<longleftrightarrow> as = []"
  by (simp_all add: view_def)

lemma view_cong: "(\<And>a. a \<in> set as \<Longrightarrow> erase (blk s a) = erase (blk s' a)) \<Longrightarrow> view s as = view s' as"
  by (simp add: view_def)

lemma erase_sel [simp]:
  "flow_stop (erase c) = flow_stop c" "next_tx (erase c) = next_tx c" "send_sock (erase c) = send_sock c"
  "sequence_nmbr (erase c) = sequence_nmbr c" "expired now (erase c) = expired now c"
  "erase (c\<lparr>next_flow := p\<rparr>) = erase c" "erase (c\<lparr>mod_flow := p\<rparr>) = erase c"
  "erase (inherit b c) = inherit (erase b) (erase c)" "erase (c\<lparr>send_sock := k\<rparr>) = (erase c)\<lparr>send_sock := k\<rparr>"
  by (simp_all add: erase_def expired_def inherit_def)

lemma erase_next_tx: "erase c = erase d \<Longrightarrow> next_tx c = next_tx d"
  by (metis erase_sel(2))

lemma removed_view:
  assumes rep: "flows_rep s (pre @ (a # as) # post) dn"
  shows "x \<noteq> a \<Longrightarrow> (as \<noteq> [] \<Longrightarrow> x \<noteq> hd as) \<Longrightarrow> erase (blk (removed s pre a as) x) = erase (blk s x)"
    and "erase (blk (removed s pre a as) a) =
      (if as = [] then (erase (blk s a))\<lparr>send_sock := 0\<rparr> else erase (blk s a))"
    and "view (removed s pre a as) as =
      (case view s as of [] \<Rightarrow> [] | d # ds \<Rightarrow> inherit (erase (blk s a)) d # ds)"
proof -
  show x: "erase (blk (removed s pre a as) x) = erase (blk s x)" if "x \<noteq> a" "as \<noteq> [] \<Longrightarrow> x \<noteq> hd as" for x
    using that by (auto simp: removed_def removed_heap_def)
  show "erase (blk (removed s pre a as) a) =
      (if as = [] then (erase (blk s a))\<lparr>send_sock := 0\<rparr> else erase (blk s a))"
    by (simp add: removed_def removed_heap_self)
  have d: "distinct (a # as)" using chain_distinct [OF flows_repD(3) [OF rep, of "a # as"]] by simp
  show "view (removed s pre a as) as =
      (case view s as of [] \<Rightarrow> [] | d # ds \<Rightarrow> inherit (erase (blk s a)) d # ds)"
  proof (cases as)
    case (Cons m ms)
    have "view (removed s pre a as) ms = view s ms"
      by (intro view_cong x) (use d Cons in auto)
    moreover have "erase (blk (removed s pre a as) m) = inherit (erase (blk s a)) (erase (blk s m))"
      using removed_heap_succ [of as a s pre] d Cons by (simp add: removed_def)
    ultimately show ?thesis using Cons by simp
  qed simp
qed

lemma after_pre:
  assumes "flows_rep s (pre @ rest) dn"
  shows "pre = [] \<Longrightarrow> head s = first rest"
    and "prev_of pre = Some p \<Longrightarrow> \<exists>d. heap s p = Some d \<and> next_flow d = first rest"
proof -
  note ch = flows_repD(1) [OF assms]
  show "pre = [] \<Longrightarrow> head s = first rest" using chain_first ch by simp
  show "\<exists>d. heap s p = Some d \<and> next_flow d = first rest" if p: "prev_of pre = Some p"
  proof -
    from p obtain pre0 q where pre: "pre = pre0 @ [q]" "p = hd q"
      by (cases pre rule: rev_cases) (auto simp: prev_of_def)
    with ch have "\<exists>r. chain next_flow (heap s) r (p # map hd rest) NULL"
      by (auto simp: chain_append simp del: chain.simps)
    then show ?thesis using chain_first [of "heap s"] by (auto split: option.splits)
  qed
qed

section \<open>find_next refines the abstract scheduler\<close>

lemma first_min_Cons:
  "first_min key t (a # as) =
     first_min key (case t of None \<Rightarrow> Some a | Some b \<Rightarrow> if key a < key b then Some a else t) as"
  by (simp add: first_min_def)

lemma first_min_cong:
  assumes "\<And>a. a \<in> set as \<Longrightarrow> key a = key' a" and "\<And>b. t = Some b \<Longrightarrow> key b = key' b"
  shows "first_min key t as = first_min key' t as"
  using assms
proof (induction as arbitrary: t)
  case (Cons a as)
  then show ?case by (auto simp: first_min_Cons split: option.splits intro!: Cons.IH)
qed (simp add: first_min_def)

text \<open>The global variables besides the lists.\<close>

definition globals :: "rude \<Rightarrow> timeval \<times> int \<times> byte list \<times> nat \<times> datagram list \<times> int list" where
  "globals s = (tester_start s, max_packet_size s, buffer s, ticks s, sent s, opened s)"

text \<open>
  What a run of the loop over the flows \<open>rest\<close> does: \<open>rest'\<close> are the flows left of them, \<open>fin\<close> the
  blocks moved to the done list.
\<close>

definition scheduled :: "timeval \<Rightarrow> rude \<Rightarrow> addr list list \<Rightarrow> addr list list \<Rightarrow> addr list \<Rightarrow> ptr \<Rightarrow>
    ptr \<Rightarrow> rude \<Rightarrow> addr list list \<Rightarrow> addr list \<Rightarrow> bool" where
  "scheduled now s pre rest dn target target' s' rest' fin \<longleftrightarrow>
     flows_rep s' (pre @ rest') (rev fin @ dn) \<and>
     map (view s') rest' = filter (\<lambda>f. f \<noteq> []) (map (\<lambda>f. fst (drain now (view s f))) rest) \<and>
     view s' fin = concat (map (\<lambda>f. fst (snd (drain now (view s f)))) rest) \<and>
     (\<forall>x \<in> set (concat pre @ dn). erase (blk s' x) = erase (blk s x)) \<and>
     target' = first_min (\<lambda>a. next_tx (blk s' a)) target (map hd rest') \<and>
     closed s' = closed s @ concat (map (\<lambda>f. snd (snd (drain now (view s f)))) rest) \<and>
     globals s' = globals s \<and> dom (heap s') = dom (heap s)"

lemma drain_first:
  "expired now c \<Longrightarrow> drain now (c # cs) =
     (case cs of
        [] \<Rightarrow> ([], [c\<lparr>send_sock := 0\<rparr>], socks (send_sock c))
      | d # ds \<Rightarrow> (case drain now (inherit c d # ds) of (r, f, k) \<Rightarrow> (r, c # f, k)))"
  "\<not> expired now c \<Longrightarrow> drain now (c # cs) = (c # cs, [], [])"
  by (cases cs; simp)+

lemma scheduled_removed:
  assumes rep: "flows_rep s (pre @ (a # as) # post) dn" and ex: "expired now (blk s a)"
    and sch: "scheduled now (removed s pre a as) pre (tails as @ post) (a # dn) target target' s' rest' fin"
  shows "scheduled now s pre ((a # as) # post) dn target target' s' rest' (a # fin)"
proof -
  let ?r = "removed s pre a as"
  have dist: "distinct (concat (pre @ (a # as) # post) @ dn)" using flows_repD(5) [OF rep] .
  have other: "erase (blk ?r x) = erase (blk s x)" if "x \<in> set (concat pre @ concat post @ dn)" for x
    using that dist by (intro removed_view(1) [OF rep]) (cases as; auto)+
  have post: "view ?r f = view s f" if "f \<in> set post" for f
    using that by (intro view_cong other) auto
  have a: "erase (blk s' a) = erase (blk ?r a)" using sch by (simp add: scheduled_def)
  have dr: "drain now (view s (a # as)) =
      (case drain now (view ?r as) of (r, f, k) \<Rightarrow>
         (r, erase (blk s' a) # f, (if as = [] then socks (send_sock (blk s a)) else []) @ k))"
    using ex a removed_view(2,3) [OF rep] by (cases as) (auto simp: drain_first split: prod.split)
  have cl: "closed ?r = closed s @ (if as = [] then socks (send_sock (blk s a)) else [])"
    by (simp add: removed_def)
  obtain r f k where rfk: "drain now (view ?r as) = (r, f, k)" by (cases "drain now (view ?r as)")
  have "map (\<lambda>f. drain now (view ?r f)) (tails as @ post) =
      (if as = [] then [] else [(r, f, k)]) @ map (\<lambda>f. drain now (view s f)) post"
    using post rfk by (simp add: tails_def)
  from this [THEN arg_cong, of "map fst"] this [THEN arg_cong, of "map (\<lambda>x. fst (snd x))"]
    this [THEN arg_cong, of "map (\<lambda>x. snd (snd x))"]
  have maps:
    "map (\<lambda>f. fst (drain now (view ?r f))) (tails as @ post) =
      (if as = [] then [] else [r]) @ map (\<lambda>f. fst (drain now (view s f))) post"
    "map (\<lambda>f. fst (snd (drain now (view ?r f)))) (tails as @ post) =
      (if as = [] then [] else [f]) @ map (\<lambda>f. fst (snd (drain now (view s f)))) post"
    "map (\<lambda>f. snd (snd (drain now (view ?r f)))) (tails as @ post) =
      (if as = [] then [] else [k]) @ map (\<lambda>f. snd (snd (drain now (view s f)))) post"
    by (simp_all add: comp_def if_distrib cong: if_cong)
  have nil: "as = [] \<Longrightarrow> r = [] \<and> f = [] \<and> k = []" using rfk by simp
  note sch' = sch [unfolded scheduled_def maps]
  note dr' = dr [unfolded rfk, simplified]
  show ?thesis
    unfolding scheduled_def
  proof (intro conjI)
    show "flows_rep s' (pre @ rest') (rev (a # fin) @ dn)" using sch' by simp
    show "map (view s') rest' =
        filter (\<lambda>f. f \<noteq> []) (map (\<lambda>f. fst (drain now (view s f))) ((a # as) # post))"
      using sch' dr' nil by (auto split: if_splits)
    show "view s' (a # fin) = concat (map (\<lambda>f. fst (snd (drain now (view s f)))) ((a # as) # post))"
      using sch' dr' nil by (auto split: if_splits)
    show "\<forall>x \<in> set (concat pre @ dn). erase (blk s' x) = erase (blk s x)"
      using sch' other by auto
    show "target' = first_min (\<lambda>a. next_tx (blk s' a)) target (map hd rest')" using sch' by simp
    show "closed s' = closed s @ concat (map (\<lambda>f. snd (snd (drain now (view s f)))) ((a # as) # post))"
      using sch' dr' nil cl by (auto split: if_splits)
    show "globals s' = globals s" using sch' by (simp add: globals_def removed_def)
    show "dom (heap s') = dom (heap s)"
      using sch' removed_heap_links(2) [OF rep] by (simp add: removed_def)
  qed
qed

lemma scheduled_kept:
  assumes rep: "flows_rep s (pre @ (a # as) # post) dn" and ex: "\<not> expired now (blk s a)"
    and target: "\<And>t. target = Some t \<Longrightarrow> t \<in> set (concat pre)"
    and sch: "scheduled now s (pre @ [a # as]) post dn
      (case target of None \<Rightarrow> Some a | Some t \<Rightarrow> if next_tx (blk s a) < next_tx (blk s t) then Some a else target)
      target' s' rest' fin"
  shows "scheduled now s pre ((a # as) # post) dn target target' s' ((a # as) # rest') fin"
proof -
  have fr: "erase (blk s' x) = erase (blk s x)" if "x \<in> set (concat (pre @ [a # as]) @ dn)" for x
    using sch that unfolding scheduled_def by blast
  have v: "view s' (a # as) = view s (a # as)" by (intro view_cong fr) auto
  have dr: "drain now (view s (a # as)) = (view s (a # as), [], [])" using ex by (simp add: drain_first)
  have na: "next_tx (blk s' a) = next_tx (blk s a)" by (intro erase_next_tx fr) simp
  have nt: "next_tx (blk s' t) = next_tx (blk s t)" if "target = Some t" for t
    using target [OF that] by (intro erase_next_tx fr) simp
  have "target' = first_min (\<lambda>a. next_tx (blk s' a)) target (map hd ((a # as) # rest'))"
    using sch na nt by (cases target) (simp_all add: scheduled_def first_min_Cons)
  moreover have "\<forall>x \<in> set (concat pre @ dn). erase (blk s' x) = erase (blk s x)" using fr by auto
  ultimately show ?thesis using sch v dr by (simp add: scheduled_def)
qed

lemma find_next_loop_scheduled:
  assumes "flows_rep s (pre @ rest) dn" and "\<And>t. target = Some t \<Longrightarrow> t \<in> set (concat pre)"
  shows "\<exists>target' s' rest' fin. find_next_loop now (first rest) (prev_of pre) target s = Some (target', s') \<and>
    scheduled now s pre rest dn target target' s' rest' fin"
  using assms
proof (induction "length (concat rest)" arbitrary: s pre rest dn target rule: less_induct)
  case less
  note rep = less.prems(1)
  show ?case
  proof (cases rest)
    case Nil
    with less.prems show ?thesis
      by (auto simp: find_next_loop.simps [of now NULL] first_def scheduled_def first_min_def)
  next
    case (Cons f post)
    then obtain a as where f: "f = a # as" using flows_repD(2) [OF rep, of f] by (cases f) auto
    note rep' = rep [unfolded Cons f]
    obtain c where c: "heap s a = Some c" using flows_rep_alloc [OF rep', of "a # as" a] by auto
    have first: "first rest = Some a" using Cons f by (simp add: first_def)
    show ?thesis
    proof (cases "expired now c")
      case True
      let ?r = "removed s pre a as"
      have len: "length (concat (tails as @ post)) < length (concat rest)" using Cons f by (simp add: tails_def)
      obtain target' s' rest' fin where
        IH: "find_next_loop now (first (tails as @ post)) (prev_of pre) target ?r = Some (target', s')"
          "scheduled now ?r pre (tails as @ post) (a # dn) target target' s' rest' fin"
        using less.hyps [OF len removed_rep [OF rep'] less.prems(2)] by blast
      have "find_next_loop now (first rest) (prev_of pre) target s = Some (target', s')"
        using IH(1) c True first remove_flow_eq [OF rep'] after_pre [OF removed_rep [OF rep']]
        by (cases "prev_of pre") (auto simp: find_next_loop.simps [of now "Some a"] prev_of_def split: if_splits)
      moreover have "scheduled now s pre rest dn target target' s' rest' (a # fin)"
        using scheduled_removed [OF rep' _ IH(2)] True c Cons f by simp
      ultimately show ?thesis by blast
    next
      case False
      let ?t = "case target of None \<Rightarrow> Some a
        | Some t \<Rightarrow> if next_tx (blk s a) < next_tx (blk s t) then Some a else target"
      have len: "length (concat post) < length (concat rest)" using Cons f by simp
      have rep2: "flows_rep s ((pre @ [a # as]) @ post) dn" using rep' by simp
      have "\<And>t. ?t = Some t \<Longrightarrow> t \<in> set (concat (pre @ [a # as]))"
        using less.prems(2) by (auto split: option.splits if_splits)
      from less.hyps [OF len rep2 this] obtain target' s' rest' fin where
        IH: "find_next_loop now (first post) (prev_of (pre @ [a # as])) ?t s = Some (target', s')"
          "scheduled now s (pre @ [a # as]) post dn ?t target' s' rest' fin" by blast
      have next_c: "next_flow c = first post"
        using after_pre(2) [OF rep2, of a] c by (simp add: prev_of_def)
      have tgt: "heap s t \<noteq> None" if "target = Some t" for t
        using less.prems(2) [OF that] flows_rep_allocD [OF rep'] by auto
      have "find_next_loop now (first rest) (prev_of pre) target s = Some (target', s')"
        using IH(1) c False first next_c tgt
        by (cases target) (auto simp: find_next_loop.simps [of now "Some a"] prev_of_def)
      moreover have "scheduled now s pre rest dn target target' s' ((a # as) # rest') fin"
        using scheduled_kept [OF rep' _ less.prems(2) IH(2)] False c Cons f by simp
      ultimately show ?thesis by blast
    qed
  qed
qed

section \<open>Facts about the abstract scheduler\<close>

definition earliest :: "('a \<Rightarrow> timeval) \<Rightarrow> 'a list \<Rightarrow> 'a \<Rightarrow> bool" where
  "earliest key as a \<longleftrightarrow>
     (\<exists>xs ys. as = xs @ a # ys \<and> (\<forall>x \<in> set xs. key a < key x) \<and> (\<forall>y \<in> set ys. key a \<le> key y))"

lemma earliest_Cons:
  "earliest key (b # as) a \<longleftrightarrow> a = b \<and> (\<forall>x \<in> set as. key b \<le> key x) \<or> earliest key as a \<and> key a < key b"
  (is "?l \<longleftrightarrow> ?r1 \<or> ?r2")
proof
  assume ?l
  then obtain xs ys where "b # as = xs @ a # ys" "\<forall>x \<in> set xs. key a < key x" "\<forall>y \<in> set ys. key a \<le> key y"
    unfolding earliest_def by blast
  then show "?r1 \<or> ?r2" unfolding earliest_def by (cases xs) auto
next
  have "?l" if "?r2"
  proof -
    from that obtain xs ys where "as = xs @ a # ys" "\<forall>x \<in> set xs. key a < key x" "\<forall>y \<in> set ys. key a \<le> key y"
      "key a < key b" unfolding earliest_def by blast
    then show ?thesis unfolding earliest_def by (intro exI [of _ "b # xs"] exI [of _ ys]) simp
  qed
  moreover have "?l" if "?r1"
    unfolding earliest_def using that by (intro exI [of _ "[]"] exI [of _ as]) simp
  ultimately show "?r1 \<or> ?r2 \<Longrightarrow> ?l" by blast
qed

lemma first_min_Some: "first_min key (Some b) as = Some a \<Longrightarrow> earliest key (b # as) a"
proof (induction as arbitrary: b)
  case Nil
  then show ?case by (simp add: first_min_def earliest_Cons)
next
  case (Cons c as)
  show ?case
  proof (cases "key c < key b")
    case True
    with Cons have "earliest key (c # as) a" by (simp add: first_min_Cons)
    with True show ?thesis by (auto simp: earliest_Cons)
  next
    case False
    with Cons have "earliest key (b # as) a" by (simp add: first_min_Cons)
    with False show ?thesis by (auto simp: earliest_Cons)
  qed
qed

lemma first_min_not_None: "first_min key (Some b) as \<noteq> None"
  by (induction as arbitrary: b) (simp_all add: first_min_def)

lemma first_min_earliest:
  "first_min key None as = None \<longleftrightarrow> as = []"
  "first_min key None as = Some a \<Longrightarrow> earliest key as a"
  using first_min_not_None [of key] first_min_Some [of key]
  by (cases as; simp add: first_min_Cons; simp add: first_min_def)+

lemma drain_active: "c \<in> set (take 1 (fst (drain now f))) \<Longrightarrow> \<not> expired now c"
  by (induction now f rule: drain.induct) (auto split: prod.splits if_splits)

lemma expired_inherit [simp]: "expired now (inherit b d) = expired now d"
  by (simp add: expired_def inherit_def)

lemma drain_dropWhile: "length (fst (drain now f)) = length (dropWhile (expired now) f)"
  by (induction now f rule: drain.induct) (auto split: prod.splits)

section \<open>The effect of clean_up\<close>

definition cleaned :: "rude \<Rightarrow> addr \<Rightarrow> addr list \<Rightarrow> rude" where
  "cleaned s a as = s\<lparr>heap := (\<lambda>x. if x = a then None
       else if as \<noteq> [] \<and> x = hd as then Some ((blk s x)\<lparr>next_flow := next_flow (blk s a)\<rparr>) else heap s x),
     head := (if as = [] then next_flow (blk s a) else Some (hd as)),
     closed := closed s @ socks (send_sock (blk s a))\<rparr>"

lemma clean_active_step:
  assumes rep: "flows_rep s ((a # as) # post) dn"
  shows "clean_active s = clean_active (cleaned s a as)"
proof -
  have rep': "flows_rep s ([] @ (a # as) # post) dn" using rep by simp
  obtain c where c: "heap s a = Some c" using flows_rep_alloc [OF rep, of "a # as" a] by auto
  have h: "head s = Some a" using after_pre(1) [OF rep'] by (simp add: first_def)
  have m: "mod_flow c = (if as = [] then NULL else Some (hd as))" using flow_tail(1) [OF rep'] c by simp
  have as: "\<exists>d. heap s (hd as) = Some d \<and> hd as \<noteq> a" if "as \<noteq> []"
    using flows_rep_allocD [OF rep, of "a # as" "hd as"] chain_distinct [OF flows_repD(3) [OF rep, of "a # as"]] that
    by (cases as) auto
  show ?thesis
  proof (cases "as = []")
    case True
    let ?s1 = "if send_sock c > 0 then (store a (c\<lparr>send_sock := 0\<rparr>) s)\<lparr>closed := closed s @ [send_sock c]\<rparr> else s"
    have "free_block a (?s1\<lparr>head := next_flow c\<rparr>) = Some (cleaned s a as)"
      using c True by (auto simp: free_block_def cleaned_def store_def socks_def fun_eq_iff)
    then show ?thesis using h c m True by (subst clean_active.simps) simp
  next
    case False
    then obtain d where d: "heap s (hd as) = Some d" "hd as \<noteq> a" using as by blast
    let ?s1 = "if send_sock c > 0 then (store a (c\<lparr>send_sock := 0\<rparr>) s)\<lparr>closed := closed s @ [send_sock c]\<rparr> else s"
    have "free_block a ((store (hd as) (d\<lparr>next_flow := next_flow c\<rparr>) ?s1)\<lparr>head := Some (hd as)\<rparr>) = Some (cleaned s a as)"
      using c d False by (auto simp: free_block_def cleaned_def store_def socks_def fun_eq_iff)
    then show ?thesis using h c m False d by (subst clean_active.simps) (simp split: if_splits)
  qed
qed

lemma cleaned_rep:
  assumes rep: "flows_rep s ((a # as) # post) dn"
  shows "flows_rep (cleaned s a as) (tails as @ post) dn"
proof -
  let ?r = "removed s [] a as" and ?h = "heap (cleaned s a as)"
  have rep': "flows_rep s ([] @ (a # as) # post) dn" using rep by simp
  note rr = removed_rep [OF rep', simplified]
  have dist: "distinct (concat (tails as @ post) @ a # dn)" using flows_repD(5) [OF rr] .
  have link: "map_option fld (?h x) = map_option fld (heap ?r x)"
    if "x \<noteq> a" and "fld = next_flow \<or> fld = mod_flow" for x fld
    using that by (auto simp: cleaned_def removed_def removed_heap_def inherit_def prev_of_def)
  have ch: "chain fld ?h p xs NULL = chain fld (heap ?r) p xs NULL"
    if "a \<notin> set xs" and "fld = next_flow \<or> fld = mod_flow" for p xs fld
    using that by (intro chain_cong link) auto
  have hds: "a \<notin> set (map hd (tails as @ post))"
  proof
    assume "a \<in> set (map hd (tails as @ post))"
    then obtain f where "f \<in> set (tails as @ post)" "a = hd f" by auto
    then have "a \<in> set (concat (tails as @ post))"
      using flows_repD(2) [OF rr, of f] hd_in_set [of f] unfolding set_concat by blast
    with dist show False by auto
  qed
  have "chain next_flow ?h (head (cleaned s a as)) (map hd (tails as @ post)) NULL"
    using flows_repD(1) [OF rr] ch [OF hds] by (simp add: cleaned_def removed_def)
  moreover have "chain mod_flow ?h (Some (hd f)) f NULL" if "f \<in> set (tails as @ post)" for f
    using flows_repD(3) [OF rr that] ch [of f mod_flow] dist that by auto
  moreover have "chain next_flow ?h (done_ptr (cleaned s a as)) dn NULL"
  proof -
    have "chain next_flow (heap ?r) (done_ptr s) dn NULL"
      using flows_repD(4) [OF rr] by (simp add: removed_def removed_heap_self)
    moreover have "a \<notin> set dn" using dist by auto
    ultimately show ?thesis using ch [of dn next_flow] by (simp add: cleaned_def)
  qed
  moreover have "distinct (concat (tails as @ post) @ dn)" using dist by auto
  moreover have "dom ?h = set (concat (tails as @ post) @ dn)"
  proof -
    have "dom ?h = dom (heap s) - {a}"
      using flows_rep_allocD [OF rep, of "a # as" "hd as"] by (auto simp: cleaned_def split: if_splits)
    then show ?thesis using flows_repD(6) [OF rep] dist by (auto simp: tails_def)
  qed
  ultimately show ?thesis using flows_repD(2) [OF rr] by (simp add: flows_rep_def)
qed

lemma clean_active_frees:
  "flows_rep s fs dn \<Longrightarrow> \<exists>s'. clean_active s = Some s' \<and> flows_rep s' [] dn \<and>
     closed s' = closed s @ concat (map (\<lambda>a. socks (send_sock (blk s a))) (concat fs)) \<and>
     globals s' = globals s"
proof (induction "length (concat fs)" arbitrary: s fs rule: less_induct)
  case less
  show ?case
  proof (cases fs)
    case Nil
    then have "head s = NULL" using flows_repD(1) [OF less.prems] by simp
    then show ?thesis using less.prems Nil by (simp add: clean_active.simps [of s])
  next
    case (Cons f post)
    then obtain a as where f: "f = a # as" using flows_repD(2) [OF less.prems, of f] by (cases f) auto
    note rep = less.prems [unfolded Cons f]
    let ?s = "cleaned s a as"
    have "length (concat (tails as @ post)) < length (concat fs)" using Cons f by (simp add: tails_def)
    from less.hyps [OF this cleaned_rep [OF rep]] obtain s' where s': "clean_active ?s = Some s'"
      "flows_rep s' [] dn" "globals s' = globals ?s"
      "closed s' = closed ?s @ concat (map (\<lambda>a. socks (send_sock (blk ?s a))) (concat (tails as @ post)))"
      by blast
    have "send_sock (blk ?s x) = send_sock (blk s x)" if "x \<in> set (concat (tails as @ post))" for x
      using that flows_repD(5) [OF rep] by (auto simp: cleaned_def tails_def split: if_splits)
    then have maps: "map (\<lambda>a. socks (send_sock (blk ?s a))) (concat (tails as @ post)) =
        map (\<lambda>a. socks (send_sock (blk s a))) (as @ concat post)"
      by (auto simp: tails_def)
    have cl: "closed ?s = closed s @ socks (send_sock (blk s a))" "globals ?s = globals s"
      by (simp_all add: cleaned_def globals_def)
    have "closed s' = closed s @ concat (map (\<lambda>a. socks (send_sock (blk s a))) (concat fs))"
      using s'(4) [unfolded maps] cl Cons f by simp
    then show ?thesis using s' cl clean_active_step [OF rep] by simp
  qed
qed

lemma clean_done_frees:
  assumes "chain next_flow (heap s) (done_ptr s) dn NULL" and "dom (heap s) = set dn"
  shows "clean_done s = Some (s\<lparr>heap := Map.empty, done_ptr := NULL\<rparr>)"
  using assms
proof (induction dn arbitrary: s)
  case Nil
  then show ?case by (simp add: clean_done.simps [of s])
next
  case (Cons a dn)
  then obtain c where c: "done_ptr s = Some a" "heap s a = Some c" "chain next_flow (heap s) (next_flow c) dn NULL"
    by (auto split: option.splits)
  have a: "a \<notin> set dn" using chain_hd_notin [OF Cons.prems(1)] .
  let ?s = "s\<lparr>done_ptr := next_flow c, heap := (heap s)(a := None)\<rparr>"
  have "clean_done ?s = Some (?s\<lparr>heap := Map.empty, done_ptr := NULL\<rparr>)"
  proof (rule Cons.IH)
    show "chain next_flow (heap ?s) (done_ptr ?s) dn NULL" using c a by (simp add: chain_upd_notin)
    show "dom (heap ?s) = set dn" using Cons.prems(2) a by simp
  qed
  then show ?case using c by (simp add: clean_done.simps [of s] free_block_def)
qed

lemma clean_up_spec:
  assumes "flows_rep s fs dn"
  shows "\<exists>s'. clean_up s = Some s' \<and> heap s' = Map.empty \<and> head s' = NULL \<and> done_ptr s' = NULL \<and>
    buffer s' = [] \<and> closed s' = closed s @ concat (map (\<lambda>a. socks (send_sock (blk s a))) (concat fs)) \<and>
    sent s' = sent s \<and> opened s' = opened s"
proof -
  obtain s1 where s1: "clean_active s = Some s1" "flows_rep s1 [] dn" "globals s1 = globals s"
    "closed s1 = closed s @ concat (map (\<lambda>a. socks (send_sock (blk s a))) (concat fs))"
    using clean_active_frees [OF assms] by blast
  have "head s1 = NULL" using flows_repD(1) [OF s1(2)] by simp
  moreover have "clean_done s1 = Some (s1\<lparr>heap := Map.empty, done_ptr := NULL\<rparr>)"
    using flows_repD(4,6) [OF s1(2)] by (intro clean_done_frees [of _ dn]) simp_all
  ultimately show ?thesis using s1 by (simp add: clean_up_def globals_def)
qed

lemma find_next_scheduled:
  assumes "flows_rep s fs dn"
  shows "\<exists>target s' fs' fin. find_next clock s = Some (target, s') \<and>
    scheduled (clock (ticks s)) (s\<lparr>ticks := Suc (ticks s)\<rparr>) [] fs dn NULL target s' fs' fin"
proof -
  let ?s = "s\<lparr>ticks := Suc (ticks s)\<rparr>"
  have rep: "flows_rep ?s ([] @ fs) dn" using flows_rep_frame [OF assms, of ?s] by simp
  have "head s = first fs" using chain_first flows_repD(1) [OF assms] .
  then show ?thesis
    using find_next_loop_scheduled [OF rep, of NULL "clock (ticks s)"] by (simp add: find_next_def prev_of_def)
qed

lemma view_ticks [simp]: "view (s\<lparr>ticks := n\<rparr>) as = view s as"
  by (simp add: view_def)

section \<open>Two flows, the first of two blocks\<close>

definition example_block :: "int \<Rightarrow> int \<Rightarrow> flow_cfg" where
  "example_block start stop = zero_flow\<lparr>flow_start := Timeval start 0, next_tx := Timeval start 0,
     flow_stop := Timeval stop 0, send_sock := 4, send_func := Send_cbr,
     params := P_cbr \<lparr>rate = 5, psize = 60\<rparr>\<rparr>"

definition example_flows :: rude where
  "example_flows = init_state\<lparr>head := Some 1,
     heap := [1 \<mapsto> (example_block 10 20)\<lparr>mod_flow := Some 2, next_flow := Some 3\<rparr>,
              2 \<mapsto> (example_block 20 30)\<lparr>send_sock := 0\<rparr>,
              3 \<mapsto> (example_block 40 50)\<lparr>send_sock := 5\<rparr>]\<rparr>"

lemma example_flows_rep: "flows_rep example_flows [[1, 2], [3]] []"
  by (auto simp: flows_rep_def example_flows_def example_block_def zero_flow_def init_state_def)

section \<open>Properties of the flow control\<close>

text \<open>
  C4. \<^verbatim>\<open>find_next\<close> implements the abstract scheduler. On a well-formed flow table it returns; every
  block that is over (its stop time has passed, or its next packet would be after its stop time)
  has moved from the front of its flow to the done list, the next block of the flow has taken over
  socket and sequence number, the socket of a flow without blocks left is closed, all other blocks
  are unchanged, no block is lost, and the result is the head of the first flow with the least next
  transmission time, NULL exactly if no flow is left.
\<close>

theorem find_next_refines:
  assumes "flows_rep s fs dn"
  shows "\<exists>target s' fs' fin. find_next clock s = Some (target, s') \<and> flows_rep s' fs' (rev fin @ dn) \<and>
    (let now = clock (ticks s); D = map (\<lambda>f. drain now (view s f)) fs in
       map (view s') fs' = filter (\<lambda>f. f \<noteq> []) (map fst D) \<and>
       view s' fin = concat (map (\<lambda>d. fst (snd d)) D) \<and> view s' dn = view s dn \<and>
       closed s' = closed s @ concat (map (\<lambda>d. snd (snd d)) D) \<and>
       globals s' = globals (s\<lparr>ticks := Suc (ticks s)\<rparr>) \<and>
       (target = NULL \<longleftrightarrow> fs' = []) \<and>
       (\<forall>t. target = Some t \<longrightarrow> earliest (\<lambda>a. next_tx (blk s' a)) (map hd fs') t) \<and>
       (\<forall>f \<in> set fs'. \<not> expired now (blk s' (hd f))))"
proof -
  let ?now = "clock (ticks s)" and ?s = "s\<lparr>ticks := Suc (ticks s)\<rparr>"
  obtain target s' fs' fin where "find_next clock s = Some (target, s')"
    and sch: "scheduled ?now ?s [] fs dn NULL target s' fs' fin"
    using find_next_scheduled [OF assms, of clock] by auto
  moreover have rep': "flows_rep s' fs' (rev fin @ dn)" using sch by (simp add: scheduled_def)
  moreover have "view s' dn = view s dn" using sch by (auto simp: scheduled_def intro!: view_cong)
  moreover have "\<not> expired ?now (blk s' (hd f))" if f: "f \<in> set fs'" for f
  proof -
    have ne: "f \<noteq> []" using flows_repD(2) [OF rep' f] .
    have "map (view s') fs' = filter (\<lambda>f. f \<noteq> []) (map (\<lambda>f. fst (drain ?now (view s f))) fs)"
      using sch by (simp add: scheduled_def)
    then have "view s' f \<in> set (filter (\<lambda>f. f \<noteq> []) (map (\<lambda>f. fst (drain ?now (view s f))) fs))"
      using f by (metis image_eqI list.set_map)
    then obtain g where g: "view s' f = fst (drain ?now (view s g))" by auto
    have "erase (blk s' (hd f)) \<in> set (take 1 (view s' f))" using ne by (cases f) auto
    then show ?thesis using drain_active [of "erase (blk s' (hd f))" ?now "view s g"] g by simp
  qed
  moreover have t: "target = first_min (\<lambda>a. next_tx (blk s' a)) NULL (map hd fs')"
    using sch by (simp add: scheduled_def)
  then have "target = NULL \<longleftrightarrow> fs' = []" by (simp add: first_min_earliest)
  moreover have "earliest (\<lambda>a. next_tx (blk s' a)) (map hd fs') t" if "target = Some t" for t
    by (rule first_min_earliest(2)) (use t that in simp)
  ultimately show ?thesis
    using sch by (intro exI [of _ target] exI [of _ s'] exI [of _ fs'] exI [of _ fin]) (simp add: scheduled_def Let_def comp_def)
qed

theorem find_next_refines_witness:
  "\<exists>target s' fs' fin. find_next (\<lambda>_. Timeval 25 0) example_flows = Some (target, s') \<and>
     flows_rep s' fs' (rev fin) \<and> target \<noteq> NULL \<and> length (view s' fin) = 1"
proof -
  have d: "map (\<lambda>f. drain (Timeval 25 0) (view example_flows f)) [[1, 2], [3]] =
      [([inherit (erase (blk example_flows 1)) (erase (blk example_flows 2))], [erase (blk example_flows 1)], []),
       ([erase (blk example_flows 3)], [], [])]"
    by (simp add: view_def example_flows_def example_block_def expired_def inherit_def erase_def zero_flow_def
        less_timeval_def timer_less_def del: timer_less_iff)
  have "ticks example_flows = 0" by (simp add: example_flows_def init_state_def)
  then show ?thesis
    using find_next_refines [OF example_flows_rep, of "\<lambda>_. Timeval 25 0"] d unfolding Let_def by fastforce
qed



end
