(* ===== verification/Flow_Txmit.thy ===== *)
theory Flow_Txmit
  imports Flow_Cntl
begin

text \<open>
  \<^verbatim>\<open>rude/rude/flow_txmit.c\<close>: the busy wait and the two transmission functions. \<^verbatim>\<open>data\<close> points at the
  packet buffer; a store behind the end of the buffer is undefined. The clock and the result of
  \<^verbatim>\<open>sendto\<close> are parameters; \<^verbatim>\<open>int\<close> counters wrap.
\<close>

section \<open>The header\<close>

text \<open>
  \<^verbatim>\<open>struct udp_data\<close>: five packed fields of type \<^verbatim>\<open>unsigned long\<close>, eight bytes each, stored with the
  least significant byte first. Every value the code stores has 32 bits.
\<close>

definition UL :: nat where "UL = 8"
definition off_sequence_number :: nat where "off_sequence_number = 0"
definition off_tx_time_seconds :: nat where "off_tx_time_seconds = 8"
definition off_tx_time_useconds :: nat where "off_tx_time_useconds = 16"
definition off_flow_id :: nat where "off_flow_id = 24"
definition off_dest_addr :: nat where "off_dest_addr = 32"
definition sizeof_udp_data :: nat where "sizeof_udp_data = 40"

lemmas header_layout = UL_def off_sequence_number_def off_tx_time_seconds_def off_tx_time_useconds_def
  off_flow_id_def off_dest_addr_def sizeof_udp_data_def

text \<open>The bytes of a 32 bit value in memory, and back.\<close>

definition le_bytes :: "32 word \<Rightarrow> byte list" where
  "le_bytes v = [ucast v, ucast (drop_bit 8 v), ucast (drop_bit 16 v), ucast (drop_bit 24 v)]"

definition from_le :: "byte list \<Rightarrow> 32 word" where
  "from_le bs = (case bs of
     b0 # b1 # b2 # b3 # _ \<Rightarrow>
       or (ucast b0) (or (push_bit 8 (ucast b1)) (or (push_bit 16 (ucast b2)) (push_bit 24 (ucast b3))))
   | _ \<Rightarrow> 0)"

definition put_ulong :: "nat \<Rightarrow> 32 word \<Rightarrow> byte list \<Rightarrow> byte list option" where
  "put_ulong off v buf =
     (if off + UL \<le> length buf then Some (take off buf @ le_bytes v @ [0, 0, 0, 0] @ drop (off + UL) buf)
      else None)"

definition get_ulong :: "nat \<Rightarrow> byte list \<Rightarrow> 32 word" where
  "get_ulong off buf = from_le (take 4 (drop off buf))"

section \<open>wait_for_xmit\<close>

record net_env =
  clock :: "nat \<Rightarrow> timeval"
  sendto :: "datagram list \<Rightarrow> datagram \<Rightarrow> int"

partial_function (option) wait_for_xmit :: "(nat \<Rightarrow> timeval) \<Rightarrow> timeval \<Rightarrow> rude \<Rightarrow> (timeval \<times> rude) option" where
  "wait_for_xmit clk target s =
     (if timer_less (clk (ticks s)) target then wait_for_xmit clk target (s\<lparr>ticks := Suc (ticks s)\<rparr>)
      else Some (clk (ticks s), s\<lparr>ticks := Suc (ticks s)\<rparr>))"

declare wait_for_xmit.simps [code]

section \<open>Sending\<close>

text \<open>
  The common part of both functions, from the first store into the header to \<^verbatim>\<open>sequence_nmbr++\<close>:
  fill in the header, wait, fill in the time, send \<open>sz\<close> bytes, count.
\<close>

definition xmit :: "net_env \<Rightarrow> addr \<Rightarrow> flow_cfg \<Rightarrow> int \<Rightarrow> rude \<Rightarrow> (flow_cfg \<times> rude) option" where
  "xmit env a c sz s = do {
     b1 \<leftarrow> put_ulong off_dest_addr (sin_addr (dst c)) (buffer s);
     b2 \<leftarrow> put_ulong off_flow_id (htonl (word_of_int (flow_id c))) b1;
     b3 \<leftarrow> put_ulong off_sequence_number (htonl (word_of_int (sequence_nmbr c))) b2;
     (now, s1) \<leftarrow> wait_for_xmit (clock env) (next_tx c) (s\<lparr>buffer := b3\<rparr>);
     b4 \<leftarrow> put_ulong off_tx_time_seconds (htonl (word_of_int (tv_sec now))) (buffer s1);
     b5 \<leftarrow> put_ulong off_tx_time_useconds (htonl (word_of_int (tv_usec now))) b4;
     if sz < 0 \<or> int (length b5) < sz then None
     else (let d = \<lparr>dg_sock = send_sock c, dg_bytes = take (nat sz) b5, dg_dst = dst c, dg_time = now\<rparr>;
               written = sendto env (sent s1) d;
               c1 = (if written \<noteq> sz then c\<lparr>errors := to_int (errors c + 1)\<rparr>
                     else c\<lparr>success := to_int (success c + 1)\<rparr>);
               c2 = c1\<lparr>sequence_nmbr := to_int (sequence_nmbr c1 + 1)\<rparr>
           in Some (c2, s1\<lparr>buffer := b5, sent := sent s1 @ [d]\<rparr>))
   }"

text \<open>
  \<^verbatim>\<open>tv_usec += 1000000.0/rate\<close>: the sum is computed in double precision and cut off. The result is
  exact: the quotient is at least 1/rate > 2 ^ -31 away from the next integer unless it is one, and
  the rounding error of the sum, which is below 2 ^ 21, is less than 2 ^ -32. Division by zero gives
  infinity, whose conversion is undefined.
\<close>

definition next_cbr :: "int \<Rightarrow> timeval \<Rightarrow> timeval option" where
  "next_cbr r t =
     (if r = 0 then None
      else (let usec = c_div (tv_usec t * r + 1000000) r
            in Some (if usec \<ge> 1000000 then Timeval (tv_sec t + 1) (usec - 1000000)
                     else Timeval (tv_sec t) usec)))"

definition send_cbr :: "net_env \<Rightarrow> addr \<Rightarrow> rude \<Rightarrow> rude option" where
  "send_cbr env a s = do {
     c \<leftarrow> heap s a;
     (case params c of
        P_cbr p \<Rightarrow> do {
          (c1, s1) \<leftarrow> xmit env a c (psize p) s;
          t \<leftarrow> next_cbr (rate p) (next_tx c1);
          Some (store a (c1\<lparr>next_tx := t\<rparr>) s1)
        }
      | _ \<Rightarrow> None)
   }"

definition send_trace :: "net_env \<Rightarrow> addr \<Rightarrow> rude \<Rightarrow> rude option" where
  "send_trace env a s = do {
     c \<leftarrow> heap s a;
     (case params c of
        P_trace p \<Rightarrow>
          if list_index p < length (trace_list p) then do {
            let e = trace_list p ! list_index p;
            (c1, s1) \<leftarrow> xmit env a c (te_psize e) s;
            Some (store a (c1\<lparr>next_tx := timeradd (next_tx c1) (te_wait e),
                    params := P_trace (p\<lparr>list_index := (list_index p + 1) mod list_size p\<rparr>)\<rparr>) s1)
          }
          else None
      | _ \<Rightarrow> None)
   }"

definition call_send_func :: "net_env \<Rightarrow> addr \<Rightarrow> rude \<Rightarrow> rude option" where
  "call_send_func env a s = do {
     c \<leftarrow> heap s a;
     (case send_func c of
        Send_cbr \<Rightarrow> send_cbr env a s
      | Send_trace \<Rightarrow> send_trace env a s
      | Send_null \<Rightarrow> None)
   }"

section \<open>The busy wait\<close>

lemma wait_for_xmit_at:
  assumes "ticks s \<le> n" and "\<not> clk n < target" and "\<And>i. ticks s \<le> i \<Longrightarrow> i < n \<Longrightarrow> clk i < target"
  shows "wait_for_xmit clk target s = Some (clk n, s\<lparr>ticks := Suc n\<rparr>)"
  using assms
proof (induction "n - ticks s" arbitrary: s)
  case 0
  then have "n = ticks s" by simp
  with 0 show ?case by (simp add: wait_for_xmit.simps [of clk target s])
next
  case (Suc k)
  then have "clk (ticks s) < target" by simp
  moreover have "wait_for_xmit clk target (s\<lparr>ticks := Suc (ticks s)\<rparr>) = Some (clk n, s\<lparr>ticks := Suc (ticks s), ticks := Suc n\<rparr>)"
    by (rule Suc.hyps(1)) (use Suc in auto)
  ultimately show ?case by (simp add: wait_for_xmit.simps [of clk target s])
qed

lemma wait_for_xmit_returns:
  assumes "ticks s \<le> n" and "target \<le> clk n"
  obtains m where "ticks s \<le> m" and "m \<le> n" and "target \<le> clk m"
    and "\<And>i. ticks s \<le> i \<Longrightarrow> i < m \<Longrightarrow> clk i < target"
    and "wait_for_xmit clk target s = Some (clk m, s\<lparr>ticks := Suc m\<rparr>)"
proof -
  let ?P = "\<lambda>m. ticks s \<le> m \<and> target \<le> clk m"
  define m where "m = (LEAST m. ?P m)"
  have m: "?P m" unfolding m_def by (rule LeastI [of ?P n]) (use assms in simp)
  have below: "clk i < target" if "ticks s \<le> i" "i < m" for i
    using not_less_Least [of i ?P] that by (simp add: m_def not_le)
  have "m \<le> n" unfolding m_def by (rule Least_le) (use assms in simp)
  moreover have "wait_for_xmit clk target s = Some (clk m, s\<lparr>ticks := Suc m\<rparr>)"
    by (rule wait_for_xmit_at) (use m below in auto)
  ultimately show ?thesis using that m below by blast
qed

section \<open>Reading back the header\<close>

lemma from_le_le_bytes [simp]: "from_le (le_bytes v @ bs) = v"
proof (rule bit_word_eqI)
  fix n assume "n < LENGTH(32)"
  then have n: "n < 32" by simp
  have "bit (from_le (le_bytes v @ bs)) n \<longleftrightarrow>
      n < 8 \<and> bit v n \<or> 8 \<le> n \<and> n < 16 \<and> bit v n \<or> 16 \<le> n \<and> n < 24 \<and> bit v n \<or> 24 \<le> n \<and> n < 32 \<and> bit v n"
    using n by (auto simp: from_le_def le_bytes_def bit_or_iff bit_push_bit_iff bit_drop_bit_eq bit_ucast_iff)
  then show "bit (from_le (le_bytes v @ bs)) n = bit v n" using n by auto
qed

lemma length_le_bytes [simp]: "length (le_bytes v) = 4"
  by (simp add: le_bytes_def)

lemma put_ulong_length: "put_ulong off v buf = Some b \<Longrightarrow> length b = length buf"
  by (auto simp: put_ulong_def UL_def split: if_splits)

lemma put_ulong_defined: "put_ulong off v buf \<noteq> None \<longleftrightarrow> off + UL \<le> length buf"
  by (simp add: put_ulong_def)

lemma get_put_same: "put_ulong off v buf = Some b \<Longrightarrow> get_ulong off b = v"
  using from_le_le_bytes [of v "[]"]
  by (auto simp: put_ulong_def get_ulong_def split: if_splits)

lemma get_put_other:
  assumes put: "put_ulong off v buf = Some b" and "off' + UL \<le> off \<or> off + UL \<le> off'"
  shows "get_ulong off' b = get_ulong off' buf"
proof -
  have len: "off + 8 \<le> length buf"
    and b: "b = take off buf @ (le_bytes v @ [0, 0, 0, 0]) @ drop (off + 8) buf"
    using put by (simp_all add: put_ulong_def UL_def split: if_splits)
  from assms(2) consider "off' + 8 \<le> off" | "off + 8 \<le> off'" by (auto simp: UL_def)
  then have "take 4 (drop off' b) = take 4 (drop off' buf)"
  proof cases
    case 1
    then have "drop off' b = take (off - off') (drop off' buf) @ (le_bytes v @ [0, 0, 0, 0]) @ drop (off + 8) buf"
      using len by (simp add: b drop_take)
    moreover have "4 \<le> length (take (off - off') (drop off' buf))" using 1 len by simp
    ultimately have "take 4 (drop off' b) = take 4 (take (off - off') (drop off' buf))" by simp
    then show ?thesis using 1 by (simp add: min_def)
  next
    case 2
    let ?p = "take off buf @ (le_bytes v @ [0, 0, 0, 0])"
    have p: "length ?p = off + 8" using len by simp
    have "b = ?p @ drop (off + 8) buf" by (simp add: b)
    then have "drop off' b = drop off' ?p @ drop (off' - length ?p) (drop (off + 8) buf)"
      by (simp only: drop_append)
    also have "\<dots> = drop off' buf" using p 2 by (simp only: drop_drop drop_all) simp
    finally show ?thesis by simp
  qed
  then show ?thesis by (simp add: get_ulong_def)
qed

section \<open>The effect of sending\<close>

definition header_ok :: "flow_cfg \<Rightarrow> timeval \<Rightarrow> byte list \<Rightarrow> bool" where
  "header_ok c now b \<longleftrightarrow>
     get_ulong off_sequence_number b = htonl (word_of_int (sequence_nmbr c)) \<and>
     get_ulong off_tx_time_seconds b = htonl (word_of_int (tv_sec now)) \<and>
     get_ulong off_tx_time_useconds b = htonl (word_of_int (tv_usec now)) \<and>
     get_ulong off_flow_id b = htonl (word_of_int (flow_id c)) \<and>
     get_ulong off_dest_addr b = sin_addr (dst c)"

definition counted :: "bool \<Rightarrow> flow_cfg \<Rightarrow> flow_cfg" where
  "counted ok c =
     (if ok then c\<lparr>success := to_int (success c + 1)\<rparr> else c\<lparr>errors := to_int (errors c + 1)\<rparr>)
     \<lparr>sequence_nmbr := to_int (sequence_nmbr c + 1)\<rparr>"

lemma counted_sel [simp]:
  "next_tx (counted ok c) = next_tx c" "next_flow (counted ok c) = next_flow c"
  "mod_flow (counted ok c) = mod_flow c" "flow_stop (counted ok c) = flow_stop c"
  "send_sock (counted ok c) = send_sock c" "send_func (counted ok c) = send_func c"
  "params (counted ok c) = params c" "sequence_nmbr (counted ok c) = to_int (sequence_nmbr c + 1)"
  by (simp_all add: counted_def)

lemma put_ulong_ok: "off + UL \<le> length buf \<Longrightarrow> \<exists>b. put_ulong off v buf = Some b \<and> length b = length buf"
  using put_ulong_defined [of off v buf] put_ulong_length by auto

text \<open>The five stores, in the order of the code, leave the five fields in place.\<close>

lemma header_stores:
  assumes "sizeof_udp_data \<le> length buf"
  obtains b1 b2 b3 b4 b5 where "put_ulong off_dest_addr da buf = Some b1" and "put_ulong off_flow_id fi b1 = Some b2"
    and "put_ulong off_sequence_number sn b2 = Some b3" and "put_ulong off_tx_time_seconds ts b3 = Some b4"
    and "put_ulong off_tx_time_useconds tu b4 = Some b5" and "length b5 = length buf"
    and "get_ulong off_dest_addr b5 = da" and "get_ulong off_flow_id b5 = fi"
    and "get_ulong off_sequence_number b5 = sn" and "get_ulong off_tx_time_seconds b5 = ts"
    and "get_ulong off_tx_time_useconds b5 = tu"
proof -
  have len: "40 \<le> length buf" using assms by (simp add: sizeof_udp_data_def)
  obtain b1 where b1: "put_ulong off_dest_addr da buf = Some b1" "length b1 = length buf"
    using put_ulong_ok [of off_dest_addr buf da] len by (auto simp: header_layout)
  obtain b2 where b2: "put_ulong off_flow_id fi b1 = Some b2" "length b2 = length buf"
    using put_ulong_ok [of off_flow_id b1 fi] len b1 by (auto simp: header_layout)
  obtain b3 where b3: "put_ulong off_sequence_number sn b2 = Some b3" "length b3 = length buf"
    using put_ulong_ok [of off_sequence_number b2 sn] len b2 by (auto simp: header_layout)
  obtain b4 where b4: "put_ulong off_tx_time_seconds ts b3 = Some b4" "length b4 = length buf"
    using put_ulong_ok [of off_tx_time_seconds b3 ts] len b3 by (auto simp: header_layout)
  obtain b5 where b5: "put_ulong off_tx_time_useconds tu b4 = Some b5" "length b5 = length buf"
    using put_ulong_ok [of off_tx_time_useconds b4 tu] len b4 by (auto simp: header_layout)
  note same = get_put_same [OF b1(1)] get_put_same [OF b2(1)] get_put_same [OF b3(1)]
    get_put_same [OF b4(1)] get_put_same [OF b5(1)]
  note other = get_put_other [OF b2(1)] get_put_other [OF b3(1)] get_put_other [OF b4(1)] get_put_other [OF b5(1)]
  show ?thesis
    by (rule that [OF b1(1) b2(1) b3(1) b4(1) b5(1) b5(2)])
      (use same other in \<open>simp_all add: header_layout\<close>)
qed

lemma xmit_effect:
  assumes len: "sizeof_udp_data \<le> length (buffer s)" and sz: "0 \<le> sz" "sz \<le> int (length (buffer s))"
    and n: "ticks s \<le> n" "next_tx c \<le> clock env n"
  obtains m b d where "ticks s \<le> m" and "m \<le> n" and "next_tx c \<le> clock env m"
    and "\<And>i. ticks s \<le> i \<Longrightarrow> i < m \<Longrightarrow> clock env i < next_tx c"
    and "length b = length (buffer s)" and "header_ok c (clock env m) b"
    and "d = \<lparr>dg_sock = send_sock c, dg_bytes = take (nat sz) b, dg_dst = dst c, dg_time = clock env m\<rparr>"
    and "xmit env a c sz s =
      Some (counted (sendto env (sent s) d = sz) c, s\<lparr>ticks := Suc m, buffer := b, sent := sent s @ [d]\<rparr>)"
proof -
  obtain m where m: "ticks s \<le> m" "m \<le> n" "next_tx c \<le> clock env m"
    "\<And>i. ticks s \<le> i \<Longrightarrow> i < m \<Longrightarrow> clock env i < next_tx c"
    and w: "\<And>b. wait_for_xmit (clock env) (next_tx c) (s\<lparr>buffer := b\<rparr>) =
      Some (clock env m, s\<lparr>buffer := b, ticks := Suc m\<rparr>)"
  proof -
    obtain m where m: "ticks s \<le> m" "m \<le> n" "next_tx c \<le> clock env m"
      "\<And>i. ticks s \<le> i \<Longrightarrow> i < m \<Longrightarrow> clock env i < next_tx c"
      using wait_for_xmit_returns [of s n "next_tx c" "clock env", OF n] by blast
    show ?thesis by (rule that [OF m wait_for_xmit_at]) (use m in auto)
  qed
  obtain b1 b2 b3 b4 b5 where
    b: "put_ulong off_dest_addr (sin_addr (dst c)) (buffer s) = Some b1"
      "put_ulong off_flow_id (htonl (word_of_int (flow_id c))) b1 = Some b2"
      "put_ulong off_sequence_number (htonl (word_of_int (sequence_nmbr c))) b2 = Some b3"
      "put_ulong off_tx_time_seconds (htonl (word_of_int (tv_sec (clock env m)))) b3 = Some b4"
      "put_ulong off_tx_time_useconds (htonl (word_of_int (tv_usec (clock env m)))) b4 = Some b5"
      "length b5 = length (buffer s)" and h: "header_ok c (clock env m) b5"
    unfolding header_ok_def by (rule header_stores [OF len]) blast
  let ?d = "\<lparr>dg_sock = send_sock c, dg_bytes = take (nat sz) b5, dg_dst = dst c, dg_time = clock env m\<rparr>"
  have "xmit env a c sz s =
      Some (counted (sendto env (sent s) ?d = sz) c, s\<lparr>ticks := Suc m, buffer := b5, sent := sent s @ [?d]\<rparr>)"
    using b sz w by (simp add: xmit_def counted_def Let_def)
  then show ?thesis using that m b(6) h by blast
qed

lemma xmit_overflow:
  "length (buffer s) < sizeof_udp_data \<Longrightarrow> xmit env a c sz s = None"
  by (simp add: xmit_def put_ulong_def header_layout)

lemma send_header_overflow:
  assumes "length (buffer s) < sizeof_udp_data"
  shows "send_cbr env a s = None" and "send_trace env a s = None"
  using xmit_overflow [OF assms]
  by (cases "heap s a"; simp add: send_cbr_def send_trace_def split: params.split)+

lemma next_cbr_micros:
  assumes "0 < r" and "normalized t"
  shows "\<exists>t'. next_cbr r t = Some t' \<and> normalized t' \<and> micros t' = micros t + 1000000 div r"
proof -
  let ?u = "tv_usec t"
  have u: "0 \<le> ?u" "?u < 1000000" using assms(2) by (auto simp: normalized_def)
  have "0 < ?u * r + 1000000" using assms(1) u by (intro add_nonneg_pos) simp_all
  then have "c_div (?u * r + 1000000) r = (?u * r + 1000000) div r"
    using assms u by (simp add: c_div_def sgn_if)
  also have "\<dots> = ?u + 1000000 div r" using assms by simp
  finally have q: "c_div (?u * r + 1000000) r = ?u + 1000000 div r" .
  have "0 \<le> 1000000 div r" "1000000 div r \<le> 1000000"
    using assms zdiv_mono2 [of 1000000 1 r] by (auto simp: pos_imp_zdiv_nonneg_iff)
  with q u assms(1) show ?thesis
    by (auto simp: next_cbr_def Let_def normalized_def micros_def)
qed

text \<open>One datagram of a flow, sent at the first clock reading that is not before its time.\<close>

definition sent_one :: "net_env \<Rightarrow> flow_cfg \<Rightarrow> int \<Rightarrow> rude \<Rightarrow> datagram \<Rightarrow> rude \<Rightarrow> bool" where
  "sent_one env c sz s d s' \<longleftrightarrow>
     (\<exists>m b. ticks s \<le> m \<and> next_tx c \<le> clock env m \<and> (\<forall>i \<ge> ticks s. i < m \<longrightarrow> clock env i < next_tx c) \<and>
        length b = length (buffer s) \<and> header_ok c (clock env m) b \<and>
        d = \<lparr>dg_sock = send_sock c, dg_bytes = take (nat sz) b, dg_dst = dst c, dg_time = clock env m\<rparr> \<and>
        s' = s\<lparr>ticks := Suc m, buffer := b, sent := sent s @ [d]\<rparr>)"

lemma xmit_sent_one:
  assumes "sizeof_udp_data \<le> length (buffer s)" and "0 \<le> sz" "sz \<le> int (length (buffer s))"
    and "ticks s \<le> n" "next_tx c \<le> clock env n"
  obtains d s' where "xmit env a c sz s = Some (counted (sendto env (sent s) d = sz) c, s')"
    and "sent_one env c sz s d s'" and "ticks s < ticks s'" and "ticks s' \<le> Suc n"
proof -
  from assms show ?thesis
  proof (rule xmit_effect [where a = a])
    fix m b d
    assume "ticks s \<le> m" "m \<le> n" "next_tx c \<le> clock env m"
      "\<And>i. ticks s \<le> i \<Longrightarrow> i < m \<Longrightarrow> clock env i < next_tx c"
      "length b = length (buffer s)" "header_ok c (clock env m) b"
      "d = \<lparr>dg_sock = send_sock c, dg_bytes = take (nat sz) b, dg_dst = dst c, dg_time = clock env m\<rparr>"
      "xmit env a c sz s =
        Some (counted (sendto env (sent s) d = sz) c, s\<lparr>ticks := Suc m, buffer := b, sent := sent s @ [d]\<rparr>)"
    then show ?thesis
      by (intro that [of d "s\<lparr>ticks := Suc m, buffer := b, sent := sent s @ [d]\<rparr>"])
        (auto simp: sent_one_def)
  qed
qed

lemma get_ulong_take: "off + 4 \<le> k \<Longrightarrow> get_ulong off (take k b) = get_ulong off b"
  by (simp add: get_ulong_def drop_take min_def)

lemma header_ok_take:
  "header_ok c now b \<Longrightarrow> int sizeof_udp_data \<le> sz \<Longrightarrow> header_ok c now (take (nat sz) b)"
  by (auto simp: header_ok_def header_layout get_ulong_take)

section \<open>A block ready to send\<close>

definition example_net :: net_env where
  "example_net = \<lparr>clock = (\<lambda>n. Timeval (int n) 0), sendto = (\<lambda>_ d. int (length (dg_bytes d)))\<rparr>"

definition example_tx :: rude where
  "example_tx = example_flows\<lparr>buffer := replicate 60 0\<rparr>"

definition example_trace :: trace_params where
  "example_trace = \<lparr>max_psize = 60, list_size = 2, list_index = 1,
     trace_list = [\<lparr>te_psize = 20, te_wait = Timeval 1 0\<rparr>, \<lparr>te_psize = 60, te_wait = Timeval 0 500000\<rparr>]\<rparr>"

section \<open>Properties of the transmission\<close>

text \<open>
  C7. \<^verbatim>\<open>send_cbr\<close> on a block of positive rate sends exactly one datagram of the configured size, on the
  socket of the flow and to its destination, at the first clock reading that is not before
  \<^verbatim>\<open>next_tx\<close>; the header in front of the data holds sequence number, send time, flow id and
  destination in network byte order; one of the two counters and the sequence number are
  incremented, and the next packet is due 1000000 / rate microseconds later.
\<close>

theorem send_cbr_correct:
  assumes "heap s a = Some c" and "params c = P_cbr p" and "0 < rate p" and "normalized (next_tx c)"
    and "sizeof_udp_data \<le> length (buffer s)" and "0 \<le> psize p" and "psize p \<le> int (length (buffer s))"
    and "ticks s \<le> n" and "next_tx c \<le> clock env n"
  shows "\<exists>d s1 t. send_cbr env a s =
      Some (store a ((counted (sendto env (sent s) d = psize p) c)\<lparr>next_tx := t\<rparr>) s1) \<and>
    sent_one env c (psize p) s d s1 \<and> normalized t \<and> micros t = micros (next_tx c) + 1000000 div rate p \<and>
    (int sizeof_udp_data \<le> psize p \<longrightarrow> header_ok c (dg_time d) (dg_bytes d))"
proof -
  obtain d s1 where x: "xmit env a c (psize p) s = Some (counted (sendto env (sent s) d = psize p) c, s1)"
    and one: "sent_one env c (psize p) s d s1"
    using xmit_sent_one [OF assms(5-9)] by blast
  obtain t where "next_cbr (rate p) (next_tx c) = Some t" "normalized t"
    "micros t = micros (next_tx c) + 1000000 div rate p"
    using next_cbr_micros [OF assms(3,4)] by blast
  moreover have "int sizeof_udp_data \<le> psize p \<longrightarrow> header_ok c (dg_time d) (dg_bytes d)"
    using one header_ok_take by (auto simp: sent_one_def)
  ultimately show ?thesis using x one assms(1,2) by (auto simp: send_cbr_def)
qed

theorem send_cbr_correct_witness:
  "\<exists>s1 c'. send_cbr example_net 1 example_tx = Some (store 1 c' s1) \<and>
     micros (next_tx c') = 10200000 \<and> length (sent s1) = 1"
proof -
  let ?c = "(example_block 10 20)\<lparr>mod_flow := Some 2, next_flow := Some 3\<rparr>"
  have c: "heap example_tx 1 = Some ?c" "params ?c = P_cbr \<lparr>rate = 5, psize = 60\<rparr>"
    "next_tx ?c = Timeval 10 0" "ticks example_tx \<le> 10" "sent example_tx = []" "buffer example_tx = replicate 60 0"
    by (simp_all add: example_tx_def example_flows_def example_block_def init_state_def)
  obtain d s1 t where r: "send_cbr example_net 1 example_tx =
      Some (store 1 ((counted (sendto example_net (sent example_tx) d = 60) ?c)\<lparr>next_tx := t\<rparr>) s1)"
    "sent_one example_net ?c 60 example_tx d s1" "micros t = micros (Timeval 10 0) + 200000"
    using send_cbr_correct [OF c(1,2), of 10 example_net] c
    by (auto simp: normalized_def sizeof_udp_data_def example_net_def)
  then have "length (sent s1) = 1" using c(5) by (auto simp: sent_one_def)
  moreover have "micros t = 10200000" using r(3) by (simp add: micros_def)
  ultimately show ?thesis using r(1) by (intro exI conjI) (assumption | simp)+
qed



end
