(* ===== verification/Rude_Loop.thy ===== *)
theory Rude_Loop
  imports Flow_Txmit "HOL-Library.Multiset"
begin

text \<open>
  The transmission loop of \<^verbatim>\<open>rude/rude/main.c\<close>: it ends once the clock has passed the last stop time,
  never touches memory outside its blocks and its buffer, sends the packets of every flow with
  consecutive sequence numbers, and loses no socket.
\<close>

partial_function (option) main_loop :: "net_env \<Rightarrow> rude \<Rightarrow> rude option" where
  "main_loop env s =
     (case find_next (clock env) s of
        None \<Rightarrow> None
      | Some (flow, s1) \<Rightarrow>
          (case flow of
             None \<Rightarrow> Some s1
           | Some a \<Rightarrow>
               (case call_send_func env a s1 of
                  None \<Rightarrow> None
                | Some s2 \<Rightarrow> main_loop env s2)))"

declare main_loop.simps [code]

section \<open>Blocks that can be sent\<close>

definition sendable :: "nat \<Rightarrow> flow_cfg \<Rightarrow> bool" where
  "sendable n c \<longleftrightarrow>
     (case params c of
        P_zero \<Rightarrow> False
      | P_cbr p \<Rightarrow> send_func c = Send_cbr \<and> PMINSIZE \<le> psize p \<and> psize p \<le> int n \<and>
          (rate p = 0 \<longrightarrow> flow_stop c < next_tx c)
      | P_trace t \<Rightarrow> send_func c = Send_trace \<and> list_size t = length (trace_list t) \<and> list_index t < list_size t \<and>
          (\<forall>e \<in> set (trace_list t). PMINSIZE \<le> te_psize e \<and> te_psize e \<le> int n))"

lemma sendable_simps [simp]:
  "sendable n (erase c) = sendable n c" "sendable n (inherit b c) = sendable n c"
  "sendable n (c\<lparr>send_sock := k\<rparr>) = sendable n c"
  by (simp_all add: sendable_def erase_def inherit_def cong: params.case_cong)

lemma inherit_sel [simp]:
  "send_sock (inherit b c) = send_sock b" "sequence_nmbr (inherit b c) = sequence_nmbr b"
  by (simp_all add: inherit_def)

text \<open>What sending one packet changes in the block.\<close>

definition advanced :: "flow_cfg \<Rightarrow> flow_cfg \<Rightarrow> bool" where
  "advanced c c' \<longleftrightarrow> same_links c' c \<and> send_sock c' = send_sock c \<and> flow_stop c' = flow_stop c \<and>
     flow_id c' = flow_id c \<and> dst c' = dst c \<and> sequence_nmbr c' = to_int (sequence_nmbr c + 1)"

lemma call_send_func_sent:
  assumes c: "heap s a = Some c" and ok: "sendable (length (buffer s)) c" and due: "next_tx c \<le> flow_stop c"
    and len: "sizeof_udp_data \<le> length (buffer s)" and n: "ticks s \<le> n" "next_tx c \<le> clock env n"
  obtains sz d s1 c' where "call_send_func env a s = Some (store a c' s1)" and "sent_one env c sz s d s1"
    and "PMINSIZE \<le> sz" and "advanced c c'" and "sendable (length (buffer s)) c'"
    and "ticks s < ticks s1" and "ticks s1 \<le> Suc n"
proof (cases "params c")
  case P_zero
  with ok show ?thesis by (simp add: sendable_def)
next
  case (P_cbr p)
  with ok due have p: "send_func c = Send_cbr" "PMINSIZE \<le> psize p" "psize p \<le> int (length (buffer s))" "rate p \<noteq> 0"
    by (auto simp: sendable_def)
  obtain d s1 where x: "xmit env a c (psize p) s = Some (counted (sendto env (sent s) d = psize p) c, s1)"
    "sent_one env c (psize p) s d s1" "ticks s < ticks s1" "ticks s1 \<le> Suc n"
    using xmit_sent_one [OF len _ p(3) n] p(2) by (auto simp: PMINSIZE_def)
  obtain t where t: "next_cbr (rate p) (next_tx c) = Some t" using p(4) by (simp add: next_cbr_def Let_def)
  show ?thesis
    by (rule that [OF _ x(2) p(2) _ _ x(3,4), of "(counted (sendto env (sent s) d = psize p) c)\<lparr>next_tx := t\<rparr>"])
      (use c P_cbr p x t ok in \<open>auto simp: call_send_func_def send_cbr_def advanced_def same_links_def sendable_def counted_def\<close>)
next
  case (P_trace p)
  let ?e = "trace_list p ! list_index p"
  from P_trace ok have p: "send_func c = Send_trace" "list_size p = length (trace_list p)" "list_index p < length (trace_list p)"
    "\<forall>e \<in> set (trace_list p). PMINSIZE \<le> te_psize e \<and> te_psize e \<le> int (length (buffer s))"
    by (auto simp: sendable_def)
  then have e: "PMINSIZE \<le> te_psize ?e" "te_psize ?e \<le> int (length (buffer s))" by auto
  have i: "(list_index p + 1) mod length (trace_list p) < length (trace_list p)"
    by (rule mod_less_divisor) (use p(3) in linarith)
  obtain d s1 where x: "xmit env a c (te_psize ?e) s = Some (counted (sendto env (sent s) d = te_psize ?e) c, s1)"
    "sent_one env c (te_psize ?e) s d s1" "ticks s < ticks s1" "ticks s1 \<le> Suc n"
    using xmit_sent_one [OF len _ e(2) n] e(1) by (auto simp: PMINSIZE_def)
  show ?thesis
    by (rule that [OF _ x(2) e(1) _ _ x(3,4), of "(counted (sendto env (sent s) d = te_psize ?e) c)
        \<lparr>next_tx := timeradd (next_tx c) (te_wait ?e),
          params := P_trace (p\<lparr>list_index := (list_index p + 1) mod list_size p\<rparr>)\<rparr>"])
      (use c P_trace p x ok i in \<open>auto simp: call_send_func_def send_trace_def Let_def advanced_def same_links_def sendable_def counted_def\<close>)
qed

section \<open>Sequence numbers and sockets of a flow\<close>

definition seqs :: "int \<Rightarrow> rude \<Rightarrow> 32 word list" where
  "seqs k s = map (\<lambda>d. get_ulong off_sequence_number (dg_bytes d)) (filter (\<lambda>d. dg_sock d = k) (sent s))"

definition consecutive :: "32 word list \<Rightarrow> bool" where
  "consecutive ws \<longleftrightarrow> ws = map (\<lambda>i. htonl (word_of_nat i)) [0 ..< length ws]"

lemma consecutive_snoc: "consecutive ws \<Longrightarrow> consecutive (ws @ [htonl (word_of_nat (length ws))])"
  by (simp add: consecutive_def)

abbreviation sock_of :: "flow_cfg list \<Rightarrow> int" where
  "sock_of f \<equiv> send_sock (hd f)"

text \<open>
  A flow: its first block holds the socket and the number of the next packet, \<open>cnt k\<close> is the number
  of packets sent on socket \<open>k\<close>, and all its blocks can be sent from a buffer of \<open>n\<close> bytes.
\<close>

definition flow_ok :: "nat \<Rightarrow> (int \<Rightarrow> nat) \<Rightarrow> flow_cfg list \<Rightarrow> bool" where
  "flow_ok n cnt f \<longleftrightarrow> f \<noteq> [] \<and> 0 < sock_of f \<and>
     (word_of_int (sequence_nmbr (hd f)) :: 32 word) = word_of_nat (cnt (sock_of f)) \<and>
     (\<forall>c \<in> set (tl f). send_sock c = 0) \<and> (\<forall>c \<in> set f. sendable n c)"

lemma drain_flow:
  "flow_ok n cnt f \<Longrightarrow>
     (if fst (drain now f) = [] then snd (snd (drain now f)) = [sock_of f]
      else flow_ok n cnt (fst (drain now f)) \<and> sock_of (fst (drain now f)) = sock_of f \<and> snd (snd (drain now f)) = [])"
proof (induction now f rule: drain.induct)
  case (3 now b d ds)
  have "flow_ok n cnt (inherit b d # ds)"
    using "3.prems" by (auto simp: flow_ok_def)
  with 3 show ?case by (auto split: prod.splits)
qed (auto simp: flow_ok_def socks_def)

definition flows_ok :: "nat \<Rightarrow> (int \<Rightarrow> nat) \<Rightarrow> flow_cfg list list \<Rightarrow> bool" where
  "flows_ok n cnt F \<longleftrightarrow> (\<forall>f \<in> set F. flow_ok n cnt f) \<and> distinct (map sock_of F)"

lemma mset_map_partition: "mset (map g F) = mset (map g (filter P F)) + mset (map g (filter (\<lambda>x. \<not> P x) F))"
  by (induction F) auto

lemma earliest_in: "earliest key as a \<Longrightarrow> a \<in> set as"
  by (auto simp: earliest_def)

lemma drain_flows:
  fixes now :: timeval
  assumes ok: "flows_ok n cnt F"
  defines "F' \<equiv> filter (\<lambda>f. f \<noteq> []) (map (\<lambda>f. fst (drain now f)) F)"
  shows "flows_ok n cnt F'"
    and "mset (map sock_of F) = mset (map sock_of F') + mset (concat (map (\<lambda>f. snd (snd (drain now f))) F))"
proof -
  let ?live = "\<lambda>f. fst (drain now f) \<noteq> []"
  have d: "if ?live f then flow_ok n cnt (fst (drain now f)) \<and> sock_of (fst (drain now f)) = sock_of f \<and> snd (snd (drain now f)) = []
      else snd (snd (drain now f)) = [sock_of f]" if "f \<in> set F" for f
    using drain_flow [of n cnt f now] ok that by (auto simp: flows_ok_def)
  have F': "map sock_of F' = map sock_of (filter ?live F)"
    unfolding F'_def using d by (induction F) auto
  have "concat (map (\<lambda>f. snd (snd (drain now f))) F) = map sock_of (filter (\<lambda>f. \<not> ?live f) F)"
    using d by (induction F) (auto split: if_splits)
  then show "mset (map sock_of F) = mset (map sock_of F') + mset (concat (map (\<lambda>f. snd (snd (drain now f))) F))"
    unfolding F' using mset_map_partition [of sock_of F ?live] by simp
  have "\<forall>f \<in> set F'. flow_ok n cnt f" unfolding F'_def using d by fastforce
  moreover have "distinct (map sock_of F')"
    unfolding F' using ok by (auto simp: flows_ok_def intro: distinct_map_filter)
  ultimately show "flows_ok n cnt F'" by (simp add: flows_ok_def)
qed

section \<open>The invariant of the loop\<close>

definition run_inv :: "rude \<Rightarrow> addr list list \<Rightarrow> addr list \<Rightarrow> bool" where
  "run_inv s fs dn \<longleftrightarrow> flows_rep s fs dn \<and> sizeof_udp_data \<le> length (buffer s) \<and>
     flows_ok (length (buffer s)) (\<lambda>k. length (seqs k s)) (map (view s) fs) \<and>
     (\<forall>k. consecutive (seqs k s)) \<and>
     mset (opened s) = mset (closed s) + mset (map (\<lambda>f. sock_of (view s f)) fs)"

lemma run_invD:
  assumes "run_inv s fs dn"
  shows "flows_rep s fs dn" and "sizeof_udp_data \<le> length (buffer s)"
    and "flows_ok (length (buffer s)) (\<lambda>k. length (seqs k s)) (map (view s) fs)"
    and "\<And>k. consecutive (seqs k s)"
    and "mset (opened s) = mset (closed s) + mset (map (\<lambda>f. sock_of (view s f)) fs)"
  using assms by (auto simp: run_inv_def)

lemma find_next_run:
  assumes inv: "run_inv s fs dn"
  obtains target s' fs' dn' where "find_next clk s = Some (target, s')" and "run_inv s' fs' dn'"
    and "ticks s' = Suc (ticks s)" and "target = NULL \<longleftrightarrow> fs' = []"
    and "\<And>t. target = Some t \<Longrightarrow> t \<in> set (map hd fs')"
    and "\<And>f. f \<in> set fs' \<Longrightarrow> \<not> expired (clk (ticks s)) (blk s' (hd f))"
    and "map (view s') fs' = filter (\<lambda>f. f \<noteq> []) (map (\<lambda>f. fst (drain (clk (ticks s)) (view s f))) fs)"
    and "dom (heap s') = dom (heap s)"
proof -
  let ?now = "clk (ticks s)" and ?s = "s\<lparr>ticks := Suc (ticks s)\<rparr>"
  obtain target s' fs' fin where run: "find_next clk s = Some (target, s')"
    and sch: "scheduled ?now ?s [] fs dn NULL target s' fs' fin"
    using find_next_scheduled [OF run_invD(1) [OF inv], of clk] by auto
  have rep: "flows_rep s' fs' (rev fin @ dn)" and g: "globals s' = globals ?s"
    and t: "target = first_min (\<lambda>a. next_tx (blk s' a)) NULL (map hd fs')"
    and v: "map (view s') fs' = filter (\<lambda>f. f \<noteq> []) (map (\<lambda>f. fst (drain ?now (view s f))) fs)"
    and dm: "dom (heap s') = dom (heap s)" and cl: "closed s' = closed s @ concat (map (\<lambda>f. snd (snd (drain ?now (view s f)))) fs)"
    using sch by (simp_all add: scheduled_def)
  have same: "buffer s' = buffer s" "sent s' = sent s" "opened s' = opened s" "ticks s' = Suc (ticks s)"
    using g by (simp_all add: globals_def)
  have sq: "seqs k s' = seqs k s" for k by (simp add: seqs_def same)
  note dr = drain_flows [OF run_invD(3) [OF inv], of ?now, unfolded map_map comp_def, folded v]
  have "run_inv s' fs' (rev fin @ dn)"
    using rep dr run_invD(2,4,5) [OF inv] by (simp add: run_inv_def same sq cl comp_def)
  moreover have "\<not> expired ?now (blk s' (hd f))" if "f \<in> set fs'" for f
  proof -
    have "view s' f \<in> set (map (view s') fs')" using that by simp
    then obtain g where "view s' f = fst (drain ?now (view s g))" unfolding v by auto
    moreover have "erase (blk s' (hd f)) \<in> set (take 1 (view s' f))"
      using flows_repD(2) [OF rep that] by (cases f) auto
    ultimately show ?thesis using drain_active [of "erase (blk s' (hd f))" ?now "view s g"] by simp
  qed
  moreover have "target = NULL \<longleftrightarrow> fs' = []" using t by (simp add: first_min_earliest)
  moreover have "x \<in> set (map hd fs')" if "target = Some x" for x
    by (rule earliest_in [OF first_min_earliest(2)]) (use t that in simp)
  ultimately show ?thesis using that run same v dm by blast
qed

lemma sent_one_frame:
  assumes "sent_one env c sz s d s1"
  shows "heap s1 = heap s" "head s1 = head s" "done_ptr s1 = done_ptr s" "opened s1 = opened s" "closed s1 = closed s"
    "length (buffer s1) = length (buffer s)" "sent s1 = sent s @ [d]" "dg_sock d = send_sock c"
  using assms by (auto simp: sent_one_def)

lemma sent_one_seq:
  assumes "sent_one env c sz s d s1" and "PMINSIZE \<le> sz"
  shows "get_ulong off_sequence_number (dg_bytes d) = htonl (word_of_int (sequence_nmbr c))"
  using assms by (auto simp: sent_one_def header_ok_def get_ulong_take off_sequence_number_def PMINSIZE_def)

lemma word_of_int_to_int: "(word_of_int (to_int i) :: 32 word) = word_of_int i"
proof -
  have "to_int i mod 2 ^ 32 = i mod 2 ^ 32"
    by (simp add: to_int_def to_signed_def mod_diff_left_eq mod_add_left_eq)
  then show ?thesis by (simp add: word_of_int_eq_iff take_bit_eq_mod)
qed

lemma send_run:
  assumes inv: "run_inv s fs dn" and f: "f \<in> set fs" and a: "a = hd f"
    and ex: "\<not> expired now (blk s a)" and n: "ticks s \<le> n" "flow_stop (blk s a) \<le> clock env n"
  obtains s2 where "call_send_func env a s = Some s2" and "run_inv s2 fs dn" and "ticks s < ticks s2"
    and "ticks s2 \<le> Suc n" and "\<And>b. map_option flow_stop (heap s2 b) = map_option flow_stop (heap s b)"
proof -
  note rep = run_invD(1) [OF inv]
  obtain as where fa: "f = a # as" using flows_repD(2) [OF rep f] a by (cases f) auto
  obtain c where c: "heap s a = Some c" using flows_rep_alloc [OF rep f, of a] fa by auto
  have flow: "flow_ok (length (buffer s)) (\<lambda>k. length (seqs k s)) (view s f)"
    using run_invD(3) [OF inv] f by (simp add: flows_ok_def)
  then have ok: "sendable (length (buffer s)) c"
    and sq: "(word_of_int (sequence_nmbr c) :: 32 word) = word_of_nat (length (seqs (send_sock c) s))"
    using fa c by (simp_all add: flow_ok_def)
  have due: "next_tx c \<le> flow_stop c" using ex c by (simp add: expired_def not_less)
  then have nt: "next_tx c \<le> clock env n" using n(2) c order_trans [of "next_tx c" "flow_stop c" "clock env n"] by simp
  obtain sz d s1 c' where run: "call_send_func env a s = Some (store a c' s1)" and one: "sent_one env c sz s d s1"
    and sz: "PMINSIZE \<le> sz" and adv: "advanced c c'" and ok': "sendable (length (buffer s)) c'"
    and tk: "ticks s < ticks s1" "ticks s1 \<le> Suc n"
    by (rule call_send_func_sent [OF c ok due run_invD(2) [OF inv] n(1) nt], rule that)
  note fr = sent_one_frame [OF one]
  let ?s2 = "store a c' s1"
  have "flows_rep s1 fs dn" using rep fr by (simp add: flows_rep_frame)
  then have rep2: "flows_rep ?s2 fs dn" using flows_rep_store [of s1 fs dn a c c'] c adv fr(1) by (simp add: advanced_def)
  have seqs2: "seqs k ?s2 = seqs k s @ (if k = send_sock c then [htonl (word_of_nat (length (seqs k s)))] else [])" for k
    using fr(7,8) sent_one_seq [OF one sz] sq by (auto simp: seqs_def)
  have al: "a \<notin> set g" if "g \<in> set fs" "g \<noteq> f" for g
    using flows_rep_disjoint [OF rep f that(1), of a] that(2) fa by auto
  have "a \<notin> set as" using chain_distinct [OF flows_repD(3) [OF rep f]] fa by simp
  then have vf: "view ?s2 f = erase c' # view s as" using fa fr(1) by (simp add: view_def)
  have vg: "view ?s2 g = view s g" if "g \<in> set fs" "g \<noteq> f" for g
    using al [OF that] fr(1) by (simp add: view_def)
  have sock: "sock_of (view ?s2 g) = sock_of (view s g)" if "g \<in> set fs" for g
    using vf vg [OF that] adv fa c by (cases "g = f") (simp_all add: advanced_def)
  have inj: "inj_on (\<lambda>g. sock_of (view s g)) (set fs)"
    using run_invD(3) [OF inv] by (simp add: flows_ok_def distinct_map comp_def)
  have okg: "flow_ok (length (buffer s)) (\<lambda>k. length (seqs k ?s2)) (view ?s2 g)" if g: "g \<in> set fs" for g
  proof (cases "g = f")
    case True
    have "(word_of_int (sequence_nmbr c') :: 32 word) = word_of_int (sequence_nmbr c) + 1"
      using adv by (simp add: advanced_def word_of_int_to_int)
    then show ?thesis
      using True vf flow adv ok' fa c sq by (auto simp: flow_ok_def advanced_def seqs2)
  next
    case False
    have "sock_of (view s g) \<noteq> send_sock c"
      using inj_onD [OF inj, of g f] g f False fa c by auto
    moreover have "flow_ok (length (buffer s)) (\<lambda>k. length (seqs k s)) (view s g)"
      using run_invD(3) [OF inv] g by (simp add: flows_ok_def)
    ultimately show ?thesis using vg [OF g False] by (simp add: flow_ok_def seqs2)
  qed
  have socks: "map (\<lambda>g. sock_of (view ?s2 g)) fs = map (\<lambda>g. sock_of (view s g)) fs"
    using sock by (intro map_cong) auto
  have "run_inv ?s2 fs dn"
    unfolding run_inv_def
  proof (intro conjI)
    show "flows_rep ?s2 fs dn" by fact
    show "sizeof_udp_data \<le> length (buffer ?s2)" using run_invD(2) [OF inv] fr(6) by simp
    show "flows_ok (length (buffer ?s2)) (\<lambda>k. length (seqs k ?s2)) (map (view ?s2) fs)"
      unfolding flows_ok_def map_map comp_def socks
      using okg run_invD(3) [OF inv] fr(6) by (simp add: flows_ok_def comp_def)
    show "\<forall>k. consecutive (seqs k ?s2)"
      using run_invD(4) [OF inv] by (auto simp: seqs2 intro: consecutive_snoc)
    show "mset (opened ?s2) = mset (closed ?s2) + mset (map (\<lambda>g. sock_of (view ?s2 g)) fs)"
      unfolding socks using run_invD(5) [OF inv] fr(4,5) by simp
  qed
  moreover have "map_option flow_stop (heap ?s2 b) = map_option flow_stop (heap s b)" for b
    using c adv fr(1) by (simp add: advanced_def)
  ultimately show ?thesis using that run tk by simp
qed

section \<open>Termination\<close>

text \<open>Every stop time is at most \<open>T\<close>, and from reading \<open>N\<close> on the clock is past \<open>T\<close>.\<close>

definition stops_by :: "timeval \<Rightarrow> rude \<Rightarrow> addr list list \<Rightarrow> bool" where
  "stops_by T s fs \<longleftrightarrow> (\<forall>f \<in> set fs. \<forall>c \<in> set (view s f). flow_stop c \<le> T)"

lemma drain_stops: "\<forall>c \<in> set f. flow_stop c \<le> T \<Longrightarrow> \<forall>c \<in> set (fst (drain now f)). flow_stop c \<le> T"
  by (induction now f rule: drain.induct) (auto simp: inherit_def split: prod.splits)

lemma drain_all: "\<forall>c \<in> set f. flow_stop c \<le> T \<Longrightarrow> T < now \<Longrightarrow> fst (drain now f) = []"
  by (induction now f rule: drain.induct) (auto simp: expired_def inherit_def split: prod.splits)

lemma main_loop_ends:
  assumes "run_inv s fs dn" and "stops_by T s fs" and past: "\<And>n. N \<le> n \<Longrightarrow> T < clock env n"
  shows "\<exists>s' dn'. main_loop env s = Some s' \<and> run_inv s' [] dn' \<and> dom (heap s') = dom (heap s)"
  using assms(1,2)
proof (induction "N - ticks s" arbitrary: s fs dn rule: less_induct)
  case less
  let ?now = "clock env (ticks s)"
  obtain target s1 fs1 dn1 where fn: "find_next (clock env) s = Some (target, s1)" "run_inv s1 fs1 dn1"
    "ticks s1 = Suc (ticks s)" "target = NULL \<longleftrightarrow> fs1 = []" "\<And>t. target = Some t \<Longrightarrow> t \<in> set (map hd fs1)"
    "\<And>f. f \<in> set fs1 \<Longrightarrow> \<not> expired ?now (blk s1 (hd f))"
    "map (view s1) fs1 = filter (\<lambda>f. f \<noteq> []) (map (\<lambda>f. fst (drain ?now (view s f))) fs)"
    "dom (heap s1) = dom (heap s)"
    using find_next_run [OF less.prems(1), of "clock env"] by blast
  have st1: "stops_by T s1 fs1"
  proof -
    have "\<forall>v \<in> set (map (view s1) fs1). \<forall>c \<in> set v. flow_stop c \<le> T"
      unfolding fn(7) using drain_stops less.prems(2) by (auto simp: stops_by_def)
    then show ?thesis by (simp add: stops_by_def)
  qed
  show ?case
  proof (cases target)
    case None
    then have "main_loop env s = Some s1" using fn(1) by (simp add: main_loop.simps [of env s])
    then show ?thesis using fn(2,4,8) None by auto
  next
    case (Some a)
    then obtain f where f: "f \<in> set fs1" "a = hd f" using fn(5) by auto
    have "ticks s < N"
    proof (rule ccontr)
      assume "\<not> ticks s < N"
      then have "T < ?now" using past by simp
      then have "map (view s1) fs1 = []"
        unfolding fn(7) using drain_all less.prems(2) by (auto simp: stops_by_def filter_empty_conv)
      then show False using f by simp
    qed
    have "erase (blk s1 a) \<in> set (view s1 f)"
      using flows_repD(2) [OF run_invD(1) [OF fn(2)] f(1)] f by (cases f) auto
    then have "flow_stop (blk s1 a) \<le> T" using st1 f by (fastforce simp: stops_by_def)
    then have stop: "flow_stop (blk s1 a) \<le> clock env N" using past [of N] by simp
    have tick: "ticks s1 \<le> N" using fn(3) \<open>ticks s < N\<close> by simp
    obtain s2 where s2: "call_send_func env a s1 = Some s2" "run_inv s2 fs1 dn1" "ticks s1 < ticks s2"
      "\<And>b. map_option flow_stop (heap s2 b) = map_option flow_stop (heap s1 b)"
      using send_run [OF fn(2) f fn(6) [OF f(1), folded f(2)] tick stop] by blast
    have "flow_stop (blk s2 b) = flow_stop (blk s1 b)" if "g \<in> set fs1" "b \<in> set g" for g b
      using s2(4) [of b] flows_rep_allocD [OF run_invD(1) [OF fn(2)] that] by (auto simp: map_option_case split: option.splits)
    then have "stops_by T s2 fs1" using st1 by (simp add: stops_by_def view_def)
    have "main_loop env s = main_loop env s2" using fn(1) Some s2(1) by (simp add: main_loop.simps [of env s])
    moreover have "dom (heap s2) = dom (heap s)"
      using s2(4) fn(8) by (metis (mono_tags, opaque_lifting) domIff option.map_disc_iff subsetI subset_antisym)
    ultimately show ?thesis using less.hyps [OF _ s2(2) \<open>stops_by T s2 fs1\<close>] s2(3) fn(3) \<open>ticks s < N\<close> by simp
  qed
qed

end
