(* ===== verification/C_Getopt.thy ===== *)
theory C_Getopt
  imports C_Library
begin

text \<open>
  The part of \<^verbatim>\<open>getopt(3)\<close> and \<^verbatim>\<open>atoi(3)\<close> the command lines of \<^verbatim>\<open>rude\<close> and \<^verbatim>\<open>crude\<close> rely on.
\<close>

text \<open>One result of \<^verbatim>\<open>getopt\<close>: the option character, \<^verbatim>\<open>optarg\<close>, and \<^verbatim>\<open>optind\<close> after the call.\<close>

record opt_result =
  opt_ret :: char
  optarg :: "string option"
  optind :: nat

text \<open>
  Whether an option exists and takes an argument, looked up in the option string: a character
  followed by a colon takes one.
\<close>

fun takes_arg :: "string \<Rightarrow> char \<Rightarrow> bool option" where
  "takes_arg [] c = None"
| "takes_arg [x] c = (if x = c \<and> c \<noteq> CHR '':'' then Some False else None)"
| "takes_arg (x # y # xs) c =
     (if x = c \<and> c \<noteq> CHR '':'' then Some (y = CHR '':'') else takes_arg (y # xs) c)"

text \<open>
  The options of one argument vector element \<open>-chars\<close>; an option that takes an argument uses the rest
  of the element or the next element. The second component tells how many further elements were used.
\<close>

fun short_opts :: "string \<Rightarrow> nat \<Rightarrow> string list \<Rightarrow> string \<Rightarrow> opt_result list \<times> bool" where
  "short_opts spec i rest [] = ([], False)"
| "short_opts spec i rest (c # cs) =
     (let here = (if cs = [] then Suc i else i)
      in case takes_arg spec c of
           None \<Rightarrow> (case short_opts spec i rest cs of (rs, used) \<Rightarrow>
                     (\<lparr>opt_ret = CHR ''?'', optarg = None, optind = here\<rparr> # rs, used))
         | Some False \<Rightarrow> (case short_opts spec i rest cs of (rs, used) \<Rightarrow>
                     (\<lparr>opt_ret = c, optarg = None, optind = here\<rparr> # rs, used))
         | Some True \<Rightarrow>
             if cs \<noteq> [] then ([\<lparr>opt_ret = c, optarg = Some cs, optind = Suc i\<rparr>], False)
             else (case rest of
                     [] \<Rightarrow> ([\<lparr>opt_ret = CHR ''?'', optarg = None, optind = Suc i\<rparr>], False)
                   | a # _ \<Rightarrow> ([\<lparr>opt_ret = c, optarg = Some a, optind = Suc (Suc i)\<rparr>], True)))"

text \<open>
  All results for the elements from index \<open>i\<close> on: \<open>--\<close> ends the options, other elements are skipped.
\<close>

function getopt :: "string \<Rightarrow> nat \<Rightarrow> string list \<Rightarrow> opt_result list" where
  "getopt spec i [] = []"
| "getopt spec i (a # rest) =
     (if a = ''--'' then []
      else case a of
             c # d # cs \<Rightarrow>
               if c = CHR ''-'' then
                 (case short_opts spec i rest (d # cs) of (rs, used) \<Rightarrow>
                    rs @ (if used then getopt spec (i + 2) (tl rest) else getopt spec (Suc i) rest))
               else getopt spec (Suc i) rest
           | _ \<Rightarrow> getopt spec (Suc i) rest)"
  by pat_completeness auto
termination by (relation "measure (\<lambda>(_, _, as). length as)") (auto simp: less_Suc_eq_le le_diff_conv)

text \<open>\<^verbatim>\<open>atoi\<close> is \<^verbatim>\<open>strtol\<close> in base 10, cut to an \<^verbatim>\<open>int\<close>; 0 if there is no number.\<close>

definition atoi :: "string \<Rightarrow> int" where
  "atoi s = (case scan_conv (C_d 64) s of Some (VInt i, _) \<Rightarrow> to_int i | _ \<Rightarrow> 0)"

end
