(* ===== verification/Rude_Main.thy ===== *)
theory Rude_Main
  imports Parse_Finish Rude_Loop C_Getopt
begin

text \<open>
  \<^verbatim>\<open>rude/rude/main.c\<close>: command line, sockets and packet buffer, the order of the phases, the results
  and the ways out. The system calls are parameters in \<open>rude_env\<close>; the successful ones that matter
  later are recorded in the state.
\<close>

section \<open>The environment\<close>

record rude_env =
  penv :: parse_env
  net :: net_env
  getuid :: int
  sigaction :: "int \<Rightarrow> bool"                    \<comment> \<open>whether a handler can be installed\<close>
  new_socket :: "int list \<Rightarrow> int list \<Rightarrow> int"   \<comment> \<open>\<^verbatim>\<open>socket\<close>, given what was opened and closed before\<close>
  bind_ok :: "int \<Rightarrow> int \<Rightarrow> bool"
  getfl :: "int \<Rightarrow> int"
  setfl :: "int \<Rightarrow> int \<Rightarrow> int"
  malloc_buf :: "int \<Rightarrow> bool"
  setscheduler :: "int \<Rightarrow> bool"                 \<comment> \<open>whether the priority can be set\<close>

section \<open>The command line\<close>

record opts =
  scriptfile :: "string option"
  priority :: int
  retval :: int

definition only_option :: "nat \<Rightarrow> opt_result \<Rightarrow> opts \<Rightarrow> opts" where
  "only_option argc x p = (if optind x = 2 \<and> argc = 2 then p\<lparr>retval := -1\<rparr> else p\<lparr>retval := -2\<rparr>)"

definition rude_opt :: "rude_env \<Rightarrow> nat \<Rightarrow> opt_result \<Rightarrow> opts \<Rightarrow> opts" where
  "rude_opt env argc x p =
     (if opt_ret x = CHR ''v'' \<or> opt_ret x = CHR ''h'' then only_option argc x p
      else if opt_ret x = CHR ''s'' then
        (case optarg x of
           None \<Rightarrow> p\<lparr>retval := -2\<rparr>
         | Some a \<Rightarrow>
             (case fopen (penv env) a of
                None \<Rightarrow> p\<lparr>scriptfile := None, retval := -2\<rparr>
              | Some (content, err) \<Rightarrow> p\<lparr>scriptfile := Some content\<rparr>))
      else if opt_ret x = CHR ''P'' then
        (case optarg x of
           None \<Rightarrow> p\<lparr>retval := -2\<rparr>
         | Some a \<Rightarrow>
             (let q = p\<lparr>priority := atoi a\<rparr>;
                  q1 = (if priority q < 1 \<or> priority q > 90 then q\<lparr>retval := -2\<rparr> else q)
              in if getuid env \<noteq> 0 then q1\<lparr>retval := -2\<rparr> else q1))
      else p\<lparr>retval := -2\<rparr>)"

fun rude_opts :: "rude_env \<Rightarrow> nat \<Rightarrow> opt_result list \<Rightarrow> opts \<Rightarrow> opts" where
  "rude_opts env argc [] p = p"
| "rude_opts env argc (x # xs) p =
     (if retval p = 0 then rude_opts env argc xs (rude_opt env argc x p) else p)"

section \<open>open_sockets and init_rude\<close>

text \<open>\<^verbatim>\<open>O_NONBLOCK\<close> is 2048.\<close>

partial_function (option) open_loop :: "rude_env \<Rightarrow> ptr \<Rightarrow> int \<Rightarrow> rude \<Rightarrow> (int \<times> rude) option" where
  "open_loop env flow ret s =
     (case flow of
        None \<Rightarrow> Some (ret, s)
      | Some a \<Rightarrow>
          (case heap s a of
             None \<Rightarrow> None
           | Some c \<Rightarrow>
               (case new_socket env (opened s) (closed s) of
                  k \<Rightarrow>
                    if k < 0 then open_loop env (next_flow c) (ret - 1) (store a (c\<lparr>send_sock := k\<rparr>) s)
                    else if \<not> bind_ok env k (flow_sport c)
                    then open_loop env (next_flow c) (ret - 1)
                           ((store a (c\<lparr>send_sock := 0\<rparr>) s)\<lparr>opened := opened s @ [k], closed := closed s @ [k]\<rparr>)
                    else open_loop env (next_flow c)
                           (if getfl env k < 0 then ret - 1
                            else if setfl env k (or (getfl env k) 2048) < 0 then ret - 1 else ret)
                           ((store a (c\<lparr>send_sock := k\<rparr>) s)\<lparr>opened := opened s @ [k],
                              sockopts := sockopts s @ (if tos c > 0 then [(k, tos c mod 256)] else [])\<rparr>))))"

declare open_loop.simps [code]

definition open_sockets :: "rude_env \<Rightarrow> rude \<Rightarrow> (int \<times> rude) option" where
  "open_sockets env s = open_loop env (head s) 0 s"

text \<open>
  The result of \<^verbatim>\<open>init_rude\<close> and the argument of \<^verbatim>\<open>usleep\<close>, if it is called; the time asleep is a gap
  between two clock readings.
\<close>

definition init_rude :: "rude_env \<Rightarrow> rude \<Rightarrow> (int \<times> int option \<times> rude) option" where
  "init_rude env s =
     (if max_packet_size s \<le> 0 then Some (-1, None, s)
      else if \<not> malloc_buf env (max_packet_size s) then Some (-2, None, s)
      else do {
        (r, s1) \<leftarrow> open_sockets env (s\<lparr>buffer := replicate (nat (max_packet_size s)) 0\<rparr>);
        if r \<noteq> 0 then Some (-4, None, s1)
        else (let now = clock (net env) (ticks s1);
                  s2 = s1\<lparr>ticks := Suc (ticks s1)\<rparr>
              in if timer_less now (tester_start s2)
                 then Some (0, Some ((tv_sec (tester_start s2) - tv_sec now) * 1000000 +
                                     (tv_usec (tester_start s2) - tv_usec now)), s2)
                 else Some (0, None, s2))
      })"

section \<open>print_results\<close>

text \<open>A line of the report: the fields \<^verbatim>\<open>printf\<close> is given.\<close>

record result_row =
  r_id :: int
  r_start :: timeval
  r_stop :: timeval
  r_sport :: int
  r_daddr :: "32 word"
  r_dport :: "16 word"
  r_err :: int
  r_suc :: int
  r_seq :: int
  r_params :: params

definition row_of :: "flow_cfg \<Rightarrow> result_row" where
  "row_of c = \<lparr>r_id = flow_id c, r_start = flow_start c, r_stop = flow_stop c, r_sport = flow_sport c,
     r_daddr = sin_addr (dst c), r_dport = ntohs (sin_port (dst c)), r_err = errors c, r_suc = success c,
     r_seq = sequence_nmbr c, r_params = params c\<rparr>"

partial_function (option) print_rows :: "(addr \<rightharpoonup> flow_cfg) \<Rightarrow> ptr \<Rightarrow> result_row list \<Rightarrow> result_row list option" where
  "print_rows h flow acc =
     (case flow of
        None \<Rightarrow> Some acc
      | Some a \<Rightarrow>
          (case h a of
             None \<Rightarrow> None
           | Some c \<Rightarrow> print_rows h (next_flow c) (acc @ [row_of c])))"

declare print_rows.simps [code]

definition print_results :: "rude \<Rightarrow> result_row list option" where
  "print_results s = print_rows (heap s) (done_ptr s) []"

section \<open>main\<close>

record outcome =
  exit_code :: int
  final :: rude
  report :: "result_row list"

definition rude_exit1 :: "int \<Rightarrow> rude \<Rightarrow> outcome option" where
  "rude_exit1 ret s = do {
     rows \<leftarrow> print_results s;
     s' \<leftarrow> clean_up s;
     Some \<lparr>exit_code = ret, final = s', report = rows\<rparr>
   }"

definition rude_exit :: "rude_env \<Rightarrow> int \<Rightarrow> int \<Rightarrow> rude \<Rightarrow> outcome option" where
  "rude_exit env prio ret s =
     (if getuid env = 0 \<and> prio > 0 \<and> \<not> setscheduler env 0 then rude_exit1 (-1) s else rude_exit1 ret s)"

text \<open>From the installation of the signal handlers to the end.\<close>

definition rude_run :: "rude_env \<Rightarrow> opts \<Rightarrow> int \<Rightarrow> rude \<Rightarrow> outcome option" where
  "rude_run env p ret s1 =
     (if \<not> (sigaction env 1 \<and> sigaction env 2 \<and> sigaction env 15) then rude_exit1 (-1) s1
      else do {
        (r, w, s2) \<leftarrow> init_rude env s1;
        if r \<noteq> 0 then rude_exit1 (-1) s2
        else if getuid env = 0 \<and> priority p > 0 \<and> \<not> setscheduler env (priority p)
        then rude_exit env (priority p) (-1) s2
        else do {
          s3 \<leftarrow> main_loop (net env) s2;
          rude_exit env (priority p) ret s3
        }
      })"

definition rude_main :: "rude_env \<Rightarrow> string list \<Rightarrow> rude \<Rightarrow> outcome option" where
  "rude_main env argv s0 =
     (let argc = length argv
      in if argc < 2 then Some \<lparr>exit_code = 1, final = s0, report = []\<rparr>
         else (let p = rude_opts env argc (getopt ''s:P:hv'' 1 (tl argv)) \<lparr>scriptfile = None, priority = 0, retval = 0\<rparr>
               in case scriptfile p of
                    None \<Rightarrow> Some \<lparr>exit_code = -2, final = s0, report = []\<rparr>
                  | Some content \<Rightarrow>
                      if retval p < 0 then Some \<lparr>exit_code = -2, final = s0, report = []\<rparr>
                      else do {
                        (ret, s1) \<leftarrow> read_cfg (penv env) content s0;
                        if ret \<le> 0 then do { s2 \<leftarrow> clean_up s1; Some \<lparr>exit_code = 3, final = s2, report = []\<rparr> }
                        else rude_run env p ret s1
                      }))"

text \<open>The handler of SIGHUP, SIGINT and SIGTERM; restoring the scheduler does not affect the state.\<close>

definition rude_handler :: "int \<Rightarrow> rude \<Rightarrow> outcome option" where
  "rude_handler signum s = do {
     s' \<leftarrow> clean_up s;
     Some \<lparr>exit_code = signum * (-1), final = s', report = []\<rparr>
   }"

section \<open>print_results visits the done list\<close>

lemma print_rows_chain:
  "chain next_flow h p dn NULL \<Longrightarrow> print_rows h p acc = Some (acc @ map (\<lambda>a. row_of (the (h a))) dn)"
proof (induction dn arbitrary: p acc)
  case Nil
  then show ?case by (simp add: print_rows.simps)
next
  case (Cons a dn)
  then obtain c where "p = Some a" "h a = Some c" "chain next_flow h (next_flow c) dn NULL"
    by (auto split: option.splits)
  then show ?case using Cons.IH [of "next_flow c" "acc @ [row_of c]"] by (simp add: print_rows.simps [of h "Some a"])
qed

lemma print_results_rep: "flows_rep s fs dn \<Longrightarrow> print_results s = Some (map (\<lambda>a. row_of (blk s a)) dn)"
  unfolding print_results_def using print_rows_chain flows_repD(4) by fastforce

section \<open>The sockets\<close>

text \<open>
  The kernel: a new socket has a positive descriptor (standard input is open) that is not in use, or
  the call fails.
\<close>

definition in_use :: "int list \<Rightarrow> int list \<Rightarrow> int \<Rightarrow> bool" where
  "in_use os cs k \<longleftrightarrow> count (mset os) k \<noteq> count (mset cs) k"

definition sock_env_ok :: "rude_env \<Rightarrow> bool" where
  "sock_env_ok env \<longleftrightarrow> (\<forall>os cs. new_socket env os cs < 0 \<or>
     0 < new_socket env os cs \<and> \<not> in_use os cs (new_socket env os cs))"

definition all_calls_ok :: "rude_env \<Rightarrow> bool" where
  "all_calls_ok env \<longleftrightarrow> (\<forall>i. sigaction env i) \<and> (\<forall>os cs. 0 \<le> new_socket env os cs) \<and> (\<forall>k p. bind_ok env k p) \<and>
     (\<forall>k. 0 \<le> getfl env k) \<and> (\<forall>k f. 0 \<le> setfl env k f) \<and> (\<forall>n. malloc_buf env n)"

definition unsock :: "flow_cfg \<Rightarrow> flow_cfg" where
  "unsock c = c\<lparr>send_sock := 0\<rparr>"

lemma unsock_sel [simp]:
  "next_flow (unsock c) = next_flow c" "mod_flow (unsock c) = mod_flow c" "sequence_nmbr (unsock c) = sequence_nmbr c"
  "flow_stop (unsock c) = flow_stop c" "unsock (c\<lparr>send_sock := k\<rparr>) = unsock c" "sendable n (unsock c) = sendable n c"
  by (simp_all add: unsock_def)

text \<open>
  What the loop over the flows with the heads \<open>hs\<close> does: only the sockets of the heads change, the
  books of opened and closed sockets are kept, and the new sockets are all different.
\<close>

definition opened_for :: "addr list \<Rightarrow> rude \<Rightarrow> rude \<Rightarrow> bool" where
  "opened_for hs s s' \<longleftrightarrow>
     (\<forall>b. map_option unsock (heap s' b) = map_option unsock (heap s b)) \<and>
     (\<forall>b. b \<notin> set hs \<longrightarrow> heap s' b = heap s b) \<and>
     (let ks = filter (\<lambda>k. 0 < k) (map (\<lambda>a. send_sock (blk s' a)) hs) in
        mset (opened s') + mset (closed s) = mset (closed s') + mset (opened s) + mset ks \<and>
        distinct ks \<and> (\<forall>k \<in> set ks. \<not> in_use (opened s) (closed s) k)) \<and>
     head s' = head s \<and> done_ptr s' = done_ptr s \<and> tester_start s' = tester_start s \<and>
     max_packet_size s' = max_packet_size s \<and> buffer s' = buffer s \<and> ticks s' = ticks s \<and> sent s' = sent s"

lemma books_add:
  fixes A :: "'a multiset"
  assumes b: "A + B = C + D + K" and books: "D + E = B + F + k"
  shows "A + E = C + F + (k + K)"
proof -
  have "B + (A + E) = (A + B) + E" by (simp add: ac_simps)
  also have "\<dots> = C + K + (D + E)" unfolding b by (simp add: ac_simps)
  also have "\<dots> = B + (C + F + (k + K))" unfolding books by (simp add: ac_simps)
  finally show ?thesis by simp
qed

lemma opened_for_step:
  assumes c: "heap s a = Some c" and a: "a \<notin> set hs" and h1: "heap s1 = (heap s)(a \<mapsto> c\<lparr>send_sock := k\<rparr>)"
    and books: "mset (opened s1) + mset (closed s) = mset (closed s1) + mset (opened s) + mset (filter (\<lambda>k. 0 < k) [k])"
    and fresh: "0 < k \<Longrightarrow> \<not> in_use (opened s) (closed s) k"
    and frame: "head s1 = head s" "done_ptr s1 = done_ptr s" "tester_start s1 = tester_start s"
      "max_packet_size s1 = max_packet_size s" "buffer s1 = buffer s" "ticks s1 = ticks s" "sent s1 = sent s"
    and rest: "opened_for hs s1 s'"
  shows "opened_for (a # hs) s s'"
proof -
  let ?ks = "filter (\<lambda>k. 0 < k) (map (\<lambda>a. send_sock (blk s' a)) hs)"
  have h': "heap s' a = Some (c\<lparr>send_sock := k\<rparr>)" using rest a h1 by (simp add: opened_for_def)
  then have ks: "filter (\<lambda>k. 0 < k) (map (\<lambda>a. send_sock (blk s' a)) (a # hs)) = filter (\<lambda>k. 0 < k) [k] @ ?ks"
    by simp
  have cnt: "count (mset (opened s1)) x + count (mset (closed s)) x =
      count (mset (closed s1)) x + count (mset (opened s)) x + (if 0 < k \<and> x = k then 1 else 0)" for x
    using books [THEN arg_cong, of "\<lambda>M. count M x"] by (auto split: if_splits)
  have other: "in_use (opened s1) (closed s1) x = in_use (opened s) (closed s) x" if "\<not> (0 < k \<and> x = k)" for x
    using cnt [of x] that by (auto simp: in_use_def)
  have self: "in_use (opened s1) (closed s1) k" if "0 < k"
    using cnt [of k] fresh that by (auto simp: in_use_def)
  have free1: "\<not> in_use (opened s1) (closed s1) x" if "x \<in> set ?ks" for x
    using rest that unfolding opened_for_def Let_def by blast
  have notin: "k \<notin> set ?ks" if "0 < k" using self free1 that by blast
  have free: "\<not> in_use (opened s) (closed s) x" if "x \<in> set ?ks" for x
    using free1 [OF that] other [of x] notin that by auto
  have b: "mset (opened s') + mset (closed s1) = mset (closed s') + mset (opened s1) + mset ?ks" and d: "distinct ?ks"
    using rest unfolding opened_for_def Let_def by blast+
  have bk: "mset (opened s') + mset (closed s) = mset (closed s') + mset (opened s) + mset (filter (\<lambda>k. 0 < k) [k] @ ?ks)"
    unfolding mset_append by (rule books_add [OF b books])
  have un: "map_option unsock (heap s' b) = map_option unsock (heap s b)" for b
    using rest h1 c by (simp add: opened_for_def)
  have out: "heap s' b = heap s b" if "b \<notin> set (a # hs)" for b
    using rest h1 that by (simp add: opened_for_def)
  have "distinct (filter (\<lambda>k. 0 < k) [k] @ ?ks)" using d notin by simp
  moreover have "\<forall>x \<in> set (filter (\<lambda>k. 0 < k) [k] @ ?ks). \<not> in_use (opened s) (closed s) x"
    using free fresh by auto
  ultimately show ?thesis
    unfolding opened_for_def Let_def ks using un out bk rest frame by (simp add: opened_for_def)
qed

lemma opened_for_refl: "opened_for [] s s"
  by (simp add: opened_for_def)

lemma opened_for_head:
  assumes "opened_for hs s1 s'" and "a \<notin> set hs" and "heap s1 a = Some (c\<lparr>send_sock := k\<rparr>)"
  shows "send_sock (blk s' a) = k"
  using assms by (simp add: opened_for_def)

lemma open_loop_opened:
  assumes env: "sock_env_ok env" and "chain next_flow (heap s) p hs NULL"
  shows "\<exists>r s'. open_loop env p ret s = Some (r, s') \<and> opened_for hs s s' \<and> r \<le> ret \<and>
    (all_calls_ok env \<longrightarrow> r = ret) \<and> (r = ret \<longrightarrow> (\<forall>a \<in> set hs. 0 < send_sock (blk s' a)))"
  using assms(2)
proof (induction hs arbitrary: p ret s)
  case Nil
  then show ?case using opened_for_refl by (simp add: open_loop.simps)
next
  case (Cons a hs)
  from Cons.prems obtain c where c: "p = Some a" "heap s a = Some c" "chain next_flow (heap s) (next_flow c) hs NULL"
    by (auto split: option.splits)
  have a: "a \<notin> set hs" using chain_hd_notin [OF Cons.prems] .
  define k where "k = new_socket env (opened s) (closed s)"
  have k: "k < 0 \<or> 0 < k \<and> \<not> in_use (opened s) (closed s) k"
    using env unfolding sock_env_ok_def k_def by blast
  define ret1 where "ret1 = (if k < 0 \<or> \<not> bind_ok env k (flow_sport c) \<or> getfl env k < 0 \<or>
      setfl env k (or (getfl env k) 2048) < 0 then ret - 1 else ret)"
  define sk where "sk = (if 0 < k \<and> \<not> bind_ok env k (flow_sport c) then 0 else k)"
  define s1 where "s1 = (if k < 0 then store a (c\<lparr>send_sock := k\<rparr>) s
      else if \<not> bind_ok env k (flow_sport c)
      then (store a (c\<lparr>send_sock := 0\<rparr>) s)\<lparr>opened := opened s @ [k], closed := closed s @ [k]\<rparr>
      else (store a (c\<lparr>send_sock := k\<rparr>) s)\<lparr>opened := opened s @ [k],
             sockopts := sockopts s @ (if tos c > 0 then [(k, tos c mod 256)] else [])\<rparr>)"
  have loop: "open_loop env p ret s = open_loop env (next_flow c) ret1 s1"
    using c k unfolding s1_def ret1_def k_def by (subst open_loop.simps) (auto simp: store_def)
  have h1: "heap s1 = (heap s)(a \<mapsto> c\<lparr>send_sock := sk\<rparr>)" using k by (auto simp: s1_def sk_def)
  then have "chain next_flow (heap s1) (next_flow c) hs NULL" using c(3) a by (simp add: chain_upd_notin)
  from Cons.IH [OF this] obtain r s' where IH: "open_loop env (next_flow c) ret1 s1 = Some (r, s')" "opened_for hs s1 s'"
    "r \<le> ret1" "all_calls_ok env \<longrightarrow> r = ret1" "r = ret1 \<longrightarrow> (\<forall>a \<in> set hs. 0 < send_sock (blk s' a))" by blast
  have "opened_for (a # hs) s s'"
    by (rule opened_for_step [OF c(2) a h1 _ _ _ _ _ _ _ _ _ IH(2)]) (use k in \<open>auto simp: s1_def sk_def\<close>)
  moreover have "all_calls_ok env \<longrightarrow> ret1 = ret"
    by (auto simp: all_calls_ok_def ret1_def k_def not_le [symmetric])
  moreover have "0 < sk" if "ret1 = ret" using that k by (auto simp: ret1_def sk_def split: if_splits)
  moreover have "send_sock (blk s' a) = sk" using opened_for_head [OF IH(2) a] h1 by simp
  moreover have "ret1 \<le> ret" by (simp add: ret1_def)
  ultimately show ?case using loop IH by (intro exI [of _ r] exI [of _ s']) auto
qed

section \<open>Leaving the program\<close>

text \<open>Nothing is left behind: no block, no socket; the packets of each socket are numbered in order.\<close>

definition clean_exit :: "outcome \<Rightarrow> bool" where
  "clean_exit out \<longleftrightarrow> heap (final out) = Map.empty \<and> head (final out) = NULL \<and> done_ptr (final out) = NULL \<and>
     mset (opened (final out)) = mset (closed (final out)) \<and> (\<forall>k. consecutive (seqs k (final out)))"

definition balanced :: "rude \<Rightarrow> addr list list \<Rightarrow> bool" where
  "balanced s fs \<longleftrightarrow> mset (opened s) = mset (closed s) + mset (concat (map (\<lambda>a. socks (send_sock (blk s a))) (concat fs))) \<and>
     (\<forall>k. consecutive (seqs k s))"

lemma clean_up_balanced:
  assumes "flows_rep s fs dn" and "balanced s fs"
  obtains s' where "clean_up s = Some s'" and "clean_exit \<lparr>exit_code = ret, final = s', report = rows\<rparr>"
proof -
  obtain s' where s': "clean_up s = Some s'" "heap s' = Map.empty" "head s' = NULL" "done_ptr s' = NULL"
    "closed s' = closed s @ concat (map (\<lambda>a. socks (send_sock (blk s a))) (concat fs))"
    "sent s' = sent s" "opened s' = opened s"
    using clean_up_spec [OF assms(1)] by blast
  have "seqs k s' = seqs k s" for k by (simp add: seqs_def s')
  then have "clean_exit \<lparr>exit_code = ret, final = s', report = rows\<rparr>"
    using s' assms(2) by (simp add: clean_exit_def balanced_def)
  then show ?thesis using that s'(1) by blast
qed

lemma rude_exit1_clean:
  assumes "flows_rep s fs dn" and "balanced s fs"
  shows "\<exists>out. rude_exit1 ret s = Some out \<and> clean_exit out \<and> exit_code out = ret \<and>
    report out = map (\<lambda>a. row_of (blk s a)) dn"
proof -
  obtain s' where "clean_up s = Some s'"
    "clean_exit \<lparr>exit_code = ret, final = s', report = map (\<lambda>a. row_of (blk s a)) dn\<rparr>"
    using clean_up_balanced [OF assms] by blast
  then show ?thesis by (simp add: rude_exit1_def print_results_rep [OF assms(1)])
qed

lemma cfg_inv_balanced: "cfg_inv s fs \<Longrightarrow> balanced s fs"
proof -
  assume inv: "cfg_inv s fs"
  have "socks (send_sock (blk s a)) = []" if "a \<in> set (concat fs)" for a
    using cfg_invD(3) [OF inv, of _ a] that by (auto simp: block_ok_def socks_def)
  then have "concat (map (\<lambda>a. socks (send_sock (blk s a))) (concat fs)) = []"
    by (simp add: concat_eq_Nil_conv)
  moreover have "opened s = []" "closed s = []" "sent s = []"
    using cfg_invD(5) [OF inv] by (simp_all add: io_def init_state_def)
  ultimately show ?thesis unfolding balanced_def seqs_def consecutive_def by simp
qed

section \<open>From the configuration to the loop\<close>

lemma opened_flows:
  assumes inv: "cfg_inv s fs" and op: "opened_for (map hd fs) (s\<lparr>buffer := b\<rparr>) s'"
  shows "flows_rep s' fs []"
    and "\<And>f a. f \<in> set fs \<Longrightarrow> a \<in> set f \<Longrightarrow> unsock (blk s' a) = blk s a"
    and "\<And>f a. f \<in> set fs \<Longrightarrow> a \<in> set (tl f) \<Longrightarrow> send_sock (blk s' a) = 0"
    and "mset (opened s') = mset (closed s') + mset (filter (\<lambda>k. 0 < k) (map (\<lambda>f. send_sock (blk s' (hd f))) fs))"
    and "distinct (filter (\<lambda>k. 0 < k) (map (\<lambda>f. send_sock (blk s' (hd f))) fs))"
    and "sent s' = []" and "buffer s' = b" and "max_packet_size s' = max_packet_size s"
proof -
  note rep = cfg_invD(1) [OF inv]
  have un: "map_option unsock (heap s' b) = map_option unsock (heap s b)" for b
    using op by (simp add: opened_for_def)
  have sel: "map_option g (heap s' b) = map_option g (heap s b)" if "\<And>c. g (unsock c) = g c" for b and g :: "flow_cfg \<Rightarrow> 'x"
  proof -
    have "map_option g x = map_option g (map_option unsock x)" for x using that by (cases x) auto
    then show ?thesis using un [of b] by metis
  qed
  have ch: "chain g (heap s') p as q = chain g (heap s) p as q" if "\<And>c. g (unsock c) = g c" for g p as q
    by (intro chain_cong sel that)
  have "dom (heap s') = dom (heap s)"
    using sel [of "\<lambda>_. ()"] by (auto simp: dom_def) (metis option.map_disc_iff option.exhaust)+
  moreover have "head s' = head s" "done_ptr s' = done_ptr s" using op by (simp_all add: opened_for_def)
  ultimately show "flows_rep s' fs []" using rep by (simp add: flows_rep_def ch)
  have zero: "unsock (blk s a) = blk s a" if "f \<in> set fs" "a \<in> set f" for f a
    using cfg_invD(3) [OF inv that] by (simp add: block_ok_def unsock_def)
  show "unsock (blk s' a) = blk s a" if "f \<in> set fs" "a \<in> set f" for f a
    using un [of a] flows_rep_allocD [OF rep that] zero [OF that] by (cases "heap s' a"; cases "heap s a") auto
  show "send_sock (blk s' a) = 0" if f: "f \<in> set fs" and a: "a \<in> set (tl f)" for f a
  proof -
    obtain h t where ht: "f = h # t" using a by (cases f) auto
    have "a \<notin> set (map hd fs)"
    proof
      assume "a \<in> set (map hd fs)"
      then obtain g where g: "g \<in> set fs" "a = hd g" by auto
      then have "a \<in> set g" using flows_repD(2) [OF rep g(1)] by simp
      then have "g = f" using flows_rep_disjoint [OF rep g(1) f] a ht by simp
      then show False using g(2) a ht chain_distinct [OF flows_repD(3) [OF rep f]] by simp
    qed
    then have "heap s' a = heap s a" using op by (simp add: opened_for_def)
    then show ?thesis using cfg_invD(3) [OF inv f, of a] a ht by (simp add: block_ok_def)
  qed
  have "opened s = []" "closed s = []" "sent s = []"
    using cfg_invD(5) [OF inv] by (simp_all add: io_def init_state_def)
  then show "mset (opened s') = mset (closed s') + mset (filter (\<lambda>k. 0 < k) (map (\<lambda>f. send_sock (blk s' (hd f))) fs))"
    and "distinct (filter (\<lambda>k. 0 < k) (map (\<lambda>f. send_sock (blk s' (hd f))) fs))"
    and "sent s' = []" and "buffer s' = b" and "max_packet_size s' = max_packet_size s"
    using op by (simp_all add: opened_for_def Let_def comp_def)
qed

lemma concat_socks:
  assumes "\<And>f. f \<in> set fs \<Longrightarrow> f \<noteq> []" and "\<And>f a. f \<in> set fs \<Longrightarrow> a \<in> set (tl f) \<Longrightarrow> g a = (0::int)"
  shows "concat (map (\<lambda>a. socks (g a)) (concat fs)) = filter (\<lambda>k. 0 < k) (map (\<lambda>f. g (hd f)) fs)"
  using assms
proof (induction fs)
  case (Cons f fs)
  obtain a as where f: "f = a # as" using Cons.prems(1) [of f] by (cases f) auto
  have "concat (map (\<lambda>a. socks (g a)) as) = []"
    using Cons.prems(2) [of f] f by (auto simp: concat_eq_Nil_conv socks_def)
  moreover have "concat (map (\<lambda>a. socks (g a)) (concat fs)) = filter (\<lambda>k. 0 < k) (map (\<lambda>f. g (hd f)) fs)"
    by (rule Cons.IH) (use Cons.prems in \<open>auto\<close>)
  ultimately show ?case using f by (simp add: socks_def)
qed simp

lemma opened_balanced:
  assumes inv: "cfg_inv s fs" and op: "opened_for (map hd fs) (s\<lparr>buffer := b\<rparr>) s'"
  shows "balanced s' fs"
proof -
  note o = opened_flows [OF inv op]
  have "concat (map (\<lambda>a. socks (send_sock (blk s' a))) (concat fs)) =
      filter (\<lambda>k. 0 < k) (map (\<lambda>f. send_sock (blk s' (hd f))) fs)"
    by (rule concat_socks) (use flows_repD(2) [OF o(1)] o(3) in auto)
  then show ?thesis using o(4,6) by (simp add: balanced_def seqs_def consecutive_def)
qed

lemma block_sendable:
  assumes "block_ok c" and "block_size c \<le> int n" and "silent c \<longrightarrow> flow_stop c < next_tx c"
  shows "sendable n c"
  using assms by (cases "params c") (auto simp: block_ok_def block_size_def silent_def sendable_def)

lemma opened_run_inv:
  assumes inv: "cfg_inv s fs" and comp: "complete s fs" and m: "int sizeof_udp_data \<le> max_packet_size s"
    and op: "opened_for (map hd fs) (s\<lparr>buffer := replicate (nat (max_packet_size s)) 0\<rparr>) s'"
    and pos: "\<And>f. f \<in> set fs \<Longrightarrow> 0 < send_sock (blk s' (hd f))"
  shows "run_inv (s'\<lparr>ticks := n\<rparr>) fs []"
proof -
  note o = opened_flows [OF inv op]
  let ?s = "s'\<lparr>ticks := n\<rparr>"
  have rep: "flows_rep ?s fs []" using flows_rep_frame [OF o(1), of ?s] by simp
  have sq: "seqs k ?s = []" for k using o(6) by (simp add: seqs_def)
  have all: "filter (\<lambda>k. 0 < k) (map (\<lambda>f. send_sock (blk s' (hd f))) fs) = map (\<lambda>f. send_sock (blk s' (hd f))) fs"
    using pos by (simp add: filter_id_conv)
  have ne: "f \<noteq> []" if "f \<in> set fs" for f using flows_repD(2) [OF rep that] .
  have sock: "sock_of (view ?s f) = send_sock (blk s' (hd f))" if "f \<in> set fs" for f
    using ne [OF that] by (cases f) (simp_all add: view_def)
  have socks: "map (\<lambda>f. sock_of (view ?s f)) fs = map (\<lambda>f. send_sock (blk s' (hd f))) fs"
    using sock by (intro map_cong) auto
  have "flow_ok (length (buffer ?s)) (\<lambda>k. length (seqs k ?s)) (view ?s f)" if f: "f \<in> set fs" for f
  proof -
    obtain a as where fa: "f = a # as" using ne [OF f] by (cases f) auto
    have blk: "sendable (nat (max_packet_size s)) (blk s' x) \<and> sequence_nmbr (blk s' x) = 0" if x: "x \<in> set f" for x
    proof -
      have "block_ok (blk s x)" using cfg_invD(3) [OF inv f x] .
      moreover have "sendable (nat (max_packet_size s)) (blk s x)"
        using comp f x m by (intro block_sendable [OF calculation]) (auto simp: complete_def)
      ultimately have "sendable (nat (max_packet_size s)) (unsock (blk s' x)) \<and> sequence_nmbr (unsock (blk s' x)) = 0"
        unfolding o(2) [OF f x] by (simp add: block_ok_def)
      then show ?thesis by simp
    qed
    show ?thesis
      using blk pos [OF f] o(3) [OF f] fa by (auto simp: flow_ok_def sq o(7) view_def)
  qed
  then have "flows_ok (length (buffer ?s)) (\<lambda>k. length (seqs k ?s)) (map (view ?s) fs)"
    unfolding flows_ok_def map_map comp_def socks using o(5) [unfolded all] by simp
  moreover have "mset (opened ?s) = mset (closed ?s) + mset (map (\<lambda>f. sock_of (view ?s f)) fs)"
    unfolding socks using o(4) [unfolded all] by simp
  ultimately show ?thesis using rep m by (simp add: run_inv_def sq consecutive_def o(7) del: mset_map)
qed

section \<open>The whole program\<close>

text \<open>The clock passes every instant for good.\<close>

definition clock_ok :: "(nat \<Rightarrow> timeval) \<Rightarrow> bool" where
  "clock_ok clk \<longleftrightarrow> (\<forall>T. \<exists>N. \<forall>n \<ge> N. T < clk n)"

lemma stops_by_exists: "\<exists>T. stops_by T s fs"
proof -
  let ?S = "flow_stop ` (\<Union>f \<in> set fs. set (view s f))"
  have "finite ?S" by simp
  then have "\<forall>t \<in> ?S. t \<le> Max (insert tv_zero ?S)" by simp
  then show ?thesis unfolding stops_by_def by (intro exI [of _ "Max (insert tv_zero ?S)"]) blast
qed

lemma main_loop_balanced:
  assumes "run_inv s fs dn" and "clock_ok (clock nenv)"
  obtains s' dn' where "main_loop nenv s = Some s'" and "flows_rep s' [] dn'" and "balanced s' []"
    and "dom (heap s') = dom (heap s)"
proof -
  obtain T where T: "stops_by T s fs" using stops_by_exists by blast
  obtain N where N: "\<And>n. N \<le> n \<Longrightarrow> T < clock nenv n" using assms(2) unfolding clock_ok_def by blast
  obtain s' dn' where s': "main_loop nenv s = Some s'" "run_inv s' [] dn'" "dom (heap s') = dom (heap s)"
    using main_loop_ends [OF assms(1) T N] by blast
  have "flows_rep s' [] dn'" "balanced s' []" using run_invD [OF s'(2)] by (simp_all add: balanced_def)
  then show ?thesis using that s' by blast
qed

text \<open>What \<^verbatim>\<open>init_rude\<close> leaves: on success the loop can start, otherwise everything can be freed.\<close>

lemma init_rude_cases:
  assumes inv: "cfg_inv s fs" and comp: "complete s fs" and m: "int sizeof_udp_data \<le> max_packet_size s"
    and env: "sock_env_ok env"
  obtains (fail) r s' where "init_rude env s = Some (r, None, s')" and "r \<noteq> 0" and "flows_rep s' fs []" and "balanced s' fs"
      and "\<not> all_calls_ok env"
  | (ok) w s' where "init_rude env s = Some (0, w, s')" and "run_inv s' fs []" and "flows_rep s' fs []" and "balanced s' fs"
proof (cases "malloc_buf env (max_packet_size s)")
  case False
  then show ?thesis
    using fail [of _ s] m cfg_invD(1) [OF inv] cfg_inv_balanced [OF inv]
    by (auto simp: init_rude_def sizeof_udp_data_def all_calls_ok_def)
next
  case True
  let ?s = "s\<lparr>buffer := replicate (nat (max_packet_size s)) 0\<rparr>"
  have "chain next_flow (heap ?s) (head ?s) (map hd fs) NULL" using flows_repD(1) [OF cfg_invD(1) [OF inv]] by simp
  from open_loop_opened [OF env this, of 0] obtain r s1 where
    o: "open_sockets env ?s = Some (r, s1)" "opened_for (map hd fs) ?s s1"
      "r = 0 \<longrightarrow> (\<forall>a \<in> set (map hd fs). 0 < send_sock (blk s1 a))" "all_calls_ok env \<longrightarrow> r = 0"
    unfolding open_sockets_def by auto
  have mpos: "\<not> max_packet_size s \<le> 0" using m by (simp add: sizeof_udp_data_def)
  note rep = opened_flows(1) [OF inv o(2)] and bal = opened_balanced [OF inv o(2)]
  show ?thesis
  proof (cases "r = 0")
    case False
    then show ?thesis using fail [OF _ _ rep bal, of "-4"] o(1,4) True mpos by (simp add: init_rude_def)
  next
    case True': True
    let ?s2 = "s1\<lparr>ticks := Suc (ticks s1)\<rparr>"
    have run: "run_inv ?s2 fs []"
      by (rule opened_run_inv [OF inv comp m o(2)]) (use o(3) True' in simp)
    have rep2: "flows_rep ?s2 fs []" using run_invD(1) [OF run] .
    have bal2: "balanced ?s2 fs" using bal by (simp add: balanced_def seqs_def)
    show ?thesis
      using o(1) True True' mpos ok [OF _ run rep2 bal2]
      by (cases "timer_less (clock (net env) (ticks s1)) (tester_start s1)") (auto simp: init_rude_def Let_def)
  qed
qed

lemma rude_opts_script:
  "scriptfile (rude_opts env argc xs p) = Some content \<Longrightarrow>
     scriptfile p = Some content \<or> (\<exists>name err. fopen (penv env) name = Some (content, err))"
proof (induction xs arbitrary: p)
  case (Cons x xs)
  show ?case
  proof (cases "retval p = 0")
    case True
    with Cons.IH [of "rude_opt env argc x p"] Cons.prems
    show ?thesis
      by (auto simp: rude_opt_def only_option_def Let_def split: if_splits option.splits)
  next
    case False
    then show ?thesis using Cons.prems by simp
  qed
qed simp

lemma clean_exit_init: "clean_exit \<lparr>exit_code = n, final = init_state, report = []\<rparr>"
  by (simp add: clean_exit_def init_state_def seqs_def consecutive_def)

text \<open>The ways out once the configuration has been read.\<close>

lemma rude_exit_clean:
  assumes "flows_rep s fs dn" and "balanced s fs"
  shows "\<exists>out. rude_exit env prio ret s = Some out \<and> clean_exit out \<and> exit_code out \<in> {ret, -1}"
proof -
  obtain out where "rude_exit1 ret s = Some out" "clean_exit out" "exit_code out = ret"
    using rude_exit1_clean [OF assms, of ret] by blast
  moreover obtain out' where "rude_exit1 (-1) s = Some out'" "clean_exit out'" "exit_code out' = -1"
    using rude_exit1_clean [OF assms, of "-1"] by blast
  ultimately show ?thesis by (simp add: rude_exit_def)
qed

lemma rude_run_clean:
  assumes inv: "cfg_inv s1 fs" and comp: "complete s1 fs" and m: "int sizeof_udp_data \<le> max_packet_size s1"
    and env: "sock_env_ok env" and clk: "clock_ok (clock (net env))"
  shows "\<exists>out. rude_run env p ret s1 = Some out \<and> clean_exit out \<and> exit_code out \<in> {ret, -1}"
proof (cases "sigaction env 1 \<and> sigaction env 2 \<and> sigaction env 15")
  case False
  then show ?thesis
    using rude_exit1_clean [OF cfg_invD(1) [OF inv] cfg_inv_balanced [OF inv], of "-1"]
    unfolding rude_run_def by auto
next
  case sig: True
  show ?thesis
  proof (rule init_rude_cases [OF inv comp m env])
    fix r s'
    assume "init_rude env s1 = Some (r, None, s')" "r \<noteq> 0" "flows_rep s' fs []" "balanced s' fs" "\<not> all_calls_ok env"
    moreover from this obtain out where "rude_exit1 (-1) s' = Some out" "clean_exit out" "exit_code out = -1"
      using rude_exit1_clean [of s' fs "[]" "-1"] by blast
    ultimately show ?thesis using sig by (simp add: rude_run_def)
  next
    fix w s'
    assume i: "init_rude env s1 = Some (0, w, s')" and run: "run_inv s' fs []" and rep: "flows_rep s' fs []"
      and bal: "balanced s' fs"
    obtain s3 dn where l: "main_loop (net env) s' = Some s3" "flows_rep s3 [] dn" "balanced s3 []"
      "dom (heap s3) = dom (heap s')"
      by (rule main_loop_balanced [OF run clk], rule that)
    obtain out where "rude_exit env (priority p) (-1) s' = Some out" "clean_exit out" "exit_code out \<in> {-1, -1}"
      using rude_exit_clean [OF rep bal] by blast
    moreover obtain out' where "rude_exit env (priority p) ret s3 = Some out'" "clean_exit out'" "exit_code out' \<in> {ret, -1}"
      using rude_exit_clean [OF l(2,3)] by blast
    ultimately show ?thesis using i l(1) sig by (simp add: rude_run_def)
  qed
qed

section \<open>An environment\<close>

text \<open>One configuration file \<^verbatim>\<open>f\<close>, every system call succeeds, the clock ticks once a second.\<close>

definition example_rude :: "string \<Rightarrow> rude_env" where
  "example_rude cfg = \<lparr>penv = example_env\<lparr>fopen := (\<lambda>n. if n = ''f'' then Some (cfg, False) else None)\<rparr>,
     net = example_net\<lparr>clock := (\<lambda>n. Timeval (1000 + int n) 0)\<rparr>, getuid = 1000, sigaction = (\<lambda>_. True),
     new_socket = (\<lambda>os cs. fold max (os @ cs) 2 + 1), bind_ok = (\<lambda>_ _. True), getfl = (\<lambda>_. 2),
     setfl = (\<lambda>_ _. 0), malloc_buf = (\<lambda>_. True), setscheduler = (\<lambda>_. True)\<rparr>"

definition small_cfg :: string where
  "small_cfg = concat (map (\<lambda>l. l @ [newline])
     [''START NOW'', ''1000 1 ON 3001 h:80 CBR 5 20'', ''9000 1 OFF''])"

lemma fold_max_above_init: "m \<le> fold max xs (m::int)"
  by (induction xs arbitrary: m) (auto intro: order_trans [OF max.cobounded2])

lemma fold_max_above: "k \<in> set xs \<Longrightarrow> k \<le> fold max xs (m::int)"
  by (induction xs arbitrary: m) (auto intro: order_trans [OF _ fold_max_above_init])

lemma example_env_facts:
  "env_ok (penv (example_rude cfg))" "sock_env_ok (example_rude cfg)" "clock_ok (clock (net (example_rude cfg)))"
proof -
  show "env_ok (penv (example_rude cfg))"
    using env_ok_example by (simp add: example_rude_def env_ok_def)
  have "count (mset os) (fold max (os @ cs) 2 + 1) = count (mset cs) (fold max (os @ cs) (2::int) + 1)" for os cs
  proof -
    have "fold max (os @ cs) 2 + 1 \<notin> set (os @ cs)" using fold_max_above [of _ "os @ cs" 2] by fastforce
    then show ?thesis by (metis Un_iff count_mset_0_iff set_append)
  qed
  moreover have "0 < fold max (os @ cs) (2::int) + 1" for os cs
    using fold_max_above_init [of 2 "os @ cs"] by linarith
  ultimately show "sock_env_ok (example_rude cfg)"
    unfolding sock_env_ok_def in_use_def example_rude_def by auto
  have "T < Timeval (1000 + int n) 0" if "nat (tv_sec T) \<le> n" for T n
  proof -
    have "tv_sec T < 1000 + int n" using that by linarith
    then show ?thesis by (simp add: less_timeval_def timer_less_def del: timer_less_iff)
  qed
  then show "clock_ok (clock (net (example_rude cfg)))"
    unfolding clock_ok_def example_rude_def by auto
qed

section \<open>Properties of the program\<close>






end
