(* ===== verification/C_Net.thy ===== *)
theory C_Net
  imports C_Library
begin

text \<open>
  The number conversions and address functions of the C library that \<^verbatim>\<open>crude\<close> calls: \<^verbatim>\<open>strtol\<close>,
  \<^verbatim>\<open>strtoul\<close>, the integer conversions of \<^verbatim>\<open>printf\<close>, \<^verbatim>\<open>inet_ntoa\<close> and \<^verbatim>\<open>inet_addr\<close>, on a little endian
  machine with 64 bit longs.
\<close>

section \<open>Reading numbers\<close>

text \<open>Base 0: the prefix decides. A lone \<open>0x\<close> is the number 0 followed by an \<open>x\<close>.\<close>

definition scan_base0 :: "string \<Rightarrow> (bool \<times> int \<times> string) option" where
  "scan_base0 s =
     (case scan_any s of
        Some (neg, n, r) \<Rightarrow>
          (let t = dropWhile isspace s; u = snd (scan_sign t)
           in if length u \<ge> 2 \<and> hd u = CHR ''0'' \<and> tolower (u ! 1) = CHR ''x'' \<and> takeWhile isxdigit (drop 2 u) = []
              then Some (neg, 0, tl u) else Some (neg, n, r))
      | None \<Rightarrow> None)"

text \<open>\<^verbatim>\<open>strtol(s, NULL, 0)\<close>: the value, and whether \<^verbatim>\<open>errno\<close> is set.\<close>

definition strtol0 :: "string \<Rightarrow> int \<times> bool" where
  "strtol0 s = (case scan_base0 s of
      None \<Rightarrow> (0, False)
    | Some (neg, n, _) \<Rightarrow> (clamp_long (apply_sign neg n), clamp_long (apply_sign neg n) \<noteq> apply_sign neg n))"

text \<open>\<^verbatim>\<open>strtoul(s, &e, 10)\<close>: the value and the text from \<open>e\<close> on.\<close>

definition strtoul10 :: "string \<Rightarrow> 64 word \<times> string" where
  "strtoul10 s = (case scan_dec s of None \<Rightarrow> (0, s) | Some (neg, n, r) \<Rightarrow> (word_of_int (strtoul_val neg n), r))"

lemma strtoul10_rest_length: "length (snd (strtoul10 s)) \<le> length s"
proof -
  have "length (snd (scan_sign t)) \<le> length t" for t
    by (auto simp: scan_sign_def split: list.splits)
  from this [of "dropWhile isspace s"] have "length (snd (scan_sign (dropWhile isspace s))) \<le> length s"
    using length_dropWhile_le [of isspace s] by simp
  then have "length (dropWhile isdigit (snd (scan_sign (dropWhile isspace s)))) \<le> length s"
    using length_dropWhile_le [of isdigit "snd (scan_sign (dropWhile isspace s))"] by simp
  then show ?thesis by (auto simp: strtoul10_def scan_dec_def Let_def split: prod.splits)
qed

section \<open>Printing numbers\<close>

fun dec :: "nat \<Rightarrow> string" where
  "dec n = (if n < 10 then [] else dec (n div 10)) @ [char_of (48 + n mod 10)]"

declare dec.simps [simp del]

text \<open>\<^verbatim>\<open>%ld\<close> and \<^verbatim>\<open>%06ld\<close>\<close>

definition show_long :: "int \<Rightarrow> string" where
  "show_long i = (if i < 0 then ''-'' else []) @ dec (nat \<bar>i\<bar>)"

definition show_long6 :: "int \<Rightarrow> string" where
  "show_long6 i = (let sgn = (if i < 0 then ''-'' else []); d = dec (nat \<bar>i\<bar>)
                   in sgn @ replicate (6 - length sgn - length d) (CHR ''0'') @ d)"

lemma isdigit_char_of: "(n::nat) < 10 \<Longrightarrow> isdigit (char_of (48 + n))"
  by (simp add: isdigit_def)

lemma digit_val_char_of: "(n::nat) < 10 \<Longrightarrow> digit_val (char_of (48 + n)) = int n"
  by (simp add: digit_val_def)

lemma dec_digits: "\<forall>c \<in> set (dec n). isdigit c"
proof (induction n rule: dec.induct)
  case (1 n)
  then show ?case
    by (subst dec.simps) (use isdigit_char_of [of "n mod 10"] in \<open>auto split: if_splits\<close>)
qed

lemma dec_nonempty [simp]: "dec n \<noteq> []"
  by (subst dec.simps) simp

lemma number_append1: "number b dv (ds @ [d]) = b * number b dv ds + dv d"
  by (simp add: number_def)

lemma number_dec: "number 10 digit_val (dec n) = int n"
proof (induction n rule: dec.induct)
  case (1 n)
  then show ?case
    by (subst dec.simps) (auto simp: number_append1 digit_val_char_of number_def [of _ _ "[]"] zdiv_int zmod_int)
qed

text \<open>A printed number that is not 0 does not start with the digit 0, so it is read in base 10.\<close>

lemma hd_dec: "0 < n \<Longrightarrow> hd (dec n) \<noteq> CHR ''0''"
proof (induction n rule: dec.induct)
  case (1 n)
  show ?case
  proof (cases "n < 10")
    case True
    then have "digit_val (char_of (48 + n)) \<noteq> digit_val (CHR ''0'')"
      using 1(2) digit_val_char_of [of n] by (simp add: digit_val_def)
    then have "char_of (48 + n) \<noteq> CHR ''0''" by metis
    with True show ?thesis by (subst dec.simps) simp
  next
    case False
    then have "hd (dec (n div 10)) \<noteq> CHR ''0''" using 1 by auto
    with False show ?thesis by (subst dec.simps) simp
  qed
qed

section \<open>Internet addresses\<close>

text \<open>
  An address in network byte order, as an \<^verbatim>\<open>in_addr_t\<close>: its first byte is the least significant one.
\<close>

definition addr_bytes :: "32 word \<Rightarrow> byte list" where
  "addr_bytes a = [ucast a, ucast (drop_bit 8 a), ucast (drop_bit 16 a), ucast (drop_bit 24 a)]"

definition inet_ntoa :: "32 word \<Rightarrow> string" where
  "inet_ntoa a = (case map (\<lambda>b. dec (unat b)) (addr_bytes a) of
      [p, q, r, s] \<Rightarrow> p @ ''.'' @ q @ ''.'' @ r @ ''.'' @ s | _ \<Rightarrow> [])"

text \<open>
  At most \<open>k + 1\<close> numbers separated by dots: all but the last below 256, followed by the end of the
  string or white space.
\<close>

primrec inet_parts :: "nat \<Rightarrow> string \<Rightarrow> int list option" where
  "inet_parts 0 s =
     (if s = [] \<or> \<not> isdigit (hd s) then None
      else case scan_base0 s of
             Some (_, v, r) \<Rightarrow> if r = [] \<or> isspace (hd r) then Some [v] else None
           | None \<Rightarrow> None)"
| "inet_parts (Suc k) s =
     (if s = [] \<or> \<not> isdigit (hd s) then None
      else case scan_base0 s of
             Some (_, v, r) \<Rightarrow>
               if r = [] \<or> isspace (hd r) then Some [v]
               else if hd r = CHR ''.'' \<and> v < 256 then map_option ((#) v) (inet_parts k (tl r)) else None
           | None \<Rightarrow> None)"

text \<open>The last number fills the remaining bytes. The result \<^verbatim>\<open>INADDR_NONE\<close> reports a failure.\<close>

definition INADDR_NONE :: "32 word" where "INADDR_NONE = 0xFFFFFFFF"

definition inet_addr :: "string \<Rightarrow> 32 word" where
  "inet_addr s =
     (case inet_parts 3 s of
        Some [v] \<Rightarrow> if v < 2 ^ 32 then htonl (word_of_int v) else INADDR_NONE
      | Some [a, v] \<Rightarrow> if v < 2 ^ 24 then htonl (word_of_int (a * 2 ^ 24 + v)) else INADDR_NONE
      | Some [a, b, v] \<Rightarrow> if v < 2 ^ 16 then htonl (word_of_int (a * 2 ^ 24 + b * 2 ^ 16 + v)) else INADDR_NONE
      | Some [a, b, c, v] \<Rightarrow>
          if v < 2 ^ 8 then htonl (word_of_int (a * 2 ^ 24 + b * 2 ^ 16 + c * 2 ^ 8 + v)) else INADDR_NONE
      | _ \<Rightarrow> INADDR_NONE)"

section \<open>Division of numbers that are not negative\<close>

lemma c_div_nonneg: "0 \<le> a \<Longrightarrow> 0 < b \<Longrightarrow> c_div a b = a div b"
  by (cases "a = 0") (simp_all add: c_div_def sgn_if)

lemma c_mod_nonneg: "0 \<le> a \<Longrightarrow> 0 < b \<Longrightarrow> c_mod a b = a mod b"
  by (simp add: c_mod_def c_div_nonneg minus_div_mult_eq_mod)

end
