(* ===== verification/Crude_Defs.thy ===== *)
theory Crude_Defs
  imports Flow_Txmit C_Net C_Getopt
begin

text \<open>
  \<^verbatim>\<open>rude/crude/main.c\<close>, the receiver: statistics of the flows, recording to a file, printing, decoding
  a recorded file. Signed longs are integers, unsigned longs 64 bit words. What the kernel delivers
  is a list of receive events; when it is used up the program waits in \<^verbatim>\<open>recvfrom\<close>.
\<close>

section \<open>Data\<close>

record flow_stat =
  flowid :: "64 word"
  seqmin :: "64 word"
  seq :: "64 word"
  rec :: "64 word"
  oos :: "64 word"
  js_sec :: int
  js_usec :: int
  ds_sec :: int
  ds_usec :: int
  last_tx_sec :: int
  last_tx_usec :: int
  last_rx_sec :: int
  last_rx_usec :: int
  last_delay_sec :: int
  last_delay_usec :: int
  first_rx_sec :: int
  first_rx_usec :: int
  max_jitter_sec :: int
  max_jitter_usec :: int
  s_size :: "64 word"

definition ULONG_MAX :: "64 word" where "ULONG_MAX = 0xFFFFFFFFFFFFFFFF"

text \<open>
  The result of one \<^verbatim>\<open>recvfrom\<close>, with the clock reading that follows it. A datagram longer than the
  buffer is cut off.
\<close>

datatype recv = Recv_error | Received (r_bytes: "byte list") (r_src: "32 word") (r_sport: "16 word") (r_time: timeval)

definition rec_bytes :: "recv \<Rightarrow> int" where
  "rec_bytes e = (case e of Recv_error \<Rightarrow> -1 | Received bs _ _ _ \<Rightarrow> min PMAXSIZE (int (length bs)))"

text \<open>
  The global variables, with the receive buffer of the three loops, the text written to standard
  output, the content of the output file and the descriptors closed so far.
\<close>

record crude =
  main_socket :: int
  main_file :: int
  pkt_count :: "64 word"
  flows :: "flow_stat list"
  rbuf :: "nat \<Rightarrow> byte"
  outp :: "string list"
  ofile :: "byte list"
  cclosed :: "int list"

text \<open>The receive buffer keeps what the new datagram does not overwrite.\<close>

definition recv_into :: "byte list \<Rightarrow> (nat \<Rightarrow> byte) \<Rightarrow> nat \<Rightarrow> byte" where
  "recv_into bs buf = (\<lambda>i. if i < length bs \<and> int i < PMAXSIZE then bs ! i else buf i)"

definition header_of :: "(nat \<Rightarrow> byte) \<Rightarrow> byte list" where
  "header_of buf = map buf [0..<sizeof_udp_data]"

text \<open>A loop over receive events: it returned, with the events left over, or it is still waiting.\<close>

datatype 's loop_result = Returned 's "recv list" | Waiting 's

section \<open>Runtime statistics\<close>

definition new_flow :: "flow_stat \<Rightarrow> 64 word \<Rightarrow> flow_stat" where
  "new_flow g i = g\<lparr>flowid := i, rec := 0, oos := 0, seq := ULONG_MAX, seqmin := ULONG_MAX,
     js_sec := 0, js_usec := 0, ds_sec := 0, ds_usec := 0, s_size := 0, last_delay_sec := 0,
     last_delay_usec := 0, max_jitter_sec := 0, max_jitter_usec := 0\<rparr>"

text \<open>The sequence number: the new statistics, and whether this is the first packet of the flow.\<close>

definition note_seq :: "timeval \<Rightarrow> 64 word \<Rightarrow> flow_stat \<Rightarrow> flow_stat \<times> bool" where
  "note_seq time1 sq f =
     (if sq \<le> seq f then
        (let f1 = f\<lparr>oos := oos f + 1\<rparr>
         in if sq < seqmin f1 then
              (let f2 = f1\<lparr>seqmin := sq\<rparr>
               in if rec f2 = 1
                  then (f2\<lparr>oos := oos f2 - 1, first_rx_sec := tv_sec time1, first_rx_usec := tv_usec time1,
                           seq := sq\<rparr>, True)
                  else (f2, False))
            else (f1, False))
      else (f\<lparr>seq := sq\<rparr>, False))"

text \<open>\<open>We need the absolute value\<close>\<close>

definition jitter_abs :: "int \<Rightarrow> int \<Rightarrow> int \<times> int" where
  "jitter_abs jitter_s jitter_us =
     (let (s, us) = (if jitter_s < 0 then (- jitter_s, - jitter_us) else (jitter_s, jitter_us))
      in if us < 0 then (if s = 0 then (s, - us) else (s - 1, us + 1000000)) else (s, us))"

definition add_delay :: "int \<Rightarrow> int \<Rightarrow> flow_stat \<Rightarrow> flow_stat" where
  "add_delay delay_s delay_us f =
     (let f1 = f\<lparr>ds_sec := ds_sec f + delay_s, ds_usec := ds_usec f + delay_us\<rparr>;
          (jitter_s, jitter_us) = jitter_abs (delay_s - last_delay_sec f1) (delay_us - last_delay_usec f1);
          f2 = f1\<lparr>js_sec := js_sec f1 + jitter_s, js_usec := js_usec f1 + jitter_us\<rparr>
      in if jitter_s > max_jitter_sec f2 \<or> jitter_s = max_jitter_sec f2 \<and> jitter_us > max_jitter_usec f2
         then f2\<lparr>max_jitter_sec := jitter_s, max_jitter_usec := jitter_us\<rparr> else f2)"

text \<open>One packet of a flow: sequence number and send time from the header, receive time, length.\<close>

record packet =
  p_seq :: "64 word"
  p_tx_s :: int
  p_tx_us :: int
  p_time :: timeval
  p_len :: int

definition stat_packet :: "packet \<Rightarrow> flow_stat \<Rightarrow> flow_stat" where
  "stat_packet p f0 =
     (let f = f0\<lparr>rec := rec f0 + 1\<rparr>;
          delay_s = tv_sec (p_time p) - p_tx_s p;
          delay_us = tv_usec (p_time p) - p_tx_us p;
          (f1, first) = note_seq (p_time p) (p_seq p) f;
          f2 = (if first then f1 else add_delay delay_s delay_us f1)
      in f2\<lparr>last_tx_sec := p_tx_s p, last_tx_usec := p_tx_us p,
            last_rx_sec := tv_sec (p_time p), last_rx_usec := tv_usec (p_time p),
            last_delay_sec := delay_s, last_delay_usec := delay_us,
            s_size := s_size f2 + word_of_int (p_len p)\<rparr>)"

definition packet_of :: "byte list \<Rightarrow> timeval \<Rightarrow> int \<Rightarrow> packet" where
  "packet_of h t n = \<lparr>p_seq = ucast (ntohl (get_ulong off_sequence_number h)),
     p_tx_s = uint (ntohl (get_ulong off_tx_time_seconds h)),
     p_tx_us = uint (ntohl (get_ulong off_tx_time_useconds h)), p_time = t, p_len = n\<rparr>"

text \<open>The first flow with the id; \<^verbatim>\<open>i == nflows\<close> if there is none.\<close>

fun find_flow :: "64 word \<Rightarrow> flow_stat list \<Rightarrow> nat" where
  "find_flow i [] = 0"
| "find_flow i (f # fs) = (if flowid f = i then 0 else Suc (find_flow i fs))"

definition hdr_flowid :: "byte list \<Rightarrow> 64 word" where
  "hdr_flowid h = ucast (ntohl (get_ulong off_flow_id h))"

text \<open>One round of the loop; the result tells whether it reaches the end of the body or continues early.\<close>

definition stats_round :: "recv \<Rightarrow> crude \<Rightarrow> crude \<times> bool" where
  "stats_round e s =
     (if rec_bytes e \<le> 0 then (s\<lparr>pkt_count := pkt_count s + 1\<rparr>, True)
      else (let s1 = s\<lparr>rbuf := recv_into (r_bytes e) (rbuf s)\<rparr>;
                h = header_of (rbuf s1);
                i = find_flow (hdr_flowid h) (flows s1)
            in if i = length (flows s1) then (s1, False)
               else (s1\<lparr>flows := (flows s1)[i := stat_packet (packet_of h (r_time e) (rec_bytes e)) (flows s1 ! i)],
                        pkt_count := pkt_count s1 + 1\<rparr>, True)))"

fun stats_loop :: "64 word \<Rightarrow> recv list \<Rightarrow> crude \<Rightarrow> crude loop_result" where
  "stats_loop limit [] s = Waiting s"
| "stats_loop limit (e # es) s =
     (case stats_round e s of (s1, fin) \<Rightarrow>
        if fin \<and> limit \<noteq> 0 \<and> pkt_count s1 \<ge> limit then Returned s1 es else stats_loop limit es s1)"

definition runtime_stats :: "64 word \<Rightarrow> recv list \<Rightarrow> crude \<Rightarrow> crude loop_result" where
  "runtime_stats limit es s = stats_loop limit es (s\<lparr>rbuf := (\<lambda>_. 0)\<rparr>)"

section \<open>print_stats\<close>

text \<open>
  The figures printed for a flow; the throughput is printed as the quotient of bytes and interval.
  Between a \<^verbatim>\<open>long long\<close> and an \<^verbatim>\<open>unsigned long\<close>, C divides as unsigned 64 bit numbers.
\<close>

definition udiv :: "int \<Rightarrow> 64 word \<Rightarrow> int" where
  "udiv a n = sint ((word_of_int a :: 64 word) div n)"

definition umod :: "int \<Rightarrow> 64 word \<Rightarrow> 64 word" where
  "umod a n = (word_of_int a :: 64 word) mod n"

text \<open>\<^verbatim>\<open>sec = a / n; usec = (b + 1000000 * (a % n)) / n; sec += usec / 1000000; usec %= 1000000\<close>\<close>

definition average :: "int \<Rightarrow> int \<Rightarrow> 64 word \<Rightarrow> int \<times> int" where
  "average a b n =
     (let sec = udiv a n;
          usec = sint ((word_of_int b + 1000000 * umod a n) div n)
      in (sec + c_div usec 1000000, c_mod usec 1000000))"

text \<open>\<open>sec and usec must have same sign for output\<close>; sign and absolute values.\<close>

definition same_sign :: "int \<Rightarrow> int \<Rightarrow> int \<times> int" where
  "same_sign sec usec =
     (if sec > 0 \<and> usec < 0 then (sec - 1, 1000000 + usec)
      else if sec < 0 \<and> usec > 0 then (sec + 1, -1000000 + usec)
      else (sec, usec))"

definition sign_abs :: "int \<times> int \<Rightarrow> bool \<times> int \<times> int" where
  "sign_abs su = (case su of (sec, usec) \<Rightarrow>
     if sec < 0 \<or> usec < 0 then (True, \<bar>sec\<bar>, \<bar>usec\<bar>) else (False, sec, usec))"

record figures =
  f_delay :: "bool \<times> int \<times> int"
  f_jitter :: "int \<times> int"
  f_max_jitter :: "int \<times> int"
  f_throughput :: "64 word \<times> int \<times> int"

record stat_report =
  sr_flow :: "64 word"
  sr_received :: "64 word"
  sr_oos :: "64 word"
  sr_lost :: "64 word"
  sr_size :: "64 word"
  sr_seqs :: "(64 word \<times> 64 word) option"
  sr_figures :: "figures option"

definition flow_report :: "flow_stat \<Rightarrow> stat_report" where
  "flow_report f =
     \<lparr>sr_flow = flowid f, sr_received = rec f, sr_oos = oos f,
      sr_lost = (if rec f > 0 then seq f - seqmin f + 1 - rec f else 0),
      sr_size = s_size f,
      sr_seqs = (if rec f > 0 then Some (seqmin f, seq f) else None),
      sr_figures =
        (if rec f < 2 then None
         else Some \<lparr>f_delay = sign_abs (case average (ds_sec f) (ds_usec f) (rec f) of (s, us) \<Rightarrow> same_sign s us),
                    f_jitter = average (js_sec f) (js_usec f) (rec f - 1),
                    f_max_jitter = (max_jitter_sec f, max_jitter_usec f),
                    f_throughput = (s_size f, last_rx_sec f - first_rx_sec f, last_rx_usec f - first_rx_usec f)\<rparr>)\<rparr>"

definition print_stats :: "crude \<Rightarrow> stat_report list" where
  "print_stats s = map flow_report (flows s)"

end
