(* ===== verification/Crude_Io.thy ===== *)
theory Crude_Io
  imports Crude_Defs
begin

text \<open>
  \<^verbatim>\<open>rude/crude/main.c\<close>, second part: recording, printing and decoding packets, the socket, the command
  line, \<^verbatim>\<open>main\<close> and the signal handler.
\<close>

section \<open>The environment\<close>

text \<open>
  The system calls. \<open>write_n\<close> is the number of bytes written, given the size of the file and the
  length of the data; \<open>junk_stat\<close>, \<open>junk_buf\<close> and \<open>padding\<close> are the contents of fresh memory.
\<close>

record crude_env =
  open_rd :: "string \<Rightarrow> (int \<times> byte list) option"
  open_wr :: "string \<Rightarrow> int option"
  write_n :: "nat \<Rightarrow> nat \<Rightarrow> nat"
  realloc_ok :: "nat \<Rightarrow> bool"
  malloc_ok :: bool
  cgetuid :: int
  csetscheduler :: "int \<Rightarrow> bool"
  csigaction :: bool
  csocket :: int
  cbind :: "32 word \<Rightarrow> 16 word \<Rightarrow> bool"
  junk_stat :: flow_stat
  junk_buf :: "byte list"
  padding :: "byte list"

section \<open>Lines of output\<close>

text \<open>The arguments of the \<^verbatim>\<open>printf\<close> that \<^verbatim>\<open>decode_file\<close> and \<^verbatim>\<open>rec_n_print\<close> have in common.\<close>

record log_line =
  l_id :: "32 word"
  l_seq :: "32 word"
  l_src :: "32 word"
  l_sport :: "16 word"
  l_dst :: "32 word"
  l_dport :: "16 word"
  l_tx_s :: "32 word"
  l_tx_us :: "32 word"
  l_rx_s :: int
  l_rx_us :: int
  l_size :: int

definition show_line :: "log_line \<Rightarrow> string" where
  "show_line l =
     ''ID='' @ dec (unat (l_id l)) @ '' SEQ='' @ dec (unat (l_seq l)) @
     '' SRC='' @ inet_ntoa (l_src l) @ '':'' @ dec (unat (l_sport l)) @
     '' DST='' @ inet_ntoa (l_dst l) @ '':'' @ dec (unat (l_dport l)) @
     '' Tx='' @ show_long (uint (l_tx_s l)) @ ''.'' @ show_long6 (uint (l_tx_us l)) @
     '' Rx='' @ show_long (l_rx_s l) @ ''.'' @ show_long6 (l_rx_us l) @
     '' SIZE='' @ show_long (l_size l) @ [newline]"

section \<open>rec_n_print\<close>

definition print_line :: "16 word \<Rightarrow> byte list \<Rightarrow> recv \<Rightarrow> log_line" where
  "print_line port h e =
     \<lparr>l_id = ntohl (get_ulong off_flow_id h), l_seq = ntohl (get_ulong off_sequence_number h),
      l_src = r_src e, l_sport = ntohs (r_sport e), l_dst = get_ulong off_dest_addr h, l_dport = port,
      l_tx_s = ntohl (get_ulong off_tx_time_seconds h), l_tx_us = ntohl (get_ulong off_tx_time_useconds h),
      l_rx_s = tv_sec (r_time e), l_rx_us = tv_usec (r_time e), l_size = rec_bytes e\<rparr>"

definition print_round :: "16 word \<Rightarrow> recv \<Rightarrow> crude \<Rightarrow> crude" where
  "print_round port e s =
     (if rec_bytes e \<le> 0 then s
      else (let buf = recv_into (r_bytes e) (rbuf s)
            in s\<lparr>rbuf := buf, pkt_count := pkt_count s + 1,
                 outp := outp s @ [show_line (print_line port (header_of buf) e)]\<rparr>))"

fun print_loop :: "16 word \<Rightarrow> 64 word \<Rightarrow> recv list \<Rightarrow> crude \<Rightarrow> crude loop_result" where
  "print_loop port limit [] s = Waiting s"
| "print_loop port limit (e # es) s =
     (let s1 = print_round port e s
      in if limit \<noteq> 0 \<and> pkt_count s1 \<ge> limit then Returned s1 es else print_loop port limit es s1)"

definition rec_n_print :: "16 word \<Rightarrow> 64 word \<Rightarrow> recv list \<Rightarrow> crude \<Rightarrow> crude loop_result" where
  "rec_n_print port limit es s = print_loop port limit es (s\<lparr>rbuf := (\<lambda>_. 0)\<rparr>)"

section \<open>rec_to_file\<close>

text \<open>
  \<^verbatim>\<open>struct crude_struct\<close>: four longs of eight bytes, two shorts and four bytes of padding. All values
  stored in the longs have 32 bits.
\<close>

definition sizeof_crude_struct :: nat where "sizeof_crude_struct = 40"

definition ulong_bytes :: "32 word \<Rightarrow> byte list" where
  "ulong_bytes v = le_bytes v @ [0, 0, 0, 0]"

definition short_bytes :: "16 word \<Rightarrow> byte list" where
  "short_bytes v = [ucast v, ucast (drop_bit 8 v)]"

definition crude_struct :: "byte list \<Rightarrow> 16 word \<Rightarrow> recv \<Rightarrow> byte list" where
  "crude_struct pad port e =
     ulong_bytes (htonl (word_of_int (tv_sec (r_time e)))) @
     ulong_bytes (htonl (word_of_int (tv_usec (r_time e)))) @
     ulong_bytes (r_src e) @
     ulong_bytes (htonl (word_of_int (rec_bytes e))) @
     short_bytes (r_sport e) @ short_bytes (htons port) @ pad"

definition write_file :: "crude_env \<Rightarrow> byte list \<Rightarrow> byte list \<Rightarrow> byte list" where
  "write_file env bs file = file @ take (write_n env (length file) (length bs)) bs"

definition file_round :: "crude_env \<Rightarrow> 16 word \<Rightarrow> recv \<Rightarrow> crude \<Rightarrow> crude" where
  "file_round env port e s =
     (if rec_bytes e \<le> 0 then s
      else (let buf = recv_into (r_bytes e) (rbuf s)
            in s\<lparr>rbuf := buf, pkt_count := pkt_count s + 1,
                 ofile := write_file env (crude_struct (padding env) port e)
                            (write_file env (header_of buf) (ofile s))\<rparr>))"

fun file_loop :: "crude_env \<Rightarrow> 16 word \<Rightarrow> 64 word \<Rightarrow> recv list \<Rightarrow> crude \<Rightarrow> crude loop_result" where
  "file_loop env port limit [] s = Waiting s"
| "file_loop env port limit (e # es) s =
     (let s1 = file_round env port e s
      in if limit \<noteq> 0 \<and> pkt_count s1 \<ge> limit then Returned s1 es else file_loop env port limit es s1)"

definition rec_to_file :: "crude_env \<Rightarrow> 16 word \<Rightarrow> 64 word \<Rightarrow> recv list \<Rightarrow> crude \<Rightarrow> crude loop_result" where
  "rec_to_file env port limit es s = file_loop env port limit es (s\<lparr>rbuf := (\<lambda>_. 0)\<rparr>)"

section \<open>decode_file\<close>

definition get_short :: "nat \<Rightarrow> byte list \<Rightarrow> 16 word" where
  "get_short off buf = ucast (buf ! off) OR push_bit 8 (ucast (buf ! Suc off))"

definition decode_line :: "byte list \<Rightarrow> log_line" where
  "decode_line b =
     (let c = drop sizeof_udp_data b
      in \<lparr>l_id = ntohl (get_ulong off_flow_id b), l_seq = ntohl (get_ulong off_sequence_number b),
          l_src = get_ulong 16 c, l_sport = ntohs (get_short 32 c),
          l_dst = get_ulong off_dest_addr b, l_dport = ntohs (get_short 34 c),
          l_tx_s = ntohl (get_ulong off_tx_time_seconds b), l_tx_us = ntohl (get_ulong off_tx_time_useconds b),
          l_rx_s = uint (ntohl (get_ulong 0 c)), l_rx_us = uint (ntohl (get_ulong 8 c)),
          l_size = uint (ntohl (get_ulong 24 c))\<rparr>)"

definition buf_len :: nat where "buf_len = sizeof_udp_data + sizeof_crude_struct"

text \<open>\<^verbatim>\<open>read\<close> stores at most \<open>buf_len\<close> bytes; a short read leaves the rest of the buffer as it was.\<close>

function decode_loop :: "byte list \<Rightarrow> byte list \<Rightarrow> crude \<Rightarrow> crude" where
  "decode_loop file buf s =
     (if file = [] then s
      else (let buf1 = take buf_len file @ drop (length (take buf_len file)) buf
            in decode_loop (drop buf_len file) buf1
                 (s\<lparr>pkt_count := pkt_count s + 1, outp := outp s @ [show_line (decode_line buf1)]\<rparr>)))"
  by pat_completeness auto
termination
  by (relation "measure (\<lambda>(file, _). length file)")
    (auto simp: buf_len_def sizeof_udp_data_def sizeof_crude_struct_def)

declare decode_loop.simps [simp del]

definition decode_file :: "crude_env \<Rightarrow> byte list \<Rightarrow> crude \<Rightarrow> int \<times> crude" where
  "decode_file env file s =
     (if \<not> malloc_ok env then (-10, s) else (0, decode_loop file (take buf_len (junk_buf env)) s))"

section \<open>make_conn\<close>

text \<open>
  The address the socket is bound to. \<^verbatim>\<open>our_ip\<close> is an unsigned long: the 32 bit result of
  \<^verbatim>\<open>inet_addr\<close> is extended with zeros before it is compared with \<open>-1\<close>, and then swapped once more.
\<close>

definition make_conn :: "crude_env \<Rightarrow> 16 word \<Rightarrow> string option \<Rightarrow> crude \<Rightarrow> int \<times> crude" where
  "make_conn env port ifaddr s =
     (case (case ifaddr of
              None \<Rightarrow> Some 0
            | Some a \<Rightarrow> if a = [] then Some 0
                        else (let our_ip = ucast (inet_addr a) :: 64 word
                              in if our_ip \<noteq> - 1 then Some (htonl (ucast our_ip)) else None)) of
        None \<Rightarrow> (-1, s)
      | Some s_addr \<Rightarrow>
          if csocket env < 0 then (-2, s)
          else if \<not> cbind env s_addr (htons port) then (-3, s\<lparr>cclosed := cclosed s @ [csocket env]\<rparr>)
          else (csocket env, s))"

section \<open>The command line\<close>

text \<open>The variables of \<^verbatim>\<open>main\<close>; \<open>infile\<close> is the content of the file opened with \<open>-d\<close>.\<close>

record copts =
  ifipadd :: "string option"
  cport :: "16 word"
  w_num :: int
  cpriority :: int
  cretval :: int
  infile :: "byte list"

text \<open>The loop over the ids of \<open>-s\<close>, on \<^verbatim>\<open>sptr\<close>: the new table, and whether it succeeded.\<close>

function option_ids :: "crude_env \<Rightarrow> string \<Rightarrow> flow_stat list \<Rightarrow> flow_stat list \<times> bool" where
  "option_ids env sptr fs =
     (if \<not> realloc_ok env (length fs + 1) then (fs, False)
      else (let (i, eptr) = strtoul10 sptr
            in if eptr = sptr \<or> i = ULONG_MAX then (fs, False)
               else if eptr = [] then (fs @ [new_flow (junk_stat env) i], True)
               else if hd eptr \<noteq> CHR '','' then (fs, False)
               else option_ids env (tl eptr) (fs @ [new_flow (junk_stat env) i])))"
  by pat_completeness auto
termination
proof (relation "measure (\<lambda>(_, sptr, _). length sptr)", goal_cases)
  case (2 env sptr fs x i eptr)
  then have "snd (strtoul10 sptr) = eptr" by (metis snd_conv)
  with 2 show ?case using strtoul10_rest_length [of sptr] by (cases eptr) auto
qed simp

declare option_ids.simps [simp del]

definition only_copt :: "nat \<Rightarrow> opt_result \<Rightarrow> copts \<Rightarrow> copts" where
  "only_copt argc x p = (if optind x = 2 \<and> argc = 2 then p\<lparr>cretval := -1\<rparr> else p\<lparr>cretval := -2\<rparr>)"

definition opt_d :: "crude_env \<Rightarrow> nat \<Rightarrow> opt_result \<Rightarrow> copts \<times> crude \<Rightarrow> copts \<times> crude" where
  "opt_d env argc x ps = (case ps of (p, s) \<Rightarrow>
     (case optarg x of
        Some a \<Rightarrow>
          if optind x = 3 \<and> argc = 3 then
            (case open_rd env a of
               None \<Rightarrow> (p\<lparr>cretval := -3\<rparr>, s\<lparr>main_file := -1\<rparr>)
             | Some (fd, content) \<Rightarrow> (p\<lparr>cretval := 1, infile := content\<rparr>, s\<lparr>main_file := fd\<rparr>))
          else (p\<lparr>cretval := -2\<rparr>, s)
      | None \<Rightarrow> (p\<lparr>cretval := -2\<rparr>, s)))"

definition opt_p :: "string \<Rightarrow> copts \<Rightarrow> copts" where
  "opt_p a p =
     (let (temp1, errno) = strtol0 a
      in if errno then p\<lparr>cretval := -4\<rparr>
         else if temp1 < 1025 \<or> temp1 > 65535 then p\<lparr>cretval := -4\<rparr>
         else p\<lparr>cport := word_of_int temp1, cretval := cretval p + 2\<rparr>)"

definition opt_n :: "string \<Rightarrow> copts \<Rightarrow> copts" where
  "opt_n a p =
     (let (w, errno) = strtol0 a; p1 = p\<lparr>w_num := w\<rparr>
      in if errno then p1\<lparr>cretval := -6\<rparr>
         else if w \<le> 0 then p1\<lparr>cretval := -6\<rparr>
         else p1\<lparr>cretval := cretval p1 + 16\<rparr>)"

definition opt_l :: "crude_env \<Rightarrow> string \<Rightarrow> copts \<times> crude \<Rightarrow> copts \<times> crude" where
  "opt_l env a ps = (case ps of (p, s) \<Rightarrow>
     (case open_wr env a of
        None \<Rightarrow> (p\<lparr>cretval := -5\<rparr>, s\<lparr>main_file := -1\<rparr>)
      | Some fd \<Rightarrow> (p\<lparr>cretval := cretval p + 8\<rparr>, s\<lparr>main_file := fd, ofile := []\<rparr>)))"

definition opt_P :: "crude_env \<Rightarrow> string \<Rightarrow> copts \<Rightarrow> copts" where
  "opt_P env a p =
     (let q = p\<lparr>cpriority := atoi a\<rparr>;
          q1 = (if cpriority q < 1 \<or> cpriority q > 90 then q\<lparr>cretval := -2\<rparr> else q)
      in if cgetuid env \<noteq> 0 then q1\<lparr>cretval := -2\<rparr> else q1)"

definition opt_s :: "crude_env \<Rightarrow> string \<Rightarrow> copts \<times> crude \<Rightarrow> copts \<times> crude" where
  "opt_s env a ps = (case ps of (p, s) \<Rightarrow>
     (case option_ids env a (flows s) of (fs, ok) \<Rightarrow>
        (if ok then p else p\<lparr>cretval := -6\<rparr>, s\<lparr>flows := fs\<rparr>)))"

definition crude_opt :: "crude_env \<Rightarrow> string list \<Rightarrow> opt_result \<Rightarrow> copts \<times> crude \<Rightarrow> copts \<times> crude" where
  "crude_opt env argv x ps = (case ps of (p, s) \<Rightarrow>
     if opt_ret x = CHR ''v'' \<or> opt_ret x = CHR ''h'' then (only_copt (length argv) x p, s)
     else if opt_ret x = CHR ''d'' then opt_d env (length argv) x (p, s)
     else if opt_ret x \<in> set ''pilPns'' then
       (case optarg x of
          None \<Rightarrow> (p\<lparr>cretval := -2\<rparr>, s)
        | Some a \<Rightarrow>
            if opt_ret x = CHR ''p'' then (opt_p a p, s)
            else if opt_ret x = CHR ''i'' then (p\<lparr>ifipadd := Some (argv ! (optind x - 1)), cretval := cretval p + 4\<rparr>, s)
            else if opt_ret x = CHR ''l'' then opt_l env a (p, s)
            else if opt_ret x = CHR ''P'' then (opt_P env a p, s)
            else if opt_ret x = CHR ''n'' then (opt_n a p, s)
            else opt_s env a (p, s))
     else (p\<lparr>cretval := -1\<rparr>, s))"

fun crude_opts :: "crude_env \<Rightarrow> string list \<Rightarrow> opt_result list \<Rightarrow> copts \<times> crude \<Rightarrow> copts \<times> crude" where
  "crude_opts env argv [] ps = ps"
| "crude_opts env argv (x # xs) ps =
     (if cretval (fst ps) \<ge> 0 then crude_opts env argv xs (crude_opt env argv x ps) else ps)"

section \<open>main\<close>

record crude_outcome =
  c_exit :: int
  c_final :: crude
  c_stats :: "stat_report list option"

definition close_all :: "crude \<Rightarrow> crude" where
  "close_all s =
     (let s1 = (if main_file s > 0 then s\<lparr>cclosed := cclosed s @ [main_file s]\<rparr> else s)
      in if main_socket s1 > 0 then s1\<lparr>cclosed := cclosed s1 @ [main_socket s1]\<rparr> else s1)"

definition crude_exit :: "crude_env \<Rightarrow> copts \<Rightarrow> int \<Rightarrow> crude \<Rightarrow> crude_outcome" where
  "crude_exit env p ret s =
     (let ps_flag = (ret \<ge> 0 \<and> flows s \<noteq> []);
          ret1 = (if cgetuid env = 0 \<and> cpriority p > 0 \<and> \<not> csetscheduler env 0 then -1 else ret)
      in \<lparr>c_exit = ret1, c_final = (close_all s)\<lparr>flows := []\<rparr>,
          c_stats = (if ps_flag then Some (print_stats s) else None)\<rparr>)"

text \<open>The program ends, or it waits for packets.\<close>

datatype crude_run = Exited crude_outcome | Blocked crude

definition after_loop :: "crude_env \<Rightarrow> copts \<Rightarrow> crude loop_result \<Rightarrow> crude_run" where
  "after_loop env p r = (case r of Returned s _ \<Rightarrow> Exited (crude_exit env p 0 s) | Waiting s \<Rightarrow> Blocked s)"

definition crude_receive :: "crude_env \<Rightarrow> copts \<Rightarrow> recv list \<Rightarrow> crude \<Rightarrow> crude_run" where
  "crude_receive env p es s =
     (let limit = word_of_int (w_num p)
      in after_loop env p
           (if flows s \<noteq> [] then runtime_stats limit es s
            else if main_file s > 0 then rec_to_file env (cport p) limit es s
            else rec_n_print (cport p) limit es s))"

definition crude_start :: crude where
  "crude_start = \<lparr>main_socket = 0, main_file = 0, pkt_count = 0, flows = [], rbuf = (\<lambda>_. 0),
     outp = [], ofile = [], cclosed = []\<rparr>"

definition copts_start :: copts where
  "copts_start = \<lparr>ifipadd = None, cport = 10001, w_num = 0, cpriority = 0, cretval = 0, infile = []\<rparr>"

definition crude_main :: "crude_env \<Rightarrow> string list \<Rightarrow> recv list \<Rightarrow> crude_run" where
  "crude_main env argv es =
     (case crude_opts env argv (getopt ''hvd:p:i:l:P:n:s:'' 1 (tl argv)) (copts_start, crude_start) of (p, s) \<Rightarrow>
        if cretval p < 0 then Exited (crude_exit env p (cretval p) s)
        else if cgetuid env = 0 \<and> cpriority p > 0 \<and> \<not> csetscheduler env (cpriority p)
        then Exited (crude_exit env p (-1) s)
        else if \<not> csigaction env then Exited (crude_exit env p (-7) s)
        else if cretval p = 1 then
          (case decode_file env (infile p) s of (r, s1) \<Rightarrow> Exited (crude_exit env p r s1))
        else (case make_conn env (cport p) (ifipadd p) s of (k, s1) \<Rightarrow>
                let s2 = s1\<lparr>main_socket := k\<rparr>
                in if k < 0 then Exited (crude_exit env p (-8) s2) else crude_receive env p es s2))"

text \<open>The handler of SIGINT, which may run while the program waits.\<close>

definition crude_handler :: "crude \<Rightarrow> crude_outcome" where
  "crude_handler s = \<lparr>c_exit = 0, c_final = close_all s,
     c_stats = (if flows s \<noteq> [] then Some (print_stats s) else None)\<rparr>"

end
