(* ===== verification/Crude_Stats.thy ===== *)
theory Crude_Stats
  imports Crude_Defs
begin

text \<open>
  What the counters of \<^verbatim>\<open>runtime_stats\<close> mean in terms of the packets received for a flow, and what
  \<^verbatim>\<open>print_stats\<close> makes of them.
\<close>

section \<open>Specification\<close>

definition delay_s :: "packet \<Rightarrow> int" where
  "delay_s p = tv_sec (p_time p) - p_tx_s p"

definition delay_us :: "packet \<Rightarrow> int" where
  "delay_us p = tv_usec (p_time p) - p_tx_us p"

definition delay :: "packet \<Rightarrow> int" where
  "delay p = delay_s p * 1000000 + delay_us p"

text \<open>The jitter between consecutive packets, as the code computes it.\<close>

definition jitter :: "packet \<Rightarrow> packet \<Rightarrow> int \<times> int" where
  "jitter p q = jitter_abs (delay_s q - delay_s p) (delay_us q - delay_us p)"

definition jitters :: "packet list \<Rightarrow> (int \<times> int) list" where
  "jitters ps = map (\<lambda>(p, q). jitter p q) (zip ps (tl ps))"

definition max_jitter :: "(int \<times> int) list \<Rightarrow> timeval" where
  "max_jitter js = Max (insert tv_zero (set (map (\<lambda>j. Timeval (fst j) (snd j)) js)))"

text \<open>The packets that arrive after a packet with the same or a higher sequence number.\<close>

definition late :: "packet list \<Rightarrow> nat" where
  "late ps = card {i. i < length ps \<and> (\<exists>j<i. p_seq (ps ! i) \<le> p_seq (ps ! j))}"

definition seqs_of :: "packet list \<Rightarrow> 64 word set" where
  "seqs_of ps = p_seq ` set ps"

definition stat_of :: "64 word \<Rightarrow> packet list \<Rightarrow> flow_stat \<Rightarrow> bool" where
  "stat_of i ps f \<longleftrightarrow>
     flowid f = i \<and> rec f = of_nat (length ps) \<and>
     seqmin f = Min (seqs_of ps) \<and> seq f = Max (seqs_of ps) \<and> oos f = of_nat (late ps) \<and>
     ds_sec f = sum_list (map delay_s (tl ps)) \<and> ds_usec f = sum_list (map delay_us (tl ps)) \<and>
     js_sec f = sum_list (map fst (jitters ps)) \<and> js_usec f = sum_list (map snd (jitters ps)) \<and>
     Timeval (max_jitter_sec f) (max_jitter_usec f) = max_jitter (jitters ps) \<and>
     last_delay_sec f = delay_s (last ps) \<and> last_delay_usec f = delay_us (last ps) \<and>
     Timeval (first_rx_sec f) (first_rx_usec f) = p_time (hd ps) \<and>
     Timeval (last_rx_sec f) (last_rx_usec f) = p_time (last ps) \<and>
     s_size f = sum_list (map (\<lambda>p. word_of_int (p_len p)) ps)"

section \<open>Adding a packet\<close>

lemma below_ULONG_MAX: "w < 2 ^ 32 \<Longrightarrow> w < ULONG_MAX"
proof -
  assume "w < 2 ^ 32"
  also have "(2 ^ 32 :: 64 word) < ULONG_MAX" by (simp add: ULONG_MAX_def)
  finally show ?thesis .
qed

lemma jitters_snoc: "ps \<noteq> [] \<Longrightarrow> jitters (ps @ [q]) = jitters ps @ [jitter (last ps) q]"
proof (induction ps)
  case (Cons p ps)
  then show ?case by (cases ps) (simp_all add: jitters_def)
qed simp

lemma max_jitter_snoc: "max_jitter (js @ [j]) = max (max_jitter js) (Timeval (fst j) (snd j))"
proof -
  have "set (map (\<lambda>j. Timeval (fst j) (snd j)) (js @ [j])) =
      insert (Timeval (fst j) (snd j)) (set (map (\<lambda>j. Timeval (fst j) (snd j)) js))" by simp
  then show ?thesis
    unfolding max_jitter_def by (simp only: insert_commute [of tv_zero]) (subst Max_insert, simp_all add: max.commute)
qed

lemma late_snoc:
  "late (ps @ [q]) = late ps + (if \<exists>p \<in> set ps. p_seq q \<le> p_seq p then 1 else 0)"
proof -
  let ?L = "\<lambda>ps. {i. i < length ps \<and> (\<exists>j<i. p_seq (ps ! i) \<le> p_seq (ps ! j))}"
  have "i \<in> ?L (ps @ [q]) \<longleftrightarrow> i \<in> ?L ps \<or> i = length ps \<and> (\<exists>p \<in> set ps. p_seq q \<le> p_seq p)" for i
  proof (cases "i < length ps")
    case True
    then have "p_seq ((ps @ [q]) ! j) = p_seq (ps ! j)" if "j \<le> i" for j using that by (simp add: nth_append)
    then have "(\<exists>j<i. p_seq ((ps @ [q]) ! i) \<le> p_seq ((ps @ [q]) ! j)) \<longleftrightarrow> (\<exists>j<i. p_seq (ps ! i) \<le> p_seq (ps ! j))"
      by (metis less_imp_le order_refl)
    with True show ?thesis by auto
  next
    case False
    have "(\<exists>p \<in> set ps. p_seq q \<le> p_seq p) \<longleftrightarrow> (\<exists>j<length ps. p_seq q \<le> p_seq (ps ! j))"
      by (metis in_set_conv_nth)
    with False show ?thesis by (cases "i = length ps") (auto simp: nth_append)
  qed
  then have "?L (ps @ [q]) = ?L ps \<union> (if \<exists>p \<in> set ps. p_seq q \<le> p_seq p then {length ps} else {})"
    by (simp add: set_eq_iff)
  moreover have "finite (?L ps)" "length ps \<notin> ?L ps" by simp_all
  ultimately show ?thesis by (simp add: late_def)
qed

lemma late_single [simp]: "late [p] = 0"
  using late_snoc [of "[]" p] by (simp add: late_def)

lemma stat_of_first:
  assumes "p_seq p < ULONG_MAX"
  shows "stat_of i [p] (stat_packet p (new_flow g i))"
  using assms
  by (cases "p_time p") (simp add: stat_of_def stat_packet_def note_seq_def new_flow_def Let_def seqs_of_def
    jitters_def delay_s_def delay_us_def max_jitter_def tv_zero_def less_imp_le)

text \<open>What the two halves of the code do for a packet that is not the first of its flow.\<close>

lemma note_seq_later:
  assumes "rec f \<noteq> 1"
  shows "note_seq t sq f =
    (f\<lparr>oos := (if sq \<le> seq f then oos f + 1 else oos f), seqmin := (if sq \<le> seq f then min (seqmin f) sq else seqmin f),
       seq := max (seq f) sq\<rparr>, False)"
  using assms by (auto simp: note_seq_def Let_def min_def max_def)

lemma add_delay_jitter:
  "add_delay s us f =
    (let j = jitter_abs (s - last_delay_sec f) (us - last_delay_usec f);
         m = max (Timeval (max_jitter_sec f) (max_jitter_usec f)) (Timeval (fst j) (snd j))
     in f\<lparr>ds_sec := ds_sec f + s, ds_usec := ds_usec f + us, js_sec := js_sec f + fst j,
          js_usec := js_usec f + snd j, max_jitter_sec := tv_sec m, max_jitter_usec := tv_usec m\<rparr>)"
  by (cases "jitter_abs (s - last_delay_sec f) (us - last_delay_usec f)")
    (auto simp: add_delay_def Let_def max_def less_eq_timeval_def timer_less_def simp del: timer_less_iff)

lemma stat_of_snoc:
  assumes "stat_of i ps f" and ps: "ps \<noteq> []" and len: "Suc (length ps) < 2 ^ 64"
  shows "stat_of i (ps @ [q]) (stat_packet q f)"
proof -
  have f: "flowid f = i" "rec f = of_nat (length ps)" "seqmin f = Min (seqs_of ps)" "seq f = Max (seqs_of ps)"
      "oos f = of_nat (late ps)" "ds_sec f = sum_list (map delay_s (tl ps))" "ds_usec f = sum_list (map delay_us (tl ps))"
      "js_sec f = sum_list (map fst (jitters ps))" "js_usec f = sum_list (map snd (jitters ps))"
      "Timeval (max_jitter_sec f) (max_jitter_usec f) = max_jitter (jitters ps)"
      "last_delay_sec f = delay_s (last ps)" "last_delay_usec f = delay_us (last ps)"
      "Timeval (first_rx_sec f) (first_rx_usec f) = p_time (hd ps)"
      "s_size f = sum_list (map (\<lambda>p. word_of_int (p_len p)) ps)"
    using assms(1) by (auto simp: stat_of_def)
  let ?f = "f\<lparr>rec := rec f + 1\<rparr>"
  have "rec f + 1 = of_nat (Suc (length ps))" using f(2) by simp
  moreover have "(of_nat (Suc (length ps)) :: 64 word) \<noteq> of_nat 1"
    using len ps by (subst word_of_nat_eq_iff) (simp add: take_bit_nat_eq_self)
  ultimately have rec: "rec ?f \<noteq> 1" "rec f + 1 = of_nat (length (ps @ [q]))" by simp_all
  have fin: "finite (seqs_of ps)" "seqs_of ps \<noteq> {}" using ps by (auto simp: seqs_of_def)
  have sq: "seqs_of (ps @ [q]) = insert (p_seq q) (seqs_of ps)" by (auto simp: seqs_of_def)
  have mx: "Max (seqs_of (ps @ [q])) = max (seq f) (p_seq q)"
    using fin by (simp add: sq f(4) max.commute)
  have mn: "Min (seqs_of (ps @ [q])) = (if p_seq q \<le> seq f then min (seqmin f) (p_seq q) else seqmin f)"
  proof (cases "p_seq q \<le> seq f")
    case True
    then show ?thesis using fin by (simp add: sq f(3) min.commute)
  next
    case False
    have "Min (seqs_of ps) \<le> Max (seqs_of ps)" using fin by (meson Max_ge Min_in)
    with False have "Min (seqs_of ps) < p_seq q" using f(4) by simp
    then have "min (p_seq q) (Min (seqs_of ps)) = Min (seqs_of ps)" by simp
    then show ?thesis using fin False by (simp add: sq f(3))
  qed
  have lt: "of_nat (late (ps @ [q])) = (if p_seq q \<le> seq f then oos f + 1 else oos f)"
  proof -
    have "(\<exists>p \<in> set ps. p_seq q \<le> p_seq p) \<longleftrightarrow> p_seq q \<le> seq f"
      using fin by (simp add: f(4) Max_ge_iff seqs_of_def)
    then show ?thesis by (simp add: late_snoc f(5))
  qed
  let ?j = "jitter (last ps) q"
  let ?m = "max (Timeval (max_jitter_sec f) (max_jitter_usec f)) (Timeval (fst ?j) (snd ?j))"
  have m: "?m = max_jitter (jitters (ps @ [q]))"
    unfolding f(10) jitters_snoc [OF ps] by (rule max_jitter_snoc [symmetric])
  have mj: "Timeval (tv_sec ?m) (tv_usec ?m) = ?m" by simp
  have j: "jitter_abs (tv_sec (p_time q) - p_tx_s q - last_delay_sec f) (tv_usec (p_time q) - p_tx_us q - last_delay_usec f) = ?j"
    by (simp add: jitter_def f(11,12) delay_s_def delay_us_def)
  have "stat_packet q f =
      f\<lparr>rec := rec f + 1, oos := (if p_seq q \<le> seq f then oos f + 1 else oos f),
        seqmin := (if p_seq q \<le> seq f then min (seqmin f) (p_seq q) else seqmin f), seq := max (seq f) (p_seq q),
        ds_sec := ds_sec f + delay_s q, ds_usec := ds_usec f + delay_us q,
        js_sec := js_sec f + fst ?j, js_usec := js_usec f + snd ?j,
        max_jitter_sec := tv_sec ?m, max_jitter_usec := tv_usec ?m,
        last_tx_sec := p_tx_s q, last_tx_usec := p_tx_us q,
        last_rx_sec := tv_sec (p_time q), last_rx_usec := tv_usec (p_time q),
        last_delay_sec := delay_s q, last_delay_usec := delay_us q,
        s_size := s_size f + word_of_int (p_len q)\<rparr>"
    unfolding stat_packet_def Let_def note_seq_later [OF rec(1)] add_delay_jitter
    by (simp add: j delay_s_def delay_us_def)
  then show ?thesis
    unfolding stat_of_def using rec(2) f(13) ps
    by (simp add: mx mn lt m [symmetric] f(1,6-9,14) del: max.absorb1) (simp add: jitters_snoc)
qed

lemma fold_stat_of:
  assumes "ps \<noteq> []" and "length ps < 2 ^ 64" and "\<forall>p \<in> set ps. p_seq p < ULONG_MAX"
  shows "stat_of i ps (fold stat_packet ps (new_flow g i))"
  using assms
proof (induction ps rule: rev_induct)
  case (snoc q ps)
  show ?case
  proof (cases "ps = []")
    case True
    then show ?thesis using stat_of_first [of q i g] snoc.prems(3) by simp
  next
    case False
    then have "stat_of i ps (fold stat_packet ps (new_flow g i))" by (rule snoc.IH) (use snoc.prems in simp_all)
    then have "stat_of i (ps @ [q]) (stat_packet q (fold stat_packet ps (new_flow g i)))"
      by (rule stat_of_snoc) (use snoc.prems False in simp_all)
    then show ?thesis by simp
  qed
qed simp

section \<open>Jitter\<close>

text \<open>
  The difference of two delays, of up to two seconds in the microseconds. The absolute value is wrong
  if one second is compensated by more than a million microseconds of the other sign.
\<close>

definition crossing :: "int \<Rightarrow> int \<Rightarrow> bool" where
  "crossing s us \<longleftrightarrow> s = 1 \<and> us < -1000000 \<or> s = -1 \<and> us > 1000000"

definition sane :: "packet \<Rightarrow> bool" where
  "sane p \<longleftrightarrow> normalized (p_time p) \<and> 0 \<le> tv_sec (p_time p) \<and> tv_sec (p_time p) < 2 ^ 32 \<and>
     0 \<le> p_tx_s p \<and> p_tx_s p < 2 ^ 32 \<and> 0 \<le> p_tx_us p \<and> p_tx_us p < 1000000 \<and> p_seq p < 2 ^ 32"

definition jitter_val :: "int \<times> int \<Rightarrow> int" where
  "jitter_val j = fst j * 1000000 + snd j"

lemma jitter_abs_value:
  assumes "-2000000 < us" and "us < 2000000"
  shows "jitter_val (jitter_abs s us) =
    (if crossing s us then - \<bar>s * 1000000 + us\<bar> else \<bar>s * 1000000 + us\<bar>)"
  using assms by (auto simp: jitter_val_def jitter_abs_def crossing_def abs_if)

lemma jitter_abs_bounds:
  assumes "\<bar>us\<bar> \<le> 1000000"
  shows "0 \<le> fst (jitter_abs s us)" and "fst (jitter_abs s us) \<le> \<bar>s\<bar>"
    and "0 \<le> snd (jitter_abs s us)" and "snd (jitter_abs s us) \<le> 1000000" and "\<not> crossing s us"
  using assms by (auto simp: jitter_abs_def crossing_def abs_if split: if_splits)

definition crosses :: "packet \<Rightarrow> packet \<Rightarrow> bool" where
  "crosses p q \<longleftrightarrow> crossing (delay_s q - delay_s p) (delay_us q - delay_us p)"

lemma sane_delay:
  assumes "sane p"
  shows "- (2 ^ 32) < delay_s p" and "delay_s p < 2 ^ 32" and "-1000000 < delay_us p" and "delay_us p < 1000000"
  using assms by (auto simp: sane_def normalized_def delay_s_def delay_us_def)

lemma jitter_value:
  assumes "sane p" and "sane q"
  shows "jitter_val (jitter p q) = (if crosses p q then - \<bar>delay q - delay p\<bar> else \<bar>delay q - delay p\<bar>)"
proof -
  have "(delay_s q - delay_s p) * 1000000 + (delay_us q - delay_us p) = delay q - delay p"
    by (simp add: delay_def algebra_simps)
  moreover have "-2000000 < delay_us q - delay_us p" "delay_us q - delay_us p < 2000000"
    using sane_delay [OF assms(1)] sane_delay [OF assms(2)] by linarith+
  ultimately show ?thesis
    using jitter_abs_value [of "delay_us q - delay_us p" "delay_s q - delay_s p"] by (simp add: jitter_def crosses_def)
qed

lemma sum_list_jitter_val:
  "sum_list (map fst js) * 1000000 + sum_list (map snd js) = sum_list (map jitter_val js)"
  by (induction js) (simp_all add: jitter_val_def algebra_simps)

lemma sum_delay:
  "sum_list (map delay_s ps) * 1000000 + sum_list (map delay_us ps) = sum_list (map delay ps)"
  by (induction ps) (simp_all add: delay_def algebra_simps)

lemma sum_list_bounds:
  fixes xs :: "int list"
  assumes "\<forall>x \<in> set xs. l \<le> x \<and> x \<le> u"
  shows "l * int (length xs) \<le> sum_list xs" and "sum_list xs \<le> u * int (length xs)"
  using assms by (induction xs) (auto simp: algebra_simps)

section \<open>Averages\<close>

lemma average_correct:
  assumes n: "0 < n" "n < 2 ^ 63" and a: "0 \<le> a" "a < 2 ^ 63"
    and b: "0 \<le> b + 1000000 * (a mod n)" "b + 1000000 * (a mod n) < 2 ^ 63"
  shows "average a b (word_of_int n) =
    (((a * 1000000 + b) div n) div 1000000, ((a * 1000000 + b) div n) mod 1000000)"
proof -
  let ?r = "b + 1000000 * (a mod n)"
  have uw: "uint (word_of_int x :: 64 word) = x" if "0 \<le> x" "x < 2 ^ 63" for x
    using that by (simp add: uint_word_of_int)
  have sw: "sint (w :: 64 word) = uint w" if "uint w < 2 ^ 63" for w
    using that by (simp add: sint_uint signed_take_bit_eq_if_positive bit_iff_odd take_bit_int_eq_self)
  have div_le: "x div n < 2 ^ 63" "0 \<le> x div n" if "0 \<le> x" "x < 2 ^ 63" for x
    using that n zdiv_mono2 [of x 1 n] by (auto simp: pos_imp_zdiv_nonneg_iff)
  have d: "sint ((word_of_int x :: 64 word) div word_of_int n) = x div n" if "0 \<le> x" "x < 2 ^ 63" for x
  proof -
    have "uint ((word_of_int x :: 64 word) div word_of_int n) = x div n"
      using that n by (simp add: uint_div_distrib uw)
    then show ?thesis using sw div_le [OF that] by simp
  qed
  have m: "umod a (word_of_int n) = word_of_int (a mod n)"
  proof (rule word_uint_eqI)
    have "0 \<le> a mod n" "a mod n < 2 ^ 63" using pos_mod_bound [of n a] n by (simp, linarith)
    then show "uint (umod a (word_of_int n)) = uint (word_of_int (a mod n) :: 64 word)"
      using a n uw by (simp add: umod_def uint_mod_distrib)
  qed
  have "(word_of_int b + 1000000 * umod a (word_of_int n) :: 64 word) = word_of_int ?r"
    unfolding m by simp
  then have usec: "sint ((word_of_int b + 1000000 * umod a (word_of_int n)) div word_of_int n) = ?r div n"
    using d [OF b] by simp
  have q: "(a * 1000000 + b) div n = (a div n) * 1000000 + ?r div n"
  proof -
    define q r where "q = a div n" and "r = a mod n"
    have "a = n * q + r" by (simp add: q_def r_def)
    then have "a * 1000000 + b = (b + 1000000 * r) + n * (q * 1000000)" by (simp add: algebra_simps)
    moreover have "((b + 1000000 * r) + n * (q * 1000000)) div n = q * 1000000 + (b + 1000000 * r) div n"
      using n by simp
    ultimately show ?thesis unfolding q_def r_def by (simp only:)
  qed
  have "0 \<le> ?r div n" using b n by (simp add: pos_imp_zdiv_nonneg_iff)
  then show ?thesis
    unfolding average_def udiv_def Let_def usec d [OF a] q
    by (simp add: c_div_nonneg c_mod_nonneg)
qed

section \<open>The report\<close>

lemma sign_abs_forward: "0 \<le> s \<Longrightarrow> 0 \<le> us \<Longrightarrow> sign_abs (same_sign s us) = (False, s, us)"
  by (simp add: sign_abs_def same_sign_def)

text \<open>
  Packets whose delays differ by at most a million in the microseconds, and whose sums keep the unsigned
  division of the averages away from negative numbers.
\<close>

definition smooth :: "packet list \<Rightarrow> bool" where
  "smooth ps \<longleftrightarrow> list_all (\<lambda>(p, q). \<bar>delay_us q - delay_us p\<bar> \<le> 1000000) (zip ps (tl ps))"

definition delays_forward :: "packet list \<Rightarrow> bool" where
  "delays_forward ps \<longleftrightarrow> 0 \<le> sum_list (map delay_s (tl ps)) \<and>
     0 \<le> sum_list (map delay_us (tl ps)) + 1000000 * (sum_list (map delay_s (tl ps)) mod int (length ps))"

definition total_jitter :: "packet list \<Rightarrow> int" where
  "total_jitter ps = sum_list (map (\<lambda>(p, q). \<bar>delay q - delay p\<bar>) (zip ps (tl ps)))"

lemma smooth_jitters:
  assumes "list_all sane ps" and "smooth ps"
  shows "\<forall>j \<in> set (jitters ps). 0 \<le> fst j \<and> fst j \<le> 2 ^ 33 \<and> 0 \<le> snd j \<and> snd j \<le> 1000000"
    and "map jitter_val (jitters ps) = map (\<lambda>(p, q). \<bar>delay q - delay p\<bar>) (zip ps (tl ps))"
proof -
  have pq: "sane p \<and> sane q \<and> \<bar>delay_us q - delay_us p\<bar> \<le> 1000000" if "(p, q) \<in> set (zip ps (tl ps))" for p q
    using that assms set_zip_leftD [OF that] list.set_sel(2) set_zip_rightD [OF that]
    by (cases ps) (auto simp: list_all_iff smooth_def)
  have "0 \<le> fst (jitter p q) \<and> fst (jitter p q) \<le> 2 ^ 33 \<and> 0 \<le> snd (jitter p q) \<and> snd (jitter p q) \<le> 1000000"
    if "(p, q) \<in> set (zip ps (tl ps))" for p q
  proof -
    have "\<bar>delay_s q - delay_s p\<bar> \<le> 2 ^ 33" using pq [OF that] sane_delay [of p] sane_delay [of q] by auto
    then show ?thesis
      using jitter_abs_bounds [of "delay_us q - delay_us p" "delay_s q - delay_s p"] pq [OF that]
      by (auto simp: jitter_def)
  qed
  then show "\<forall>j \<in> set (jitters ps). 0 \<le> fst j \<and> fst j \<le> 2 ^ 33 \<and> 0 \<le> snd j \<and> snd j \<le> 1000000"
    by (auto simp: jitters_def)
  have "jitter_val (jitter p q) = \<bar>delay q - delay p\<bar>" if "(p, q) \<in> set (zip ps (tl ps))" for p q
    using pq [OF that] jitter_value [of p q] jitter_abs_bounds(5) [of "delay_us q - delay_us p" "delay_s q - delay_s p"]
    by (simp add: crosses_def)
  then show "map jitter_val (jitters ps) = map (\<lambda>(p, q). \<bar>delay q - delay p\<bar>) (zip ps (tl ps))"
    by (auto simp: jitters_def)
qed

lemma small_total:
  fixes b m n :: int
  assumes "b \<le> 1000000 * (n - 1)" and "m < n" and "n < 2 ^ 29"
  shows "b + 1000000 * m < 2 ^ 63"
  using assms by simp

lemma jitter_average:
  assumes "list_all sane ps" and "smooth ps" and n: "2 \<le> length ps" "length ps < 2 ^ 29"
  shows "average (sum_list (map fst (jitters ps))) (sum_list (map snd (jitters ps))) (of_nat (length ps) - 1) =
    (let t = total_jitter ps div (int (length ps) - 1) in (t div 1000000, t mod 1000000))"
proof -
  let ?a = "sum_list (map fst (jitters ps))" and ?b = "sum_list (map snd (jitters ps))"
  let ?n = "int (length ps) - 1"
  have len: "length (jitters ps) = length ps - 1" by (simp add: jitters_def)
  have a: "0 \<le> ?a" "?a \<le> 2 ^ 33 * int (length ps - 1)"
    using sum_list_bounds [of "map fst (jitters ps)" 0 "2 ^ 33"] smooth_jitters(1) [OF assms(1,2)] len by auto
  have b: "0 \<le> ?b" "?b \<le> 1000000 * int (length ps - 1)"
    using sum_list_bounds [of "map snd (jitters ps)" 0 1000000] smooth_jitters(1) [OF assms(1,2)] len by auto
  have m: "0 \<le> ?a mod ?n" "?a mod ?n < ?n" using n by simp_all
  have "?a < 2 ^ 63" using a n by simp
  moreover have "0 \<le> ?b + 1000000 * (?a mod ?n)" using b m by simp
  moreover have "?b + 1000000 * (?a mod ?n) < 2 ^ 63"
    by (rule small_total [of _ "int (length ps)"]) (use n b m in \<open>simp_all add: of_nat_diff\<close>)
  ultimately have "average ?a ?b (word_of_int ?n) =
      (((?a * 1000000 + ?b) div ?n) div 1000000, ((?a * 1000000 + ?b) div ?n) mod 1000000)"
    using average_correct [of ?n ?a ?b] a n by simp
  moreover have "?a * 1000000 + ?b = total_jitter ps"
    by (simp add: sum_list_jitter_val smooth_jitters(2) [OF assms(1,2)] total_jitter_def)
  ultimately show ?thesis by (simp add: Let_def)
qed

lemma delay_average:
  assumes "list_all sane ps" and "delays_forward ps" and n: "2 \<le> length ps" "length ps < 2 ^ 29"
  shows "average (sum_list (map delay_s (tl ps))) (sum_list (map delay_us (tl ps))) (of_nat (length ps)) =
    (let t = sum_list (map delay (tl ps)) div int (length ps) in (t div 1000000, t mod 1000000))"
proof -
  let ?a = "sum_list (map delay_s (tl ps))" and ?b = "sum_list (map delay_us (tl ps))" and ?n = "int (length ps)"
  have sane: "\<forall>p \<in> set (tl ps). sane p" using assms(1) by (cases ps) (auto simp: list_all_iff)
  have "\<forall>x \<in> set (map delay_s (tl ps)). - (2 ^ 32) \<le> x \<and> x \<le> 2 ^ 32"
    using sane sane_delay by fastforce
  from sum_list_bounds(2) [OF this] have a: "?a \<le> 2 ^ 32 * (?n - 1)" using n by (simp add: of_nat_diff)
  have "\<forall>x \<in> set (map delay_us (tl ps)). - 1000000 \<le> x \<and> x \<le> 1000000"
    using sane sane_delay by fastforce
  from sum_list_bounds(2) [OF this] have b: "?b \<le> 1000000 * (?n - 1)" using n by (simp add: of_nat_diff)
  have ne: "ps \<noteq> []" using n by auto
  then have m: "?a mod ?n < ?n" by (intro pos_mod_bound) simp
  have "?a < 2 ^ 63" using a n by simp
  moreover have "?b + 1000000 * (?a mod ?n) < 2 ^ 63"
    by (rule small_total [of _ ?n]) (use n b m in simp_all)
  ultimately have "average ?a ?b (word_of_int ?n) =
      (((?a * 1000000 + ?b) div ?n) div 1000000, ((?a * 1000000 + ?b) div ?n) mod 1000000)"
    using average_correct [of ?n ?a ?b] n ne assms(2) by (simp add: delays_forward_def)
  then show ?thesis by (simp add: Let_def sum_delay)
qed

definition example_packet :: "64 word \<Rightarrow> int \<Rightarrow> int \<Rightarrow> int \<Rightarrow> int \<Rightarrow> packet" where
  "example_packet i ts tu rs ru = \<lparr>p_seq = i, p_tx_s = ts, p_tx_us = tu, p_time = Timeval rs ru, p_len = 60\<rparr>"

definition example_packets :: "packet list" where
  "example_packets = [example_packet 0 10 0 10 500, example_packet 2 11 0 11 700, example_packet 1 12 0 12 400,
     example_packet 5 13 0 13 500]"

definition empty_stat :: flow_stat where
  "empty_stat = \<lparr>flowid = 0, seqmin = 0, seq = 0, rec = 0, oos = 0, js_sec = 0, js_usec = 0, ds_sec = 0, ds_usec = 0,
     last_tx_sec = 0, last_tx_usec = 0, last_rx_sec = 0, last_rx_usec = 0, last_delay_sec = 0, last_delay_usec = 0,
     first_rx_sec = 0, first_rx_usec = 0, max_jitter_sec = 0, max_jitter_usec = 0, s_size = 0\<rparr>"

section \<open>Properties of the statistics\<close>

text \<open>
  C13. The counters of a flow after any sequence of packets: the number of packets, the least and the
  greatest sequence number, the number of packets that arrived after one with the same or a greater
  number, the sums of delays and jitters, the greatest jitter, the first and the last receive time
  and the number of bytes. The contents of the fresh memory do not matter.
\<close>

theorem stat_packet_correct:
  assumes "ps \<noteq> []" and "length ps < 2 ^ 64" and "\<forall>p \<in> set ps. p_seq p < ULONG_MAX"
  shows "stat_of i ps (fold stat_packet ps (new_flow g i))"
  using assms by (rule fold_stat_of)

theorem stat_packet_correct_witness:
  "stat_of 7 example_packets (fold stat_packet example_packets (new_flow empty_stat 7))"
proof (rule stat_packet_correct)
  show "\<forall>p \<in> set example_packets. p_seq p < ULONG_MAX"
    by (simp add: example_packets_def example_packet_def below_ULONG_MAX)
qed (simp_all add: example_packets_def)

text \<open>
  The sum of the jitters is the sum of the absolute differences of consecutive delays, except that
  a difference counts negatively if the seconds of the delays differ by one and the microseconds by more than
  a million in the other direction.
\<close>

theorem jitter_sum:
  assumes "ps \<noteq> []" and "length ps < 2 ^ 64" and "\<forall>p \<in> set ps. sane p"
  shows "let f = fold stat_packet ps (new_flow g i) in
    js_sec f * 1000000 + js_usec f =
      sum_list (map (\<lambda>(p, q). if crosses p q then - \<bar>delay q - delay p\<bar> else \<bar>delay q - delay p\<bar>) (zip ps (tl ps)))"
proof -
  have "\<forall>p \<in> set ps. p_seq p < ULONG_MAX"
    using assms(3) by (auto simp: sane_def intro: below_ULONG_MAX)
  then have f: "stat_of i ps (fold stat_packet ps (new_flow g i))" using fold_stat_of assms by blast
  have pq: "sane p \<and> sane q" if "(p, q) \<in> set (zip ps (tl ps))" for p q
    using assms(3) set_zip_leftD [OF that] set_zip_rightD [OF that] by (cases ps) auto
  have "map jitter_val (jitters ps) =
      map (\<lambda>(p, q). if crosses p q then - \<bar>delay q - delay p\<bar> else \<bar>delay q - delay p\<bar>) (zip ps (tl ps))"
    using pq jitter_value by (auto simp: jitters_def)
  then show ?thesis using f by (simp add: Let_def stat_of_def sum_list_jitter_val)
qed

theorem jitter_sum_witness:
  "let f = fold stat_packet example_packets (new_flow empty_stat 7) in js_sec f * 1000000 + js_usec f = 600"
proof -
  have "example_packets \<noteq> []" "length example_packets < 2 ^ 64" "\<forall>p \<in> set example_packets. sane p"
    by (simp_all add: example_packets_def example_packet_def sane_def normalized_def)
  from jitter_sum [OF this, of empty_stat 7] show ?thesis
    by (simp add: Let_def example_packets_def example_packet_def crosses_def crossing_def delay_s_def delay_us_def delay_def)
qed

text \<open>
  A jitter can decrease the sum: two packets with delays of 400 and 500 microseconds, the first of
  them sent before the seconds changed and received after it, add \<open>-100\<close> microseconds.
\<close>

theorem jitter_negative:
  "let f = fold stat_packet [example_packet 0 10 999700 11 100, example_packet 1 11 0 11 500] (new_flow empty_stat 7)
   in js_sec f = 0 \<and> js_usec f = -100 \<and> max_jitter_usec f = 0"
  (is "let f = fold _ ?ps _ in _")
proof -
  have "stat_of 7 ?ps (fold stat_packet ?ps (new_flow empty_stat 7))"
    by (rule fold_stat_of) (simp_all add: example_packet_def below_ULONG_MAX)
  moreover have "jitters ?ps = [(0, -100)]"
    by (simp add: jitters_def jitter_def jitter_abs_def delay_s_def delay_us_def example_packet_def)
  moreover have "max_jitter [(0, -100)] = Timeval 0 0"
    by (simp add: max_jitter_def tv_zero_def max_def less_eq_timeval_def timer_less_def del: timer_less_iff)
  ultimately show ?thesis by (simp add: stat_of_def Let_def del: fold_simps)
qed

text \<open>
  C16. The report on at least two packets: received and lost packets, the average of the absolute delay
  differences over one packet less than received, and the sum of all delays but the first, divided by the
  number of packets.
\<close>

theorem report_correct:
  assumes n: "2 \<le> length ps" "length ps < 2 ^ 29" and "list_all sane ps" and "smooth ps" and "delays_forward ps"
  shows "\<exists>r. flow_report (fold stat_packet ps (new_flow g i)) =
      \<lparr>sr_flow = i, sr_received = of_nat (length ps), sr_oos = of_nat (late ps),
       sr_lost = Max (seqs_of ps) - Min (seqs_of ps) + 1 - of_nat (length ps),
       sr_size = sum_list (map (\<lambda>p. word_of_int (p_len p)) ps),
       sr_seqs = Some (Min (seqs_of ps), Max (seqs_of ps)), sr_figures = Some r\<rparr> \<and>
    f_delay r = (let t = sum_list (map delay (tl ps)) div int (length ps) in (False, t div 1000000, t mod 1000000)) \<and>
    f_jitter r = (let t = total_jitter ps div (int (length ps) - 1) in (t div 1000000, t mod 1000000)) \<and>
    Timeval (fst (f_max_jitter r)) (snd (f_max_jitter r)) = max_jitter (jitters ps)"
proof -
  let ?f = "fold stat_packet ps (new_flow g i)"
  have sq: "\<forall>p \<in> set ps. p_seq p < ULONG_MAX"
    using assms(3) by (auto simp: list_all_iff sane_def intro: below_ULONG_MAX)
  have len: "ps \<noteq> []" "length ps < 2 ^ 64" using n by auto
  have f: "stat_of i ps ?f" by (rule fold_stat_of [OF len sq])
  have r: "\<not> rec ?f < 2" "0 < rec ?f"
  proof -
    have "rec ?f = of_nat (length ps)" using f by (simp add: stat_of_def)
    moreover have "unat (of_nat (length ps) :: 64 word) = length ps"
      using len(2) by (simp add: unat_of_nat)
    ultimately have "unat (rec ?f) = length ps" by simp
    then show "\<not> rec ?f < 2" "0 < rec ?f" using n by (auto simp: word_less_nat_alt)
  qed
  let ?t = "sum_list (map delay (tl ps)) div int (length ps)"
  have "0 \<le> sum_list (map delay_s (tl ps)) * 1000000 + sum_list (map delay_us (tl ps))"
  proof -
    let ?a = "sum_list (map delay_s (tl ps))"
    have "?a mod int (length ps) \<le> ?a" using assms(5) by (intro zmod_le_nonneg_dividend) (simp add: delays_forward_def)
    then show ?thesis using assms(5) by (simp add: delays_forward_def)
  qed
  then have t: "0 \<le> ?t" using len by (simp add: sum_delay pos_imp_zdiv_nonneg_iff)
  have d: "sign_abs (case average (ds_sec ?f) (ds_usec ?f) (rec ?f) of (s, us) \<Rightarrow> same_sign s us) =
      (False, ?t div 1000000, ?t mod 1000000)"
    using delay_average [OF assms(3,5) n] f
      sign_abs_forward [of "?t div 1000000" "?t mod 1000000"] pos_imp_zdiv_nonneg_iff [of 1000000 ?t] t
    by (simp add: stat_of_def Let_def)
  have j: "average (js_sec ?f) (js_usec ?f) (rec ?f - 1) =
      (let t = total_jitter ps div (int (length ps) - 1) in (t div 1000000, t mod 1000000))"
    using jitter_average [OF assms(3,4) n] f by (simp add: stat_of_def)
  show ?thesis
    unfolding flow_report_def using r d j f by (simp add: Let_def stat_of_def)
qed

theorem report_correct_witness:
  "\<exists>r. sr_figures (flow_report (fold stat_packet example_packets (new_flow empty_stat 7))) = Some r \<and>
     f_delay r = (False, 0, 400) \<and> f_jitter r = (0, 200)"
proof -
  have "2 \<le> length example_packets" "length example_packets < 2 ^ 29" "list_all sane example_packets"
    "smooth example_packets" "delays_forward example_packets"
    by (simp_all add: example_packets_def example_packet_def sane_def normalized_def smooth_def delays_forward_def
      delay_us_def delay_s_def)
  from report_correct [OF this, of empty_stat 7] obtain r where
    "sr_figures (flow_report (fold stat_packet example_packets (new_flow empty_stat 7))) = Some r"
    "f_delay r = (let t = sum_list (map delay (tl example_packets)) div int (length example_packets)
                  in (False, t div 1000000, t mod 1000000))"
    "f_jitter r = (let t = total_jitter example_packets div (int (length example_packets) - 1)
                   in (t div 1000000, t mod 1000000))"
    by auto
  then show ?thesis
    by (simp add: example_packets_def example_packet_def total_jitter_def delay_def delay_s_def delay_us_def Let_def)
qed

text \<open>
  Two packets with a delay of 1.0005 seconds, the second one received just after the seconds changed:
  the unsigned division makes the printed average a number of ten million seconds.
\<close>

theorem report_wraps:
  "map_option f_delay (sr_figures (flow_report
     (fold stat_packet [example_packet 0 10 0 11 500, example_packet 1 11 999600 13 100] (new_flow empty_stat 7)))) =
   Some (False, 9223372036855, 276058)"
  (is "map_option _ (sr_figures (flow_report (fold _ ?ps _))) = _")
proof -
  let ?f = "fold stat_packet ?ps (new_flow empty_stat 7)"
  have "stat_of 7 ?ps ?f"
    by (rule fold_stat_of) (simp_all add: example_packet_def below_ULONG_MAX)
  then have "rec ?f = 2" "ds_sec ?f = 2" "ds_usec ?f = -999500"
    by (simp_all add: stat_of_def delay_s_def delay_us_def example_packet_def del: fold_simps)
  moreover have "average 2 (-999500) 2 = (9223372036855, 276058)"
    by (simp add: average_def udiv_def umod_def c_div_def c_mod_def Let_def)
  ultimately show ?thesis
    by (simp add: flow_report_def same_sign_def sign_abs_def del: fold_simps)
qed

end
