(* ===== verification/Crude_Loops.thy ===== *)
theory Crude_Loops
  imports Crude_Io Crude_Stats
begin

text \<open>
  The three receive loops of \<^verbatim>\<open>crude\<close> share a contract: a round for every receive event, and an exit when
  the packet counter has reached the limit. The locale states it once; each loop is an instance.
\<close>

section \<open>Receive loops\<close>

definition rounds :: "(recv \<Rightarrow> 's \<Rightarrow> 's \<times> bool) \<Rightarrow> recv list \<Rightarrow> 's \<Rightarrow> 's" where
  "rounds rnd es s = fold (\<lambda>e s. fst (rnd e s)) es s"

lemma rounds_simps [simp]:
  "rounds rnd [] s = s" "rounds rnd (e # es) s = rounds rnd es (fst (rnd e s))"
  "rounds rnd (es @ es') s = rounds rnd es' (rounds rnd es s)"
  by (simp_all add: rounds_def)

primrec loop_state :: "'s loop_result \<Rightarrow> 's" where
  "loop_state (Returned s es) = s"
| "loop_state (Waiting s) = s"

locale receive_loop =
  fixes loop :: "64 word \<Rightarrow> recv list \<Rightarrow> 's \<Rightarrow> 's loop_result"
    and rnd :: "recv \<Rightarrow> 's \<Rightarrow> 's \<times> bool"
    and cnt :: "'s \<Rightarrow> 64 word"
  assumes loop_Nil: "loop limit [] s = Waiting s"
    and loop_Cons: "loop limit (e # es) s =
      (if snd (rnd e s) \<and> limit \<noteq> 0 \<and> limit \<le> cnt (fst (rnd e s)) then Returned (fst (rnd e s)) es
       else loop limit es (fst (rnd e s)))"
    and cnt_round: "cnt (fst (rnd e s)) = (if snd (rnd e s) \<and> cnt (fst (rnd e s)) \<noteq> cnt s then cnt s + 1 else cnt s)"
begin

lemma unlimited: "loop 0 es s = Waiting (rounds rnd es s)"
  by (induction es arbitrary: s) (simp_all add: loop_Nil loop_Cons)

lemma step_cases:
  obtains "cnt (fst (rnd e s)) = cnt s" | "cnt (fst (rnd e s)) = cnt s + 1" and "snd (rnd e s)"
  using cnt_round [of e s] by (auto split: if_splits)

text \<open>
  With a limit the loop goes on exactly until the counter reaches it; if that does not happen it waits
  with all events consumed.
\<close>

lemma limited:
  assumes "cnt s < limit"
  shows "(\<forall>k \<le> length es. cnt (rounds rnd (take k es) s) < limit) \<and> loop limit es s = Waiting (rounds rnd es s) \<or>
    (\<exists>k < length es. (\<forall>j \<le> k. cnt (rounds rnd (take j es) s) < limit) \<and>
       cnt (rounds rnd (take (Suc k) es) s) = limit \<and>
       loop limit es s = Returned (rounds rnd (take (Suc k) es) s) (drop (Suc k) es))"
  using assms
proof (induction es arbitrary: s)
  case Nil
  then show ?case by (simp add: loop_Nil)
next
  case (Cons e es)
  let ?s = "fst (rnd e s)"
  have l0: "limit \<noteq> 0" using Cons.prems by auto
  have le: "cnt ?s \<le> limit"
    by (rule step_cases [of e s]) (use Cons.prems inc_le [of "cnt s" limit] in \<open>auto simp: less_imp_le\<close>)
  show ?case
  proof (cases "cnt ?s < limit")
    case True
    have loop: "loop limit (e # es) s = loop limit es ?s" using True by (auto simp: loop_Cons)
    have shift: "(\<forall>j \<le> Suc k. cnt (rounds rnd (take j (e # es)) s) < limit) \<longleftrightarrow>
        (\<forall>j \<le> k. cnt (rounds rnd (take j es) ?s) < limit)" for k
    proof -
      have "(\<forall>j \<le> Suc k. P j) \<longleftrightarrow> P 0 \<and> (\<forall>j \<le> k. P (Suc j))" for P
        by (metis Suc_le_mono le0 not0_implies_Suc)
      then show ?thesis using Cons.prems by simp
    qed
    from Cons.IH [OF True] show ?thesis
    proof (elim disjE exE conjE)
      assume "\<forall>k \<le> length es. cnt (rounds rnd (take k es) ?s) < limit" "loop limit es ?s = Waiting (rounds rnd es ?s)"
      then show ?thesis using loop shift [of "length es"] by simp
    next
      fix k
      assume k: "k < length es" "\<forall>j \<le> k. cnt (rounds rnd (take j es) ?s) < limit"
        "cnt (rounds rnd (take (Suc k) es) ?s) = limit"
        "loop limit es ?s = Returned (rounds rnd (take (Suc k) es) ?s) (drop (Suc k) es)"
      show ?thesis
        by (rule disjI2, rule exI [of _ "Suc k"]) (use k loop shift [of k] in simp)
    qed
  next
    case False
    then have eq: "cnt ?s = limit" using le by simp
    then have "snd (rnd e s)" using Cons.prems cnt_round [of e s] by (auto split: if_splits)
    then have "loop limit (e # es) s = Returned ?s es" using eq l0 by (simp add: loop_Cons)
    then show ?thesis using eq Cons.prems by (intro disjI2 exI [of _ 0]) simp
  qed
qed

text \<open>The final state is the state after a number of rounds.\<close>

lemma loop_rounds:
  "\<exists>k \<le> length es. loop_state (loop limit es s) = rounds rnd (take k es) s"
proof (induction es arbitrary: s)
  case (Cons e es)
  show ?case
  proof (cases "snd (rnd e s) \<and> limit \<noteq> 0 \<and> limit \<le> cnt (fst (rnd e s))")
    case True
    then show ?thesis by (intro exI [of _ 1]) (simp add: loop_Cons)
  next
    case False
    obtain k where "k \<le> length es" "loop_state (loop limit es (fst (rnd e s))) = rounds rnd (take k es) (fst (rnd e s))"
      using Cons.IH by blast
    with False show ?thesis by (intro exI [of _ "Suc k"]) (auto simp: loop_Cons)
  qed
qed (simp add: loop_Nil)

end

interpretation stats: receive_loop stats_loop stats_round pkt_count
proof unfold_locales
  fix e :: recv and s :: crude
  show "pkt_count (fst (stats_round e s)) =
      (if snd (stats_round e s) \<and> pkt_count (fst (stats_round e s)) \<noteq> pkt_count s then pkt_count s + 1 else pkt_count s)"
    by (simp add: stats_round_def Let_def)
qed (simp_all add: case_prod_beta)

interpretation prints: receive_loop "print_loop port" "\<lambda>e s. (print_round port e s, True)" pkt_count for port
  by unfold_locales (simp_all add: print_round_def Let_def)

interpretation files: receive_loop "file_loop env port" "\<lambda>e s. (file_round env port e s, True)" pkt_count for env port
  by unfold_locales (simp_all add: file_round_def Let_def)

end
