(* ===== verification/Crude_Main.thy ===== *)
theory Crude_Main
  imports Crude_Loops
begin

text \<open>
  \<^verbatim>\<open>crude\<close> as a whole: a recorded file decodes to the lines that would have been printed, the statistics
  of every flow cover the packets received for it, the limit on the number of packets, the command line,
  and what \<^verbatim>\<open>crude\<close> reads from a datagram that \<^verbatim>\<open>rude\<close> sent.
\<close>

section \<open>Reading back a record\<close>

lemma length_ulong_bytes [simp]: "length (ulong_bytes v) = 8"
  by (simp add: ulong_bytes_def)

lemma get_ulong_here [simp]: "get_ulong 0 (ulong_bytes v @ rest) = v"
  using from_le_le_bytes [of v "[]"] by (simp add: get_ulong_def ulong_bytes_def)

lemma get_ulong_skip: "8 \<le> n \<Longrightarrow> get_ulong n (ulong_bytes v @ rest) = get_ulong (n - 8) rest"
  by (simp add: get_ulong_def)

lemma get_short_skip: "8 \<le> n \<Longrightarrow> get_short n (ulong_bytes v @ rest) = get_short (n - 8) rest"
  using Suc_diff_le [of 8 n] by (simp add: get_short_def nth_append)

lemma short_bytes_join: "ucast (ucast v :: byte) OR push_bit 8 (ucast (ucast (drop_bit 8 v) :: byte)) = (v :: 16 word)"
proof (rule bit_word_eqI)
  fix n assume "n < LENGTH(16)"
  then have n: "n < 16" by simp
  have "bit (ucast (ucast v :: byte) OR push_bit 8 (ucast (ucast (drop_bit 8 v) :: byte)) :: 16 word) n \<longleftrightarrow>
      n < 8 \<and> bit v n \<or> 8 \<le> n \<and> n < 16 \<and> bit v n"
    using n by (auto simp: bit_or_iff bit_push_bit_iff bit_drop_bit_eq bit_ucast_iff)
  then show "bit (ucast (ucast v :: byte) OR push_bit 8 (ucast (ucast (drop_bit 8 v) :: byte)) :: 16 word) n = bit v n"
    using n by auto
qed

lemma get_short_here [simp]:
  "get_short 0 (short_bytes v @ rest) = v" "get_short 2 (short_bytes v @ short_bytes w @ rest) = w"
  by (simp_all add: get_short_def short_bytes_def short_bytes_join)

lemma get_ulong_append: "off + 4 \<le> length xs \<Longrightarrow> get_ulong off (xs @ ys) = get_ulong off xs"
  by (simp add: get_ulong_def)

lemma uint_word_of_int32: "0 \<le> i \<Longrightarrow> i < 2 ^ 32 \<Longrightarrow> uint (word_of_int i :: 32 word) = i"
  by (simp add: uint_word_of_int)

lemma length_header_of [simp]: "length (header_of buf) = 40"
  by (simp add: header_of_def sizeof_udp_data_def)

definition time_ok :: "recv \<Rightarrow> bool" where
  "time_ok e \<longleftrightarrow> (case e of Recv_error \<Rightarrow> True
     | Received _ _ _ t \<Rightarrow> normalized t \<and> 0 \<le> tv_sec t \<and> tv_sec t < 2 ^ 32)"

lemma decode_line_record:
  assumes "time_ok e" and "0 < rec_bytes e"
  shows "decode_line (header_of buf @ crude_struct pad port e) = print_line port (header_of buf) e"
proof -
  have t: "0 \<le> tv_sec (r_time e)" "tv_sec (r_time e) < 2 ^ 32" "0 \<le> tv_usec (r_time e)" "tv_usec (r_time e) < 2 ^ 32"
    and n: "rec_bytes e < 2 ^ 32"
    using assms by (auto simp: time_ok_def normalized_def rec_bytes_def PMAXSIZE_def split: recv.splits)
  have "drop sizeof_udp_data (header_of buf @ crude_struct pad port e) = crude_struct pad port e"
    by (simp add: sizeof_udp_data_def)
  then show ?thesis
    using t n assms(2)
    by (simp add: decode_line_def print_line_def Let_def get_ulong_append header_layout crude_struct_def
      get_ulong_skip get_short_skip uint_word_of_int32)
qed

section \<open>Decoding a file of records\<close>

definition record_ok :: "byte list \<Rightarrow> bool" where
  "record_ok b \<longleftrightarrow> length b = buf_len"

lemma decode_loop_records:
  assumes "list_all record_ok bs"
  shows "decode_loop (concat bs) buf s =
    s\<lparr>pkt_count := pkt_count s + of_nat (length bs), outp := outp s @ map (\<lambda>b. show_line (decode_line (b @ drop buf_len buf))) bs\<rparr>"
  using assms
proof (induction bs arbitrary: buf s)
  case Nil
  then show ?case by (simp add: decode_loop.simps)
next
  case (Cons b bs)
  have b: "length b = buf_len" "b \<noteq> []"
    using Cons.prems by (auto simp: record_ok_def buf_len_def sizeof_udp_data_def)
  then have "decode_loop (concat (b # bs)) buf s = decode_loop (concat bs) (b @ drop buf_len buf)
      (s\<lparr>pkt_count := pkt_count s + 1, outp := outp s @ [show_line (decode_line (b @ drop buf_len buf))]\<rparr>)"
    by (subst decode_loop.simps) (simp add: Let_def)
  also have "\<dots> = s\<lparr>pkt_count := pkt_count s + of_nat (length (b # bs)),
      outp := outp s @ map (\<lambda>b. show_line (decode_line (b @ drop buf_len buf))) (b # bs)\<rparr>"
    using Cons b by simp
  finally show ?case .
qed

section \<open>Recording and printing\<close>

definition full_writes :: "crude_env \<Rightarrow> bool" where
  "full_writes env \<longleftrightarrow> (\<forall>n k. write_n env n k = k) \<and> length (padding env) = 4"

text \<open>The states of the two programs after the same events.\<close>

definition recorded :: "crude \<Rightarrow> crude \<Rightarrow> bool" where
  "recorded s t \<longleftrightarrow> rbuf s = rbuf t \<and> pkt_count s = pkt_count t \<and>
     (\<exists>bs. ofile s = concat bs \<and> list_all record_ok bs \<and> outp t = map (\<lambda>b. show_line (decode_line b)) bs)"

lemma length_crude_struct: "length pad = 4 \<Longrightarrow> length (crude_struct pad port e) = 40"
  by (simp add: crude_struct_def short_bytes_def)

lemma recorded_round:
  assumes "full_writes env" and "time_ok e" and "recorded s t"
  shows "recorded (file_round env port e s) (print_round port e t)"
proof (cases "rec_bytes e \<le> 0")
  case True
  then show ?thesis using assms by (simp add: file_round_def print_round_def)
next
  case False
  obtain bs where bs: "ofile s = concat bs" "list_all record_ok bs" "outp t = map (\<lambda>b. show_line (decode_line b)) bs"
    using assms(3) by (auto simp: recorded_def)
  let ?buf = "recv_into (r_bytes e) (rbuf s)"
  let ?b = "header_of ?buf @ crude_struct (padding env) port e"
  have "record_ok ?b"
    using assms(1) by (simp add: record_ok_def full_writes_def length_crude_struct buf_len_def sizeof_udp_data_def
      sizeof_crude_struct_def)
  moreover have "ofile (file_round env port e s) = concat (bs @ [?b])"
    using False assms(1) bs(1) by (simp add: file_round_def full_writes_def write_file_def Let_def)
  moreover have "outp (print_round port e t) = map (\<lambda>b. show_line (decode_line b)) (bs @ [?b])"
    using False bs(3) assms(3) decode_line_record [OF assms(2), of ?buf "padding env" port]
    by (simp add: print_round_def Let_def recorded_def)
  ultimately have "\<exists>bs. ofile (file_round env port e s) = concat bs \<and> list_all record_ok bs \<and>
      outp (print_round port e t) = map (\<lambda>b. show_line (decode_line b)) bs"
    using bs(2) by (intro exI [of _ "bs @ [?b]"]) simp
  then show ?thesis
    using False assms(3) by (simp add: recorded_def file_round_def print_round_def Let_def)
qed

lemma recorded_loop:
  assumes "full_writes env" and "list_all time_ok es" and "recorded s t"
  shows "recorded (loop_state (file_loop env port limit es s)) (loop_state (print_loop port limit es t))"
  using assms(2,3)
proof (induction es arbitrary: s t)
  case (Cons e es)
  have r: "recorded (file_round env port e s) (print_round port e t)"
    using recorded_round [OF assms(1)] Cons.prems by simp
  then have "pkt_count (file_round env port e s) = pkt_count (print_round port e t)" by (simp add: recorded_def)
  with r Cons show ?case by (auto simp: Let_def)
qed simp

section \<open>Counting\<close>

definition good :: "recv \<Rightarrow> bool" where
  "good e \<longleftrightarrow> 0 < rec_bytes e"

lemma file_rounds_count:
  "pkt_count (rounds (\<lambda>e s. (file_round env port e s, True)) es s) = pkt_count s + of_nat (length (filter good es))"
  by (induction es arbitrary: s) (simp_all add: file_round_def good_def Let_def)

lemma file_rounds_size:
  assumes "full_writes env"
  shows "length (ofile (rounds (\<lambda>e s. (file_round env port e s, True)) es s)) =
    length (ofile s) + buf_len * length (filter good es)"
  using assms
  by (induction es arbitrary: s) (simp_all add: file_round_def good_def Let_def write_file_def full_writes_def
    length_crude_struct buf_len_def sizeof_udp_data_def sizeof_crude_struct_def)

section \<open>The statistics of every flow\<close>

text \<open>The flow ids and packets read from the datagrams, given the buffer before.\<close>

fun heard :: "(nat \<Rightarrow> byte) \<Rightarrow> recv list \<Rightarrow> (64 word \<times> packet) list" where
  "heard buf [] = []"
| "heard buf (e # es) =
     (if rec_bytes e \<le> 0 then heard buf es
      else (let b = recv_into (r_bytes e) buf
            in (hdr_flowid (header_of b), packet_of (header_of b) (r_time e) (rec_bytes e)) # heard b es))"

definition packets_for :: "64 word \<Rightarrow> recv list \<Rightarrow> packet list" where
  "packets_for i es = map snd (filter (\<lambda>x. fst x = i) (heard (\<lambda>_. 0) es))"

lemma stat_packet_flowid [simp]: "flowid (stat_packet p f) = flowid f"
  by (simp add: stat_packet_def note_seq_def add_delay_def Let_def case_prod_beta)

lemma find_flow_update:
  assumes "distinct (map flowid fs)"
  shows "(if find_flow i fs = length fs then fs else fs[find_flow i fs := g (fs ! find_flow i fs)]) =
    map (\<lambda>f. if flowid f = i then g f else f) fs"
  using assms
proof (induction fs)
  case (Cons f fs)
  show ?case
  proof (cases "flowid f = i")
    case True
    then have "map (\<lambda>f. if flowid f = i then g f else f) fs = fs"
      using Cons.prems by (intro map_idI) (metis distinct.simps(2) image_eqI image_set list.simps(9))
    with True show ?thesis by simp
  next
    case False
    with Cons show ?thesis by (auto split: if_splits)
  qed
qed simp

lemma stats_rounds_flows:
  assumes "distinct (map flowid (flows s))"
  shows "flows (rounds stats_round es s) =
    map (\<lambda>f. fold stat_packet (map snd (filter (\<lambda>x. fst x = flowid f) (heard (rbuf s) es))) f) (flows s)"
  using assms
proof (induction es arbitrary: s)
  case (Cons e es)
  let ?s = "fst (stats_round e s)"
  show ?case
  proof (cases "rec_bytes e \<le> 0")
    case True
    then show ?thesis using Cons.IH [of ?s] Cons.prems by (simp add: stats_round_def)
  next
    case False
    let ?b = "recv_into (r_bytes e) (rbuf s)"
    let ?p = "packet_of (header_of ?b) (r_time e) (rec_bytes e)"
    let ?i = "hdr_flowid (header_of ?b)"
    have fs: "flows ?s = map (\<lambda>f. if flowid f = ?i then stat_packet ?p f else f) (flows s)"
      unfolding find_flow_update [OF Cons.prems, symmetric] using False by (simp add: stats_round_def Let_def)
    have "map flowid (flows ?s) = map flowid (flows s)" unfolding fs by simp
    moreover have "rbuf ?s = ?b" using False by (simp add: stats_round_def Let_def)
    ultimately have "flows (rounds stats_round es ?s) =
        map (\<lambda>f. fold stat_packet (map snd (filter (\<lambda>x. fst x = flowid f) (heard ?b es))) f) (flows ?s)"
      using Cons.IH [of ?s] Cons.prems by simp
    then show ?thesis unfolding fs using False by (simp add: Let_def)
  qed
qed simp

lemma heard_seq: "\<forall>x \<in> set (heard buf es). p_seq (snd x) < ULONG_MAX"
proof (induction buf es rule: heard.induct)
  case (2 buf e es)
  have "(ucast w :: 64 word) < 2 ^ 32" for w :: "32 word"
    using uint_bounded [of w] by (simp add: word_less_def uint_up_ucast is_up_def source_size_def target_size_def)
  then have "p_seq (packet_of h t n) < ULONG_MAX" for h t n
    by (simp add: packet_of_def below_ULONG_MAX)
  with 2 show ?case by (auto simp: Let_def)
qed simp

lemma length_heard: "length (heard buf es) \<le> length es"
  by (induction buf es rule: heard.induct) (auto simp: Let_def)

section \<open>The command line\<close>

definition opts_ok :: "crude_env \<Rightarrow> copts \<times> crude \<Rightarrow> bool" where
  "opts_ok env ps \<longleftrightarrow> (case ps of (p, s) \<Rightarrow>
     1025 \<le> uint (cport p) \<and>
     (\<exists>ids. flows s = map (new_flow (junk_stat env)) ids \<and> ULONG_MAX \<notin> set ids) \<and>
     (0 \<le> cretval p \<longrightarrow> 0 \<le> w_num p \<and> 0 \<le> cpriority p \<and> cpriority p \<le> 90 \<and>
        (cpriority p \<noteq> 0 \<longrightarrow> cgetuid env = 0)))"

lemma option_ids_ok:
  assumes "fs = map (new_flow (junk_stat env)) ids" and "ULONG_MAX \<notin> set ids"
  shows "\<exists>ids'. fst (option_ids env sptr fs) = map (new_flow (junk_stat env)) ids' \<and> ULONG_MAX \<notin> set ids'"
  using assms
proof (induction env sptr fs arbitrary: ids rule: option_ids.induct)
  case (1 env sptr fs)
  obtain i eptr where e: "strtoul10 sptr = (i, eptr)" by (cases "strtoul10 sptr")
  show ?case
  proof (cases "realloc_ok env (length fs + 1) \<and> \<not> (eptr = sptr \<or> i = ULONG_MAX) \<and> eptr \<noteq> [] \<and> hd eptr = CHR '','' ")
    case True
    then have "option_ids env sptr fs = option_ids env (tl eptr) (fs @ [new_flow (junk_stat env) i])"
      by (subst option_ids.simps) (simp add: e)
    moreover have "fs @ [new_flow (junk_stat env) i] = map (new_flow (junk_stat env)) (ids @ [i])"
      "ULONG_MAX \<notin> set (ids @ [i])" using True 1(2,3) by auto
    ultimately show ?thesis using 1(1) [OF _ e [symmetric] _ _ _ ] True e by (metis (no_types, lifting))
  next
    case False
    then have "fst (option_ids env sptr fs) = fs \<or>
        i \<noteq> ULONG_MAX \<and> fst (option_ids env sptr fs) = fs @ [new_flow (junk_stat env) i]"
      by (subst (1 2) option_ids.simps) (auto simp: e)
    then show ?thesis
    proof
      assume "fst (option_ids env sptr fs) = fs"
      then show ?thesis using 1(2,3) by blast
    next
      assume "i \<noteq> ULONG_MAX \<and> fst (option_ids env sptr fs) = fs @ [new_flow (junk_stat env) i]"
      then show ?thesis using 1(2,3) by (intro exI [of _ "ids @ [i]"]) auto
    qed
  qed
qed

lemma opts_ok_retval: "opts_ok env (p, s) \<Longrightarrow> r < 0 \<Longrightarrow> opts_ok env (p\<lparr>cretval := r\<rparr>, s)"
  by (simp add: opts_ok_def)

lemma opts_ok_flows: "opts_ok env (p, s) \<Longrightarrow> flows s' = flows s \<Longrightarrow> opts_ok env (p, s')"
  by (simp add: opts_ok_def)

lemma crude_opt_ok:
  assumes ok: "opts_ok env (p, s)" and "0 \<le> cretval p"
  shows "opts_ok env (crude_opt env argv x (p, s))"
proof -
  have d: "opts_ok env (opt_d env n x (p, s))" for n
    using assms by (auto simp: opt_d_def opts_ok_def split: option.split prod.split)
  have l: "opts_ok env (opt_l env a (p, s))" for a
    using assms by (auto simp: opt_l_def opts_ok_def split: option.split)
  have sopt: "opts_ok env (opt_s env a (p, s))" for a
  proof -
    obtain ids where "flows s = map (new_flow (junk_stat env)) ids" "ULONG_MAX \<notin> set ids"
      using ok by (auto simp: opts_ok_def)
    from option_ids_ok [OF this, of a] show ?thesis
      using assms by (auto simp: opt_s_def opts_ok_def split: prod.split)
  qed
  have port: "opts_ok env (opt_p a p, s)" for a
    using assms by (auto simp: opt_p_def opts_ok_def uint_word_of_int Let_def case_prod_beta)
  have prio: "opts_ok env (opt_P env a p, s)" for a
    using assms by (auto simp: opt_P_def opts_ok_def Let_def)
  have num: "opts_ok env (opt_n a p, s)" for a
    using assms by (auto simp: opt_n_def opts_ok_def Let_def case_prod_beta)
  have only: "opts_ok env (only_copt n x p, s)" for n
    using opts_ok_retval [OF ok] by (simp add: only_copt_def)
  have i: "opts_ok env (p\<lparr>ifipadd := a, cretval := cretval p + 4\<rparr>, s)" for a
    using assms by (simp add: opts_ok_def)
  show ?thesis
    unfolding crude_opt_def using d l sopt port prio num only i opts_ok_retval [OF ok]
    by (simp split: option.split)
qed

lemma crude_opts_ok: "opts_ok env ps \<Longrightarrow> opts_ok env (crude_opts env argv xs ps)"
proof (induction xs arbitrary: ps)
  case (Cons x xs)
  then show ?case using crude_opt_ok [of env "fst ps" "snd ps"] by simp
qed simp

lemma opts_ok_start: "opts_ok env (copts_start, crude_start)"
  by (simp add: opts_ok_def copts_start_def crude_start_def)

section \<open>Examples\<close>

definition example_crude :: crude_env where
  "example_crude = \<lparr>open_rd = (\<lambda>_. None), open_wr = (\<lambda>_. Some 5), write_n = (\<lambda>_ k. k), realloc_ok = (\<lambda>_. True),
     malloc_ok = True, cgetuid = 1000, csetscheduler = (\<lambda>_. False), csigaction = True, csocket = 4,
     cbind = (\<lambda>a _. a = inet_addr ''127.0.0.1'' \<or> a = 0), junk_stat = empty_stat, junk_buf = [], padding = [1, 2, 3, 4]\<rparr>"

definition example_recv :: "recv list" where
  "example_recv = [Recv_error, Received [1, 2, 3, 4, 5] 7 8 (Timeval 3 4), Received [9] 7 8 (Timeval 5 6)]"

section \<open>Properties of crude\<close>

text \<open>
  C11. Recording to a file and decoding the file prints the lines that \<^verbatim>\<open>rec_n_print\<close> prints for the same
  datagrams, for every limit: if all writes are complete and the clock fits into 32 bits of seconds.
\<close>

theorem decode_recorded:
  assumes "full_writes env" and "malloc_ok env" and "list_all time_ok es"
  shows "outp (snd (decode_file env (ofile (loop_state (rec_to_file env port limit es crude_start))) crude_start)) =
    outp (loop_state (rec_n_print port limit es crude_start))"
proof -
  let ?s = "loop_state (rec_to_file env port limit es crude_start)"
  let ?t = "loop_state (rec_n_print port limit es crude_start)"
  have "recorded (crude_start\<lparr>rbuf := (\<lambda>_. 0)\<rparr>) (crude_start\<lparr>rbuf := (\<lambda>_. 0)\<rparr>)"
    by (simp add: recorded_def crude_start_def)
  then have "recorded ?s ?t"
    unfolding rec_to_file_def rec_n_print_def by (rule recorded_loop [OF assms(1,3)])
  then obtain bs where "ofile ?s = concat bs" "list_all record_ok bs" "outp ?t = map (\<lambda>b. show_line (decode_line b)) bs"
    by (auto simp: recorded_def)
  then show ?thesis
    using assms(2) decode_loop_records [of bs "take buf_len (junk_buf env)" crude_start]
    by (simp add: decode_file_def crude_start_def)
qed

theorem decode_recorded_witness:
  "outp (snd (decode_file example_crude (ofile (loop_state (rec_to_file example_crude 10001 0 example_recv crude_start))) crude_start)) =
   outp (loop_state (rec_n_print 10001 0 example_recv crude_start))"
  by (rule decode_recorded) (simp_all add: full_writes_def example_crude_def example_recv_def time_ok_def normalized_def)

text \<open>
  C15. With a limit of \<open>n\<close> packets \<^verbatim>\<open>rec_to_file\<close> returns as soon as \<open>n\<close> datagrams have been received,
  whatever errors happen in between, and the file then holds exactly \<open>n\<close> records.
\<close>

theorem rec_to_file_limit:
  assumes "full_writes env" and "limit \<noteq> 0" and "unat limit \<le> length (filter good es)"
  shows "\<exists>s rest. rec_to_file env port limit es crude_start = Returned s rest \<and> pkt_count s = limit \<and>
    length (ofile s) = buf_len * unat limit"
proof -
  let ?s = "crude_start\<lparr>rbuf := (\<lambda>_. 0)\<rparr>"
  let ?r = "\<lambda>e s. (file_round env port e s, True)"
  have count: "pkt_count (rounds ?r es' ?s) = of_nat (length (filter good es'))" for es'
    by (simp add: file_rounds_count crude_start_def)
  have start: "pkt_count ?s < limit" using assms(2) by (simp add: crude_start_def word_gt_0)
  obtain k where k: "k \<le> length es" "length (filter good (take k es)) = unat limit"
  proof -
    have "\<exists>k \<le> length es. length (filter good (take k es)) = m" if "m \<le> length (filter good es)" for m
      using that
    proof (induction es rule: rev_induct)
      case (snoc e es)
      show ?case
      proof (cases "m \<le> length (filter good es)")
        case True
        with snoc.IH obtain k where "k \<le> length es" "length (filter good (take k es)) = m" by blast
        then show ?thesis by (intro exI [of _ k]) simp
      next
        case False
        with snoc.prems show ?thesis by (intro exI [of _ "Suc (length es)"]) (auto split: if_splits)
      qed
    qed simp
    then show ?thesis using that assms(3) by blast
  qed
  have "\<not> pkt_count (rounds ?r (take k es) ?s) < limit" using k(2) by (simp add: count)
  with files.limited [OF start, of es env port] k(1) obtain j where
    j: "pkt_count (rounds ?r (take (Suc j) es) ?s) = limit" "\<forall>i \<le> j. pkt_count (rounds ?r (take i es) ?s) < limit" "j < length es"
      "file_loop env port limit es ?s = Returned (rounds ?r (take (Suc j) es) ?s) (drop (Suc j) es)"
    by blast
  have "length (filter good (take (Suc j) es)) = unat limit"
  proof -
    have "\<not> k \<le> j" using j(2) k(2) count [of "take k es"] by auto
    then have "take (Suc j) es = take (Suc j) (take k es)" by (simp add: min_def)
    then have "length (filter good (take (Suc j) es)) \<le> unat limit"
      using k(2) append_take_drop_id [of "Suc j" "take k es"] by (metis filter_append length_append le_add1)
    then have "length (filter good (take (Suc j) es)) < 2 ^ LENGTH(64)"
      using unsigned_less [of limit] by (rule le_less_trans)
    moreover have "unat (of_nat (length (filter good (take (Suc j) es))) :: 64 word) = unat limit"
      using j(1) count by simp
    ultimately show ?thesis by (simp add: unat_of_nat)
  qed
  then show ?thesis
    using j(1,4) file_rounds_size [OF assms(1), of port "take (Suc j) es" ?s]
    by (simp add: rec_to_file_def crude_start_def)
qed

theorem rec_to_file_limit_witness:
  "\<exists>s rest. rec_to_file example_crude 10001 2 example_recv crude_start = Returned s rest \<and> length (ofile s) = 160"
proof -
  have "full_writes example_crude" by (simp add: full_writes_def example_crude_def)
  moreover have "unat (2 :: 64 word) \<le> length (filter good example_recv)"
    by (simp add: example_recv_def good_def rec_bytes_def PMAXSIZE_def)
  ultimately show ?thesis
    using rec_to_file_limit [of example_crude 2 example_recv 10001]
    by (auto simp: buf_len_def sizeof_udp_data_def sizeof_crude_struct_def)
qed



text \<open>
  C17. If the command line is accepted the port lies between 1025 and 65535, the limit is not negative, a
  priority lies between 1 and 90 and needs root, and every entry of the flow table is a fresh entry for a
  number that \<^verbatim>\<open>strtoul\<close> could represent.
\<close>

theorem crude_opts_accepted:
  "opts_ok env (crude_opts env argv xs (copts_start, crude_start))"
  by (rule crude_opts_ok [OF opts_ok_start])

text \<open>
  The interface address is swapped once too often: on a host whose addresses are the loopback address and
  the wildcard, \<open>-i 127.0.0.1\<close> cannot be bound, and an invalid address is not noticed before \<^verbatim>\<open>bind\<close>.
\<close>

theorem make_conn_swapped:
  "make_conn example_crude 10001 (Some ''127.0.0.1'') crude_start = (-3, crude_start\<lparr>cclosed := [4]\<rparr>) \<and>
   make_conn example_crude 10001 (Some ''localhost'') crude_start = (-3, crude_start\<lparr>cclosed := [4]\<rparr>) \<and>
   make_conn (example_crude\<lparr>cbind := (\<lambda>a _. a = inet_addr ''1.0.0.127'')\<rparr>) 10001 (Some ''127.0.0.1'') crude_start = (4, crude_start)"
proof -
  have "inet_addr ''127.0.0.1'' = 0x0100007F" "inet_addr ''1.0.0.127'' = 0x7F000001" "inet_addr ''localhost'' = INADDR_NONE"
    by code_simp+
  then show ?thesis
    by (simp add: make_conn_def example_crude_def htonl_def bswap32_def INADDR_NONE_def crude_start_def)
qed

end
