(* ===== verification/Rte_Ring.thy ===== *)
theory Rte_Ring
  imports C_Library
begin

text \<open>
  The bounded ring buffer of DPDK, \<^verbatim>\<open>librte_ring\<close>, on which the queues of libmoon are built. Head and
  tail are 32 bit counters that wrap around; they are masked when the table of objects is accessed. This
  theory holds the functions as one thread runs them and the copy loops; \<open>None\<close> is an access outside an
  array or a wait for another thread that does not come.
\<close>

type_synonym u32 = "32 word"

section \<open>Data\<close>

datatype behavior = QUEUE_FIXED | QUEUE_VARIABLE

record 'a rte_ring =
  rname :: string
  rflags :: u32
  rsize :: u32
  rmask :: u32
  rcapacity :: u32
  prod_head :: u32
  prod_tail :: u32
  prod_single :: bool
  cons_head :: u32
  cons_tail :: u32
  cons_single :: bool
  slots :: "'a list"

section \<open>Creation\<close>

definition RING_F_SP_ENQ :: u32 where "RING_F_SP_ENQ = 1"
definition RING_F_SC_DEQ :: u32 where "RING_F_SC_DEQ = 2"
definition RING_F_EXACT_SZ :: u32 where "RING_F_EXACT_SZ = 4"
definition RTE_RING_SZ_MASK :: u32 where "RTE_RING_SZ_MASK = 0x0fffffff"
definition RTE_MEMZONE_NAMESIZE :: nat where "RTE_MEMZONE_NAMESIZE = 32"

definition POWEROF2 :: "u32 \<Rightarrow> bool" where
  "POWEROF2 x \<longleftrightarrow> (x - 1) AND x = 0"

definition rte_align32pow2 :: "u32 \<Rightarrow> u32" where
  "rte_align32pow2 x0 =
     (let x1 = x0 - 1;
          x2 = x1 OR drop_bit 1 x1;
          x3 = x2 OR drop_bit 2 x2;
          x4 = x3 OR drop_bit 4 x3;
          x5 = x4 OR drop_bit 8 x4;
          x6 = x5 OR drop_bit 16 x5
      in x6 + 1)"

text \<open>
  The size of a ring in bytes, a multiple of the cache line size 64; \<^verbatim>\<open>struct rte_ring\<close> takes 384 bytes.
\<close>

definition rte_ring_get_memsize :: "u32 \<Rightarrow> int" where
  "rte_ring_get_memsize count =
     (if \<not> POWEROF2 count \<or> count > RTE_RING_SZ_MASK then -22
      else (384 + uint count * 8 + 63) div 64 * 64)"

text \<open>
  \<open>mem\<close> is the memory behind the structure, read as a table of objects; the ring uses its first
  \<^verbatim>\<open>size\<close> entries.
\<close>

definition rte_ring_init :: "'a list \<Rightarrow> string \<Rightarrow> u32 \<Rightarrow> u32 \<Rightarrow> int \<times> 'a rte_ring" where
  "rte_ring_init mem name count flags =
     (let zero = \<lparr>rname = [], rflags = 0, rsize = 0, rmask = 0, rcapacity = 0, prod_head = 0, prod_tail = 0,
                  prod_single = False, cons_head = 0, cons_tail = 0, cons_single = False, slots = mem\<rparr>
      in if length name \<ge> RTE_MEMZONE_NAMESIZE then (-36, zero\<lparr>rname := take (RTE_MEMZONE_NAMESIZE - 1) name\<rparr>)
         else (let r = zero\<lparr>rname := name, rflags := flags, prod_single := (flags AND RING_F_SP_ENQ \<noteq> 0),
                            cons_single := (flags AND RING_F_SC_DEQ \<noteq> 0)\<rparr>
               in if flags AND RING_F_EXACT_SZ \<noteq> 0
                  then (0, r\<lparr>rsize := rte_align32pow2 (count + 1), rmask := rte_align32pow2 (count + 1) - 1,
                             rcapacity := count, slots := take (unat (rte_align32pow2 (count + 1))) mem\<rparr>)
                  else if \<not> POWEROF2 count \<or> count > RTE_RING_SZ_MASK then (-22, r)
                  else (0, r\<lparr>rsize := count, rmask := count - 1, rcapacity := count - 1,
                             slots := take (unat count) mem\<rparr>)))"

text \<open>
  The memory of the ring: \<open>zone sz\<close> is what \<^verbatim>\<open>rte_memzone_reserve_aligned\<close> returns for \<open>sz\<close> bytes, as the
  table of objects behind the structure; \<open>zmalloc\<close> tells whether the entry of the list of rings can be
  allocated.
\<close>

definition rte_ring_create :: "(int \<Rightarrow> 'a list option) \<Rightarrow> bool \<Rightarrow> string \<Rightarrow> u32 \<Rightarrow> u32 \<Rightarrow> 'a rte_ring option" where
  "rte_ring_create zone zmalloc name requested_count flags =
     (let count = (if flags AND RING_F_EXACT_SZ \<noteq> 0 then rte_align32pow2 (requested_count + 1) else requested_count);
          ring_size = rte_ring_get_memsize count
      in if ring_size < 0 then None
         else if length (''RG_'' @ name) \<ge> RTE_MEMZONE_NAMESIZE then None
         else if \<not> zmalloc then None
         else (case zone ring_size of
                 None \<Rightarrow> None
               | Some mem \<Rightarrow> Some (snd (rte_ring_init mem name requested_count flags))))"

section \<open>Copying objects\<close>

text \<open>\<^verbatim>\<open>dst[j] = src[i]\<close>\<close>

definition cp :: "'a list \<Rightarrow> nat \<Rightarrow> 'a list \<Rightarrow> nat \<Rightarrow> 'a list option" where
  "cp dst j src i = (if i < length src \<and> j < length dst then Some (dst[j := src ! i]) else None)"

text \<open>\<^verbatim>\<open>for (; k < m; k++, i++, j++) dst[j] = src[i]\<close>, and the same four at a time\<close>

function copy1 :: "nat \<Rightarrow> nat \<Rightarrow> nat \<Rightarrow> nat \<Rightarrow> 'a list \<Rightarrow> 'a list \<Rightarrow> (nat \<times> nat \<times> 'a list) option" where
  "copy1 m k i j src dst =
     (if k < m then do { dst1 \<leftarrow> cp dst j src i; copy1 m (k + 1) (i + 1) (j + 1) src dst1 }
      else Some (i, j, dst))"
  by pat_completeness auto
termination by (relation "measure (\<lambda>(m, k, _). m - k)") auto

function copy4 :: "nat \<Rightarrow> nat \<Rightarrow> nat \<Rightarrow> nat \<Rightarrow> 'a list \<Rightarrow> 'a list \<Rightarrow> (nat \<times> nat \<times> 'a list) option" where
  "copy4 m k i j src dst =
     (if k < m then do {
        d1 \<leftarrow> cp dst j src i;
        d2 \<leftarrow> cp d1 (j + 1) src (i + 1);
        d3 \<leftarrow> cp d2 (j + 2) src (i + 2);
        d4 \<leftarrow> cp d3 (j + 3) src (i + 3);
        copy4 m (k + 4) (i + 4) (j + 4) src d4
      }
      else Some (i, j, dst))"
  by pat_completeness auto
termination by (relation "measure (\<lambda>(m, k, _). m - k)") auto

declare copy1.simps [simp del] copy4.simps [simp del]

text \<open>The \<^verbatim>\<open>switch\<close> over the last one to three objects, whose cases fall through.\<close>

definition copy_switch :: "nat \<Rightarrow> nat \<Rightarrow> nat \<Rightarrow> 'a list \<Rightarrow> 'a list \<Rightarrow> 'a list option" where
  "copy_switch c i j src dst =
     (if c = 3 then do {
        d1 \<leftarrow> cp dst j src i; d2 \<leftarrow> cp d1 (j + 1) src (i + 1); cp d2 (j + 2) src (i + 2)
      }
      else if c = 2 then do { d1 \<leftarrow> cp dst j src i; cp d1 (j + 1) src (i + 1) }
      else if c = 1 then cp dst j src i
      else Some dst)"

definition enqueue_ptrs :: "'a rte_ring \<Rightarrow> u32 \<Rightarrow> 'a list \<Rightarrow> u32 \<Rightarrow> 'a list option" where
  "enqueue_ptrs r head obj_table n =
     (let size = rsize r; idx = head AND rmask r
      in if idx + n < size then do {
           (i, j, ring) \<leftarrow> copy4 (unat (n AND NOT 3)) 0 0 (unat idx) obj_table (slots r);
           copy_switch (unat (n AND 3)) i j obj_table ring
         }
         else do {
           (i, j, ring) \<leftarrow> copy1 (unat size) (unat idx) 0 (unat idx) obj_table (slots r);
           (i2, j2, ring2) \<leftarrow> copy1 (unat n) i i 0 obj_table ring;
           Some ring2
         })"

definition dequeue_ptrs :: "'a rte_ring \<Rightarrow> u32 \<Rightarrow> 'a list \<Rightarrow> u32 \<Rightarrow> 'a list option" where
  "dequeue_ptrs r head obj_table n =
     (let size = rsize r; idx = head AND rmask r
      in if idx + n < size then do {
           (i, j, objs) \<leftarrow> copy4 (unat (n AND NOT 3)) 0 (unat idx) 0 (slots r) obj_table;
           copy_switch (unat (n AND 3)) i j (slots r) objs
         }
         else do {
           (i, j, objs) \<leftarrow> copy1 (unat size) (unat idx) (unat idx) 0 (slots r) obj_table;
           (i2, j2, objs2) \<leftarrow> copy1 (unat n) j 0 j (slots r) objs;
           Some objs2
         })"

section \<open>Moving heads and tails\<close>

text \<open>
  The number of objects, the head before and after, the free entries before. A failed compare-and-set
  repeats the loop; when one thread runs it does not fail.
\<close>

partial_function (option) move_prod_head ::
    "bool \<Rightarrow> u32 \<Rightarrow> behavior \<Rightarrow> 'a rte_ring \<Rightarrow> (u32 \<times> u32 \<times> u32 \<times> u32 \<times> 'a rte_ring) option" where
  "move_prod_head is_sp mx beh r =
     (let old_head = prod_head r;
          free_entries = rcapacity r + cons_tail r - old_head;
          n = (if mx > free_entries then (if beh = QUEUE_FIXED then 0 else free_entries) else mx);
          new_head = old_head + n
      in if n = 0 then Some (0, old_head, new_head, free_entries, r)
         else if is_sp \<or> prod_head r = old_head then Some (n, old_head, new_head, free_entries, r\<lparr>prod_head := new_head\<rparr>)
         else move_prod_head is_sp mx beh r)"

partial_function (option) move_cons_head ::
    "bool \<Rightarrow> u32 \<Rightarrow> behavior \<Rightarrow> 'a rte_ring \<Rightarrow> (u32 \<times> u32 \<times> u32 \<times> u32 \<times> 'a rte_ring) option" where
  "move_cons_head is_sc mx beh r =
     (let old_head = cons_head r;
          entries = prod_tail r - old_head;
          n = (if mx > entries then (if beh = QUEUE_FIXED then 0 else entries) else mx);
          new_head = old_head + n
      in if n = 0 then Some (0, old_head, new_head, entries, r)
         else if is_sc \<or> cons_head r = old_head then Some (n, old_head, new_head, entries, r\<lparr>cons_head := new_head\<rparr>)
         else move_cons_head is_sc mx beh r)"

declare move_prod_head.simps [code] move_cons_head.simps [code]

text \<open>The new tail; without the single flag the thread first waits until the tail is \<open>old_val\<close>.\<close>

definition update_tail :: "u32 \<Rightarrow> u32 \<Rightarrow> u32 \<Rightarrow> bool \<Rightarrow> u32 option" where
  "update_tail tail old_val new_val single = (if single \<or> tail = old_val then Some new_val else None)"

section \<open>Enqueue and dequeue\<close>

text \<open>The number of objects enqueued, the free space left, the ring.\<close>

definition do_enqueue :: "'a rte_ring \<Rightarrow> 'a list \<Rightarrow> u32 \<Rightarrow> behavior \<Rightarrow> bool \<Rightarrow> (u32 \<times> u32 \<times> 'a rte_ring) option" where
  "do_enqueue r obj_table mx beh is_sp = do {
     (n, old, new, free_entries, r1) \<leftarrow> move_prod_head is_sp mx beh r;
     if n = 0 then Some (n, free_entries - n, r1)
     else do {
       ring \<leftarrow> enqueue_ptrs r1 old obj_table n;
       t \<leftarrow> update_tail (prod_tail r1) old new is_sp;
       Some (n, free_entries - n, r1\<lparr>slots := ring, prod_tail := t\<rparr>)
     }
   }"

text \<open>The number of objects dequeued, the entries left, the table of the caller, the ring.\<close>

definition do_dequeue :: "'a rte_ring \<Rightarrow> 'a list \<Rightarrow> u32 \<Rightarrow> behavior \<Rightarrow> bool \<Rightarrow> (u32 \<times> u32 \<times> 'a list \<times> 'a rte_ring) option" where
  "do_dequeue r obj_table mx beh is_sc = do {
     (n, old, new, entries, r1) \<leftarrow> move_cons_head is_sc mx beh r;
     if n = 0 then Some (n, entries - n, obj_table, r1)
     else do {
       objs \<leftarrow> dequeue_ptrs r1 old obj_table n;
       t \<leftarrow> update_tail (cons_tail r1) old new is_sc;
       Some (n, entries - n, objs, r1\<lparr>cons_tail := t\<rparr>)
     }
   }"

definition rte_ring_mp_enqueue_bulk where "rte_ring_mp_enqueue_bulk r obj_table n = do_enqueue r obj_table n QUEUE_FIXED False"
definition rte_ring_sp_enqueue_bulk where "rte_ring_sp_enqueue_bulk r obj_table n = do_enqueue r obj_table n QUEUE_FIXED True"
definition rte_ring_enqueue_bulk where "rte_ring_enqueue_bulk r obj_table n = do_enqueue r obj_table n QUEUE_FIXED (prod_single r)"
definition rte_ring_mp_enqueue_burst where "rte_ring_mp_enqueue_burst r obj_table n = do_enqueue r obj_table n QUEUE_VARIABLE False"
definition rte_ring_sp_enqueue_burst where "rte_ring_sp_enqueue_burst r obj_table n = do_enqueue r obj_table n QUEUE_VARIABLE True"
definition rte_ring_enqueue_burst where "rte_ring_enqueue_burst r obj_table n = do_enqueue r obj_table n QUEUE_VARIABLE (prod_single r)"
definition rte_ring_mc_dequeue_bulk where "rte_ring_mc_dequeue_bulk r obj_table n = do_dequeue r obj_table n QUEUE_FIXED False"
definition rte_ring_sc_dequeue_bulk where "rte_ring_sc_dequeue_bulk r obj_table n = do_dequeue r obj_table n QUEUE_FIXED True"
definition rte_ring_dequeue_bulk where "rte_ring_dequeue_bulk r obj_table n = do_dequeue r obj_table n QUEUE_FIXED (cons_single r)"
definition rte_ring_mc_dequeue_burst where "rte_ring_mc_dequeue_burst r obj_table n = do_dequeue r obj_table n QUEUE_VARIABLE False"
definition rte_ring_sc_dequeue_burst where "rte_ring_sc_dequeue_burst r obj_table n = do_dequeue r obj_table n QUEUE_VARIABLE True"
definition rte_ring_dequeue_burst where "rte_ring_dequeue_burst r obj_table n = do_dequeue r obj_table n QUEUE_VARIABLE (cons_single r)"

text \<open>One object: \<open>0\<close> on success, \<^verbatim>\<open>-ENOBUFS\<close> or \<^verbatim>\<open>-ENOENT\<close> otherwise.\<close>

definition one_enqueued :: "(u32 \<times> u32 \<times> 'a rte_ring) option \<Rightarrow> (int \<times> 'a rte_ring) option" where
  "one_enqueued res = do { (n, _, r1) \<leftarrow> res; Some (if n \<noteq> 0 then 0 else -105, r1) }"

definition rte_ring_mp_enqueue where "rte_ring_mp_enqueue r obj = one_enqueued (rte_ring_mp_enqueue_bulk r [obj] 1)"
definition rte_ring_sp_enqueue where "rte_ring_sp_enqueue r obj = one_enqueued (rte_ring_sp_enqueue_bulk r [obj] 1)"
definition rte_ring_enqueue where "rte_ring_enqueue r obj = one_enqueued (rte_ring_enqueue_bulk r [obj] 1)"

definition one_dequeued :: "(u32 \<times> u32 \<times> 'a list \<times> 'a rte_ring) option \<Rightarrow> (int \<times> 'a list \<times> 'a rte_ring) option" where
  "one_dequeued res = do { (n, _, objs, r1) \<leftarrow> res; Some (if n \<noteq> 0 then 0 else -2, objs, r1) }"

definition rte_ring_mc_dequeue where "rte_ring_mc_dequeue r obj_p = one_dequeued (rte_ring_mc_dequeue_bulk r obj_p 1)"
definition rte_ring_sc_dequeue where "rte_ring_sc_dequeue r obj_p = one_dequeued (rte_ring_sc_dequeue_bulk r obj_p 1)"
definition rte_ring_dequeue where "rte_ring_dequeue r obj_p = one_dequeued (rte_ring_dequeue_bulk r obj_p 1)"

lemmas ring_ops = rte_ring_mp_enqueue_bulk_def rte_ring_sp_enqueue_bulk_def rte_ring_enqueue_bulk_def
  rte_ring_mp_enqueue_burst_def rte_ring_sp_enqueue_burst_def rte_ring_enqueue_burst_def
  rte_ring_mc_dequeue_bulk_def rte_ring_sc_dequeue_bulk_def rte_ring_dequeue_bulk_def
  rte_ring_mc_dequeue_burst_def rte_ring_sc_dequeue_burst_def rte_ring_dequeue_burst_def

section \<open>Inspection\<close>

definition rte_ring_count :: "'a rte_ring \<Rightarrow> u32" where
  "rte_ring_count r =
     (let count = (prod_tail r - cons_tail r) AND rmask r in if count > rcapacity r then rcapacity r else count)"

definition rte_ring_free_count :: "'a rte_ring \<Rightarrow> u32" where
  "rte_ring_free_count r = rcapacity r - rte_ring_count r"

definition rte_ring_full :: "'a rte_ring \<Rightarrow> bool" where
  "rte_ring_full r \<longleftrightarrow> rte_ring_free_count r = 0"

definition rte_ring_empty :: "'a rte_ring \<Rightarrow> bool" where
  "rte_ring_empty r \<longleftrightarrow> rte_ring_count r = 0"

end
