(* ===== verification/Ring_Queue.thy ===== *)
theory Ring_Queue
  imports Rte_Ring
begin

text \<open>
  The ring refines a bounded queue: the unrolled copy loops move the objects to the slots
  \<open>(head + u) mod size\<close>, across the end of the table and the wrap-around of the counters.
\<close>

section \<open>The copy loops\<close>

definition overlay :: "nat \<Rightarrow> 'a list \<Rightarrow> 'a list \<Rightarrow> 'a list" where
  "overlay j xs dst = take j dst @ xs @ drop (j + length xs) dst"

lemma overlay_Nil [simp]: "overlay j [] dst = dst"
  by (simp add: overlay_def)

lemma length_overlay [simp]: "j + length xs \<le> length dst \<Longrightarrow> length (overlay j xs dst) = length dst"
  by (simp add: overlay_def)

lemma overlay_Cons:
  assumes "j < length dst"
  shows "overlay (Suc j) xs (dst[j := x]) = overlay j (x # xs) dst"
proof -
  have "take (Suc j) (dst[j := x]) = take j dst @ [x]"
    using assms by (simp add: take_Suc_conv_app_nth)
  then show ?thesis by (simp add: overlay_def)
qed

lemma overlay_snoc:
  assumes "j + length xs < length dst"
  shows "overlay j (xs @ [x]) dst = (overlay j xs dst)[j + length xs := x]"
proof -
  have "drop (j + length xs) dst = dst ! (j + length xs) # drop (Suc (j + length xs)) dst"
    using assms by (simp add: Cons_nth_drop_Suc)
  then show ?thesis using assms by (simp add: overlay_def list_update_append)
qed

lemma overlay_overlay:
  assumes "j + length xs \<le> length dst"
  shows "overlay (j + length xs) ys (overlay j xs dst) = overlay j (xs @ ys) dst"
  using assms by (simp add: overlay_def ac_simps)

lemma copy1_overlay:
  assumes "k \<le> m" and "i + (m - k) \<le> length src" and "j + (m - k) \<le> length dst"
  shows "copy1 m k i j src dst = Some (i + (m - k), j + (m - k), overlay j (take (m - k) (drop i src)) dst)"
  using assms
proof (induction "m - k" arbitrary: k i j dst)
  case 0
  then show ?case by (subst copy1.simps) simp
next
  case (Suc n)
  then have k: "k < m" "n = m - Suc k" by simp_all
  have ij: "i < length src" "j < length dst" using Suc.prems k(1) by linarith+
  have cp: "cp dst j src i = Some (dst[j := src ! i])" using ij by (simp add: cp_def)
  have "drop i src = src ! i # drop (Suc i) src" using ij by (simp add: Cons_nth_drop_Suc)
  then have t: "take (m - k) (drop i src) = src ! i # take n (drop (Suc i) src)"
    using Suc.hyps(2) by (metis take_Suc_Cons)
  have "copy1 m k i j src dst = copy1 m (Suc k) (Suc i) (Suc j) src (dst[j := src ! i])"
    using k cp by (subst copy1.simps) simp
  also have "\<dots> = Some (Suc i + (m - Suc k), Suc j + (m - Suc k),
      overlay (Suc j) (take (m - Suc k) (drop (Suc i) src)) (dst[j := src ! i]))"
    by (rule Suc.hyps(1)) (use Suc k in simp_all)
  also have "overlay (Suc j) (take (m - Suc k) (drop (Suc i) src)) (dst[j := src ! i]) =
      overlay j (take (m - k) (drop i src)) dst"
    using ij k t by (simp add: overlay_Cons)
  finally show ?case using k by (simp add: Suc_diff_Suc)
qed

text \<open>Unrolled or not, the loop does the same.\<close>

lemma copy4_copy1: "copy4 (k + 4 * q) k i j src dst = copy1 (k + 4 * q) k i j src dst"
proof (induction q arbitrary: k i j dst)
  case 0
  then show ?case by (simp add: copy4.simps [of k] copy1.simps [of k])
next
  case (Suc q)
  define m where "m = k + 4 * Suc q"
  have IH: "copy4 m (k + 4) i j src = copy1 m (k + 4) i j src" for i j
    using Suc.IH [of "k + 4" i j] by (auto simp: m_def add.assoc)
  have step: "copy1 m k' i' j' src = (\<lambda>d. do { d1 \<leftarrow> cp d j' src i'; copy1 m (k' + 1) (i' + 1) (j' + 1) src d1 })"
    if "k' < m" for k' i' j'
    using that by (intro ext) (subst copy1.simps, simp)
  have "copy1 m k i j src dst = do {
      d1 \<leftarrow> cp dst j src i; d2 \<leftarrow> cp d1 (j + 1) src (i + 1); d3 \<leftarrow> cp d2 (j + 2) src (i + 2);
      d4 \<leftarrow> cp d3 (j + 3) src (i + 3); copy1 m (k + 4) (i + 4) (j + 4) src d4 }"
    using step [of k] step [of "k + 1"] step [of "k + 2"] step [of "k + 3"] by (simp add: m_def numeral_eq_Suc)
  moreover have "k < m" by (simp add: m_def)
  ultimately show ?case unfolding m_def [symmetric] by (subst copy4.simps) (simp add: IH)
qed

lemma copy_switch_copy1: "c < 4 \<Longrightarrow> copy_switch c i j src dst = map_option (\<lambda>(_, _, d). d) (copy1 c 0 i j src dst)"
proof -
  assume "c < 4"
  then consider "c = 0" | "c = 1" | "c = 2" | "c = 3" by linarith
  then show ?thesis
    by cases (simp_all add: copy_switch_def copy1.simps numeral_eq_Suc Option.map_conv_bind_option split: option.split)
qed

section \<open>Where the objects go\<close>

text \<open>Object \<open>u\<close> goes to the slot \<open>(idx + u) mod sz\<close>; without any unrolling.\<close>

primrec enq_ref :: "nat \<Rightarrow> nat \<Rightarrow> 'a list \<Rightarrow> nat \<Rightarrow> 'a list \<Rightarrow> 'a list" where
  "enq_ref sz idx objs 0 ring = ring"
| "enq_ref sz idx objs (Suc u) ring = (enq_ref sz idx objs u ring)[(idx + u) mod sz := objs ! u]"

definition deq_ref :: "nat \<Rightarrow> nat \<Rightarrow> nat \<Rightarrow> 'a list \<Rightarrow> 'a list" where
  "deq_ref sz idx n ring = map (\<lambda>u. ring ! ((idx + u) mod sz)) [0..<n]"

lemma length_enq_ref [simp]: "length (enq_ref sz idx objs n ring) = length ring"
  by (induction n) simp_all

lemma overlay_enq_ref:
  assumes "idx + n \<le> sz" and "n \<le> length objs" and "length ring = sz"
  shows "overlay idx (take n objs) ring = enq_ref sz idx objs n ring"
  using assms
proof (induction n)
  case (Suc n)
  have "take (Suc n) objs = take n objs @ [objs ! n]" using Suc.prems by (simp add: take_Suc_conv_app_nth)
  moreover have "(idx + n) mod sz = idx + n" using Suc.prems by simp
  ultimately show ?case
    using Suc overlay_snoc [of idx "take n objs" ring "objs ! n"] by (simp add: min_def)
qed simp

lemma overlay_enq_ref_wrap:
  assumes "idx < sz" and "sz - idx + v \<le> length objs" and "v \<le> idx" and "length ring = sz"
  shows "overlay 0 (take v (drop (sz - idx) objs)) (overlay idx (take (sz - idx) objs) ring) =
    enq_ref sz idx objs (sz - idx + v) ring"
  using assms
proof (induction v)
  case 0
  then show ?case by (simp add: overlay_enq_ref)
next
  case (Suc v)
  have "take (Suc v) (drop (sz - idx) objs) = take v (drop (sz - idx) objs) @ [objs ! (sz - idx + v)]"
    using Suc.prems by (simp add: take_Suc_conv_app_nth)
  moreover have "(idx + (sz - idx + v)) mod sz = v" using Suc.prems by simp
  moreover have "length (take v (drop (sz - idx) objs)) = v" using Suc.prems by simp
  moreover have "length (overlay idx (take (sz - idx) objs) ring) = sz" using Suc.prems by simp
  ultimately show ?case
    using Suc overlay_snoc [of 0 "take v (drop (sz - idx) objs)" "overlay idx (take (sz - idx) objs) ring" "objs ! (sz - idx + v)"]
    by simp
qed

lemma deq_ref_take:
  assumes "idx + n \<le> sz" and "length ring = sz"
  shows "take n (drop idx ring) = deq_ref sz idx n ring"
proof (rule nth_equalityI)
  show "length (take n (drop idx ring)) = length (deq_ref sz idx n ring)" using assms by (simp add: deq_ref_def)
  fix u assume "u < length (take n (drop idx ring))"
  then have "u < n" "idx + u < sz" using assms by auto
  then show "take n (drop idx ring) ! u = deq_ref sz idx n ring ! u" using assms by (simp add: deq_ref_def)
qed

lemma deq_ref_wrap:
  assumes "idx < sz" and "v \<le> idx" and "length ring = sz"
  shows "take (sz - idx) (drop idx ring) @ take v ring = deq_ref sz idx (sz - idx + v) ring"
proof (rule nth_equalityI)
  show "length (take (sz - idx) (drop idx ring) @ take v ring) = length (deq_ref sz idx (sz - idx + v) ring)"
    using assms by (simp add: deq_ref_def)
  fix u assume u: "u < length (take (sz - idx) (drop idx ring) @ take v ring)"
  then have "u < sz - idx + v" using assms by simp
  then have "deq_ref sz idx (sz - idx + v) ring ! u = ring ! ((idx + u) mod sz)" by (simp add: deq_ref_def)
  moreover have "(idx + u) mod sz = u - (sz - idx)" if "\<not> u < sz - idx"
  proof -
    have "idx + u = (u - (sz - idx)) + sz" "u - (sz - idx) < sz" using that u assms by auto
    then show ?thesis by (metis mod_add_self2 mod_less)
  qed
  ultimately show "(take (sz - idx) (drop idx ring) @ take v ring) ! u = deq_ref sz idx (sz - idx + v) ring ! u"
    using u assms by (simp add: nth_append)
qed

section \<open>Words\<close>

lemma unat_mask_idx:
  assumes "k < 32" and "sz = 2 ^ k"
  shows "unat ((head :: u32) AND (sz - 1)) = unat head mod 2 ^ k"
proof -
  have "head AND (sz - 1) = take_bit k head"
    by (simp add: assms take_bit_eq_mask mask_eq_exp_minus_1)
  moreover have "unat (take_bit k head) = take_bit k (unat head)" by (rule unsigned_take_bit_eq)
  moreover have "take_bit k (unat head) = unat head mod 2 ^ k" by (rule take_bit_eq_mod)
  ultimately show ?thesis by (simp only:)
qed

lemma unat_u32: "unat (n :: u32) < 2 ^ 32"
  using unsigned_less [of n] by simp

lemma unat_and_3: "unat ((n :: u32) AND 3) = unat n mod 4"
  using unat_mask_idx [of 2 4 n] by simp

lemma unat_and_not_3: "unat ((n :: u32) AND NOT 3) = 4 * (unat n div 4)"
proof -
  have three: "bit (3 :: u32) i \<longleftrightarrow> i < 2" for i
  proof -
    have "(3 :: u32) = mask 2" by (simp add: mask_eq_exp_minus_1)
    then show ?thesis by (simp only: bit_mask_iff possible_bit_word) auto
  qed
  have ix: "Suc (Suc (i - 2)) = i" if "2 \<le> i" for i using that by simp
  have "n AND NOT 3 = push_bit 2 (drop_bit 2 n)"
    by (rule bit_word_eqI, unfold bit_and_iff bit_not_iff three bit_push_bit_iff bit_drop_bit_eq possible_bit_word)
      (auto simp: ix not_less)
  moreover have "4 * (unat n div 4) < 2 ^ 32"
  proof -
    show ?thesis by (rule le_less_trans [OF times_div_less_eq_dividend unat_u32])
  qed
  ultimately have eq: "n AND NOT 3 = push_bit 2 (drop_bit 2 n)" and small: "4 * (unat n div 4) < 2 ^ 32" by blast+
  have "unat (n AND NOT 3) = take_bit LENGTH(32) (push_bit 2 (drop_bit 2 (take_bit LENGTH(32) (unat n))))"
    unfolding eq by (simp only: unsigned_push_bit_eq unsigned_drop_bit_eq)
  also have "\<dots> = take_bit 32 (push_bit 2 (drop_bit 2 (unat n)))"
    using unat_u32 [of n] by (simp add: take_bit_nat_eq_self)
  also have "\<dots> = 4 * (unat n div 4)"
    using small by (simp add: push_bit_eq_mult drop_bit_eq_div take_bit_nat_eq_self)
  finally show ?thesis .
qed

lemma unat_add_small:
  assumes "unat (a :: u32) + unat b < 2 ^ 32"
  shows "unat (a + b) = unat a + unat b"
  using assms by (simp add: unat_word_ariths)

section \<open>Well-formed rings\<close>

text \<open>A ring with \<open>2 ^ k\<close> slots in which no operation is under way.\<close>

definition ring_ok :: "nat \<Rightarrow> 'a rte_ring \<Rightarrow> bool" where
  "ring_ok k r \<longleftrightarrow> k < 32 \<and> rsize r = 2 ^ k \<and> rmask r = rsize r - 1 \<and> length (slots r) = 2 ^ k \<and>
     unat (rcapacity r) < 2 ^ k \<and> prod_head r = prod_tail r \<and> cons_head r = cons_tail r \<and>
     unat (prod_tail r - cons_tail r) \<le> unat (rcapacity r)"

definition used :: "'a rte_ring \<Rightarrow> nat" where
  "used r = unat (prod_tail r - cons_tail r)"

definition contents :: "'a rte_ring \<Rightarrow> 'a list" where
  "contents r = map (\<lambda>t. slots r ! ((unat (cons_tail r) + t) mod length (slots r))) [0..<used r]"

definition room :: "'a rte_ring \<Rightarrow> nat" where
  "room r = unat (rcapacity r)"

lemma length_contents [simp]: "length (contents r) = used r"
  by (simp add: contents_def)

lemma ring_okD:
  assumes "ring_ok k r"
  shows "k < 32" and "unat (rsize r) = 2 ^ k" and "length (slots r) = 2 ^ k" and "room r < 2 ^ k"
    and "used r \<le> room r" and "prod_head r = prod_tail r" and "cons_head r = cons_tail r"
    and "unat (h AND rmask r) = unat h mod 2 ^ k"
proof -
  have "(2 :: nat) ^ k < 2 ^ 32" using assms by (intro power_strict_increasing) (simp_all add: ring_ok_def)
  then have "unat (of_nat (2 ^ k) :: u32) = 2 ^ k" by (simp only: unat_of_nat) simp
  then show "unat (rsize r) = 2 ^ k" using assms by (simp add: ring_ok_def)
qed (use assms unat_mask_idx in \<open>auto simp: ring_ok_def room_def used_def\<close>)

lemma fast_copy:
  fixes n :: u32
  assumes "i + unat n \<le> length src" and "j + unat n \<le> length dst"
  shows "(do { (i', j', d) \<leftarrow> copy4 (unat (n AND NOT 3)) 0 i j src dst; copy_switch (unat (n AND 3)) i' j' src d }) =
    Some (overlay j (take (unat n) (drop i src)) dst)"
proof -
  let ?q = "4 * (unat n div 4)" and ?c = "unat n mod 4"
  have qc: "?q + ?c = unat n" by simp
  have c4: "copy4 ?q 0 i j src dst = Some (i + ?q, j + ?q, overlay j (take ?q (drop i src)) dst)"
    using copy4_copy1 [of 0 "unat n div 4" i j src dst] copy1_overlay [of 0 ?q i src j dst] assms qc by simp
  have len: "length (take ?q (drop i src)) = ?q" using assms qc by simp
  have "copy_switch ?c (i + ?q) (j + ?q) src (overlay j (take ?q (drop i src)) dst) =
      Some (overlay (j + ?q) (take ?c (drop (i + ?q) src)) (overlay j (take ?q (drop i src)) dst))"
    using copy1_overlay [of 0 ?c "i + ?q" src "j + ?q" "overlay j (take ?q (drop i src)) dst"] assms qc len
    by (simp add: copy_switch_copy1)
  also have "overlay (j + ?q) (take ?c (drop (i + ?q) src)) (overlay j (take ?q (drop i src)) dst) =
      overlay j (take (unat n) (drop i src)) dst"
  proof -
    have "take (unat n) (drop i src) = take ?q (drop i src) @ take ?c (drop (i + ?q) src)"
      using take_add [of ?q ?c "drop i src"] qc by (simp add: add.commute)
    then show ?thesis using overlay_overlay [of j "take ?q (drop i src)" dst "take ?c (drop (i + ?q) src)"] len assms(2) qc by simp
  qed
  finally show ?thesis unfolding unat_and_3 unat_and_not_3 using c4 by simp
qed

lemma slow_or_fast:
  assumes "ring_ok k r" and "unat n < 2 ^ k"
  shows "(h AND rmask r) + n < rsize r \<longleftrightarrow> unat h mod 2 ^ k + unat n < 2 ^ k"
proof -
  note ok = ring_okD [OF assms(1)]
  have "(2 :: nat) ^ k + 2 ^ k \<le> 2 ^ 32"
    using power_increasing [of "Suc k" 32 "2 :: nat"] ok(1) by simp
  moreover have "unat h mod 2 ^ k < 2 ^ k" by simp
  ultimately have "unat h mod 2 ^ k + unat n < 2 ^ 32" using assms(2) by linarith
  then have "unat ((h AND rmask r) + n) = unat h mod 2 ^ k + unat n"
    using unat_add_small [of "h AND rmask r" n] ok(8) by simp
  then show ?thesis using ok(2) by (simp add: word_less_nat_alt)
qed

lemma enqueue_ptrs_ref:
  assumes ok: "ring_ok k r" and n: "unat n \<le> room r" "unat n \<le> length objs"
  shows "enqueue_ptrs r h objs n = Some (enq_ref (2 ^ k) (unat h mod 2 ^ k) objs (unat n) (slots r))"
proof -
  note D = ring_okD [OF ok]
  let ?idx = "unat h mod 2 ^ k" and ?sz = "2 ^ k :: nat"
  have nk: "unat n < ?sz" using n D(4) by simp
  have idx: "?idx < ?sz" by simp
  show ?thesis
  proof (cases "?idx + unat n < ?sz")
    case True
    then show ?thesis
      using fast_copy [of 0 n objs ?idx "slots r"] n(2) D(3,8) slow_or_fast [OF ok nk]
      by (simp add: enqueue_ptrs_def overlay_enq_ref)
  next
    case False
    let ?v = "unat n - (?sz - ?idx)"
    have v: "?sz - ?idx + ?v = unat n" "?v \<le> ?idx" "?sz - ?idx \<le> length objs" using False nk n(2) by auto
    have v4: "?v \<le> ?sz" using v(2) idx by linarith
    let ?ring = "overlay ?idx (take (?sz - ?idx) objs) (slots r)"
    have 1: "copy1 ?sz ?idx 0 ?idx objs (slots r) = Some (?sz - ?idx, ?sz, ?ring)"
      using copy1_overlay [of ?idx ?sz 0 objs ?idx "slots r"] v D(3) by simp
    have "length ?ring = ?sz" using v D(3) by simp
    then have 2: "copy1 (unat n) (?sz - ?idx) (?sz - ?idx) 0 objs ?ring =
        Some (unat n, ?v, overlay 0 (take ?v (drop (?sz - ?idx) objs)) ?ring)"
      using copy1_overlay [of "?sz - ?idx" "unat n" "?sz - ?idx" objs 0 ?ring] v v4 n(2) by simp
    show ?thesis
      using False 1 2 overlay_enq_ref_wrap [OF idx, of ?v objs "slots r"] v n(2) D(2,3,8) slow_or_fast [OF ok nk]
      by (simp add: enqueue_ptrs_def)
  qed
qed

lemma dequeue_ptrs_ref:
  assumes ok: "ring_ok k r" and n: "unat n \<le> room r" "unat n \<le> length objs"
  shows "dequeue_ptrs r h objs n = Some (overlay 0 (deq_ref (2 ^ k) (unat h mod 2 ^ k) (unat n) (slots r)) objs)"
proof -
  note D = ring_okD [OF ok]
  let ?idx = "unat h mod 2 ^ k" and ?sz = "2 ^ k :: nat"
  have nk: "unat n < ?sz" using n D(4) by simp
  have idx: "?idx < ?sz" by simp
  show ?thesis
  proof (cases "?idx + unat n < ?sz")
    case True
    then show ?thesis
      using fast_copy [of ?idx n "slots r" 0 objs] n(2) D(3,8) slow_or_fast [OF ok nk]
        deq_ref_take [of ?idx "unat n" ?sz "slots r"]
      by (simp add: dequeue_ptrs_def)
  next
    case False
    let ?v = "unat n - (?sz - ?idx)"
    have v: "?sz - ?idx + ?v = unat n" "?v \<le> ?idx" "?sz - ?idx \<le> length objs" using False nk n(2) by auto
    have v4: "?v \<le> ?sz" using v(2) idx by linarith
    let ?objs = "overlay 0 (take (?sz - ?idx) (drop ?idx (slots r))) objs"
    have 1: "copy1 ?sz ?idx ?idx 0 (slots r) objs = Some (?sz, ?sz - ?idx, ?objs)"
      using copy1_overlay [of ?idx ?sz ?idx "slots r" 0 objs] v D(3) by simp
    have len: "length ?objs = length objs" "length (take (?sz - ?idx) (drop ?idx (slots r))) = ?sz - ?idx"
      using v D(3) by simp_all
    then have 2: "copy1 (unat n) (?sz - ?idx) 0 (?sz - ?idx) (slots r) ?objs =
        Some (?v, unat n, overlay (?sz - ?idx) (take ?v (slots r)) ?objs)"
      using copy1_overlay [of "?sz - ?idx" "unat n" 0 "slots r" "?sz - ?idx" ?objs] v v4 n(2) D(3) by simp
    have "overlay (?sz - ?idx) (take ?v (slots r)) ?objs =
        overlay 0 (take (?sz - ?idx) (drop ?idx (slots r)) @ take ?v (slots r)) objs"
      using overlay_overlay [of 0 "take (?sz - ?idx) (drop ?idx (slots r))" objs "take ?v (slots r)"] len v by simp
    also have "\<dots> = overlay 0 (deq_ref ?sz ?idx (unat n) (slots r)) objs"
      using deq_ref_wrap [OF idx v(2) D(3)] v(1) by simp
    finally show ?thesis
      using False 1 2 D(2,8) slow_or_fast [OF ok nk] by (simp add: dequeue_ptrs_def)
  qed
qed

section \<open>The ring is a queue\<close>

lemma enq_ref_nth:
  assumes "length ring = sz" and "n \<le> sz" and "s < sz"
  shows "enq_ref sz idx objs n ring ! ((idx + s) mod sz) = (if s < n then objs ! s else ring ! ((idx + s) mod sz))"
  using assms(2)
proof (induction n)
  case (Suc n)
  have "(idx + n) mod sz = (idx + s) mod sz \<longleftrightarrow> n = s"
  proof
    assume "(idx + n) mod sz = (idx + s) mod sz"
    then have "sz dvd s - n" if "n \<le> s" using mod_eq_dvd_iff_nat [of "idx + n" "idx + s" sz] that by simp
    then have "\<not> n < s" using nat_dvd_not_less [of "s - n" sz] less_imp_diff_less [of s sz n] assms(3) by auto
    moreover have "sz dvd n - s" if "s \<le> n"
      using mod_eq_dvd_iff_nat [of "idx + s" "idx + n" sz] that \<open>(idx + n) mod sz = (idx + s) mod sz\<close> by simp
    then have "\<not> s < n" using nat_dvd_not_less [of "n - s" sz] less_imp_diff_less [of n sz s] Suc.prems by auto
    ultimately show "n = s" by simp
  qed simp
  moreover have "(idx + n) mod sz < sz" using assms(3) by (intro mod_less_divisor) simp
  ultimately show ?case using Suc assms(1) by (auto simp: nth_list_update less_Suc_eq)
qed simp

lemma prod_cons_mod:
  assumes "ring_ok k r"
  shows "unat (prod_tail r) mod 2 ^ k = (unat (cons_tail r) + used r) mod 2 ^ k"
proof -
  have "unat (prod_tail r) = unat (cons_tail r + (prod_tail r - cons_tail r))" by simp
  also have "\<dots> = (unat (cons_tail r) + used r) mod 2 ^ 32"
    unfolding used_def by (simp only: unat_word_ariths) simp
  finally have "unat (prod_tail r) mod 2 ^ k = (unat (cons_tail r) + used r) mod 2 ^ 32 mod 2 ^ k" by simp
  also have "\<dots> = (unat (cons_tail r) + used r) mod 2 ^ k"
    using ring_okD(1) [OF assms] by (intro mod_mod_cancel le_imp_power_dvd) simp
  finally show ?thesis .
qed

lemma contents_enqueued:
  assumes ok: "ring_ok k r" and n: "unat n + used r \<le> room r" "unat n \<le> length objs"
    and r': "r' = r\<lparr>prod_head := prod_head r + n, prod_tail := prod_tail r + n,
        slots := enq_ref (2 ^ k) (unat (prod_tail r) mod 2 ^ k) objs (unat n) (slots r)\<rparr>"
  shows "ring_ok k r'" and "contents r' = contents r @ take (unat n) objs"
proof -
  note D = ring_okD [OF ok]
  have "unat (prod_tail r - cons_tail r + n) = used r + unat n"
    using unat_add_small [of "prod_tail r - cons_tail r" n] n(1) unat_u32 [of "rcapacity r"]
    by (simp add: used_def room_def)
  then have u: "used r' = used r + unat n" by (simp add: r' used_def algebra_simps)
  show "ring_ok k r'" using ok n(1) u by (simp add: ring_ok_def r' used_def room_def)
  have pos: "(unat (prod_tail r) mod 2 ^ k + s) mod 2 ^ k = (unat (cons_tail r) + (used r + s)) mod 2 ^ k" for s
    using prod_cons_mod [OF ok] by (metis add.assoc mod_add_left_eq)
  have slot: "slots r' ! ((unat (cons_tail r) + t) mod 2 ^ k) =
      (if used r \<le> t \<and> t < used r + unat n then objs ! (t - used r) else slots r ! ((unat (cons_tail r) + t) mod 2 ^ k))"
    if t: "t < 2 ^ k" for t
  proof (cases "used r \<le> t")
    case True
    then show ?thesis
      using enq_ref_nth [of "slots r" "2 ^ k" "unat n" "t - used r" "unat (prod_tail r) mod 2 ^ k" objs] t n D(3,4) pos [of "t - used r"]
      by (auto simp: r')
  next
    case False
    let ?s = "2 ^ k - used r + t"
    have s: "?s < 2 ^ k" "\<not> ?s < unat n" "used r + ?s = t + 2 ^ k" using False t n(1) D(4,5) by auto
    have "(unat (prod_tail r) mod 2 ^ k + ?s) mod 2 ^ k = (unat (cons_tail r) + t) mod 2 ^ k"
    proof -
      have "(unat (cons_tail r) + (t + 2 ^ k)) mod 2 ^ k = (unat (cons_tail r) + t) mod 2 ^ k"
        unfolding add.assoc [symmetric] by (rule mod_add_self2)
      then show ?thesis using pos [of ?s] unfolding s(3) by simp
    qed
    then show ?thesis
      using enq_ref_nth [of "slots r" "2 ^ k" "unat n" ?s "unat (prod_tail r) mod 2 ^ k" objs] s False n D(3,4)
      by (simp add: r')
  qed
  show "contents r' = contents r @ take (unat n) objs"
  proof (rule nth_equalityI)
    show "length (contents r') = length (contents r @ take (unat n) objs)" using u n(2) by simp
    fix t assume "t < length (contents r')"
    then have t: "t < used r + unat n" "t < 2 ^ k" using u n(1) D(4) by auto
    have "length (slots r') = 2 ^ k" "cons_tail r' = cons_tail r" using D(3) by (simp_all add: r')
    then have "contents r' ! t = slots r' ! ((unat (cons_tail r) + t) mod 2 ^ k)" using t u by (simp add: contents_def)
    then show "contents r' ! t = (contents r @ take (unat n) objs) ! t"
      using slot [OF t(2)] t n(2) D(3) by (simp add: nth_append) (simp add: contents_def)
  qed
qed

lemma unat_minus_small: "unat (b :: u32) \<le> unat a \<Longrightarrow> unat (a - b) = unat a - unat b"
  by (simp add: unat_sub word_le_nat_alt)

lemma unat_eq_of_nat: "unat (w :: u32) = n \<Longrightarrow> w = of_nat n"
  by auto

lemma contents_dequeued:
  assumes ok: "ring_ok k r" and n: "unat n \<le> used r"
    and r': "r' = r\<lparr>cons_head := cons_head r + n, cons_tail := cons_tail r + n\<rparr>"
  shows "ring_ok k r'" and "contents r' = drop (unat n) (contents r)"
    and "deq_ref (2 ^ k) (unat (cons_tail r) mod 2 ^ k) (unat n) (slots r) = take (unat n) (contents r)"
proof -
  note D = ring_okD [OF ok]
  have "unat (prod_tail r - cons_tail r - n) = used r - unat n"
    using unat_minus_small [of n "prod_tail r - cons_tail r"] n by (simp add: used_def)
  then have u: "used r' = used r - unat n" by (simp add: r' used_def diff_diff_eq)
  have "used r' \<le> room r" using u D(5) by simp
  then show "ring_ok k r'" using ok by (simp add: ring_ok_def r' used_def room_def)
  have pos: "(unat (cons_tail r + n) + t) mod 2 ^ k = (unat (cons_tail r) + (unat n + t)) mod 2 ^ k" for t
  proof -
    have "unat (cons_tail r + n) mod 2 ^ k = (unat (cons_tail r) + unat n) mod 2 ^ 32 mod 2 ^ k"
      by (simp only: unat_word_ariths) simp
    also have "\<dots> = (unat (cons_tail r) + unat n) mod 2 ^ k"
      using D(1) by (intro mod_mod_cancel le_imp_power_dvd) simp
    finally show ?thesis by (metis add.assoc mod_add_left_eq)
  qed
  show "contents r' = drop (unat n) (contents r)"
  proof (rule nth_equalityI)
    have "slots r' = slots r" "cons_tail r' = cons_tail r + n" by (simp_all add: r')
    then show "contents r' ! i = drop (unat n) (contents r) ! i" if "i < length (contents r')" for i
      using that u n D(3) pos [of i] nth_upt [of 0 "unat n + i" "used r"] by (simp add: contents_def less_diff_conv ac_simps)
  qed (use u in simp)
  show "deq_ref (2 ^ k) (unat (cons_tail r) mod 2 ^ k) (unat n) (slots r) = take (unat n) (contents r)"
    by (rule nth_equalityI) (use n D(3) in \<open>simp_all add: contents_def deq_ref_def mod_add_left_eq\<close>)
qed

section \<open>The operations\<close>

text \<open>How many of \<open>n\<close> objects are moved when there is room for \<open>free\<close>.\<close>

definition moved :: "behavior \<Rightarrow> nat \<Rightarrow> nat \<Rightarrow> nat" where
  "moved beh free n = (if n \<le> free then n else if beh = QUEUE_FIXED then 0 else free)"

lemma moved_le: "moved beh free n \<le> free" "moved beh free n \<le> n"
  by (auto simp: moved_def)

lemma moved_word:
  "unat (if mx > free then (if beh = QUEUE_FIXED then 0 else free) else (mx :: u32)) = moved beh (unat free) (unat mx)"
  by (auto simp: moved_def word_less_nat_alt)

definition same_ring :: "'a rte_ring \<Rightarrow> 'a rte_ring \<Rightarrow> bool" where
  "same_ring r r' \<longleftrightarrow> rcapacity r' = rcapacity r \<and> prod_single r' = prod_single r \<and> cons_single r' = cons_single r"

lemma enqueue_ptrs_frame: "enqueue_ptrs (r\<lparr>prod_head := h\<rparr>) old objs n = enqueue_ptrs r old objs n"
  by (simp add: enqueue_ptrs_def Let_def)

lemma dequeue_ptrs_frame: "dequeue_ptrs (r\<lparr>cons_head := h\<rparr>) old objs n = dequeue_ptrs r old objs n"
  by (simp add: dequeue_ptrs_def Let_def)

lemma do_enqueue_spec:
  assumes ok: "ring_ok k r" and n: "n = moved beh (room r - used r) (unat mx)" and objs: "n \<le> length objs"
  shows "\<exists>r'. do_enqueue r objs mx beh is_sp = Some (of_nat n, of_nat (room r - used r - n), r') \<and>
    ring_ok k r' \<and> contents r' = contents r @ take n objs \<and> same_ring r r'"
proof -
  note D = ring_okD [OF ok]
  let ?free = "rcapacity r + cons_tail r - prod_head r"
  let ?n = "if mx > ?free then (if beh = QUEUE_FIXED then 0 else ?free) else mx"
  have fr: "?free = rcapacity r - (prod_tail r - cons_tail r)" using D(6) by simp
  have free: "unat ?free = room r - used r"
    unfolding fr using unat_minus_small [of "prod_tail r - cons_tail r" "rcapacity r"] D(5) by (simp add: used_def room_def)
  define w where "w = ?n"
  have un: "unat w = n" unfolding w_def moved_word free n ..
  have wn: "w = of_nat n" using un by (rule unat_eq_of_nat)
  have le: "n + used r \<le> room r" using moved_le(1) [of beh "room r - used r" "unat mx"] n D(5) by simp
  have fs: "?free - w = of_nat (room r - used r - n)"
    using unat_minus_small [of w ?free] un free le by (intro unat_eq_of_nat) simp
  have unfold: "move_prod_head is_sp mx beh r =
      (if w = 0 then Some (0, prod_head r, prod_head r + w, ?free, r)
       else Some (w, prod_head r, prod_head r + w, ?free, r\<lparr>prod_head := prod_head r + w\<rparr>))"
    unfolding w_def by (subst move_prod_head.simps) (simp only: Let_def simp_thms if_True)
  show ?thesis
  proof (cases "w = 0")
    case True
    then have "do_enqueue r objs mx beh is_sp = Some (0, ?free - w, r)" by (simp add: do_enqueue_def unfold)
    moreover have "n = 0" using True un by simp
    ultimately show ?thesis using ok fs by (auto simp: same_ring_def)
  next
    case False
    let ?ring = "enq_ref (2 ^ k) (unat (prod_tail r) mod 2 ^ k) objs n (slots r)"
    let ?r' = "r\<lparr>prod_head := prod_head r + w, slots := ?ring, prod_tail := prod_head r + w\<rparr>"
    have "enqueue_ptrs r (prod_head r) objs w = Some ?ring"
      using enqueue_ptrs_ref [OF ok, of w objs "prod_head r"] le objs D(6) un by simp
    then have "do_enqueue r objs mx beh is_sp = Some (w, ?free - w, ?r')"
      using False D(6) by (simp add: do_enqueue_def unfold update_tail_def enqueue_ptrs_frame)
    moreover have "ring_ok k ?r' \<and> contents ?r' = contents r @ take n objs"
      using contents_enqueued [OF ok, of w objs ?r'] le objs D(6) un by simp
    ultimately show ?thesis using fs wn by (auto simp: same_ring_def)
  qed
qed

lemma do_dequeue_spec:
  assumes ok: "ring_ok k r" and n: "n = moved beh (used r) (unat mx)" and objs: "n \<le> length objs"
  shows "\<exists>r'. do_dequeue r objs mx beh is_sc = Some (of_nat n, of_nat (used r - n), overlay 0 (take n (contents r)) objs, r') \<and>
    ring_ok k r' \<and> contents r' = drop n (contents r) \<and> same_ring r r'"
proof -
  note D = ring_okD [OF ok]
  let ?ent = "prod_tail r - cons_head r"
  let ?n = "if mx > ?ent then (if beh = QUEUE_FIXED then 0 else ?ent) else mx"
  have ent: "unat ?ent = used r" using D(7) by (simp add: used_def)
  define w where "w = ?n"
  have un: "unat w = n" unfolding w_def moved_word ent n ..
  have wn: "w = of_nat n" using un by (rule unat_eq_of_nat)
  have le: "n \<le> used r" using moved_le(1) n by simp
  have fs: "?ent - w = of_nat (used r - n)"
    using unat_minus_small [of w ?ent] un ent le by (intro unat_eq_of_nat) simp
  have unfold: "move_cons_head is_sc mx beh r =
      (if w = 0 then Some (0, cons_head r, cons_head r + w, ?ent, r)
       else Some (w, cons_head r, cons_head r + w, ?ent, r\<lparr>cons_head := cons_head r + w\<rparr>))"
    unfolding w_def by (subst move_cons_head.simps) (simp only: Let_def simp_thms if_True)
  show ?thesis
  proof (cases "w = 0")
    case True
    then have "do_dequeue r objs mx beh is_sc = Some (0, ?ent - w, objs, r)" by (simp add: do_dequeue_def unfold)
    moreover have "n = 0" using True un by simp
    ultimately show ?thesis using ok fs by (auto simp: same_ring_def)
  next
    case False
    let ?r' = "r\<lparr>cons_head := cons_head r + w, cons_tail := cons_head r + w\<rparr>"
    have "dequeue_ptrs r (cons_head r) objs w = Some (overlay 0 (take n (contents r)) objs)"
      using dequeue_ptrs_ref [OF ok, of w objs "cons_head r"] contents_dequeued(3) [OF ok, of w] le objs D(5,7) un by simp
    then have "do_dequeue r objs mx beh is_sc = Some (w, ?ent - w, overlay 0 (take n (contents r)) objs, ?r')"
      using False D(7) by (simp add: do_dequeue_def unfold update_tail_def dequeue_ptrs_frame)
    moreover have "ring_ok k ?r' \<and> contents ?r' = drop n (contents r)"
      using contents_dequeued(1,2) [OF ok, of w ?r'] le D(7) un by simp
    ultimately show ?thesis using fs wn by (auto simp: same_ring_def)
  qed
qed

end
