(* ===== verification/Fifo.thy ===== *)
theory Fifo
  imports Prelude "HOL-Library.Sublist"
begin

text \<open>
  The contract of a queue for its clients: what it accepts is appended to its contents, what it delivers
  is taken from the front. Whatever a client does, the objects come out in the order in which they were
  accepted, and none is lost or duplicated.
\<close>

datatype 'a qop = Put "'a list" | Get nat

text \<open>A sequence of requests: all objects accepted, all objects delivered, the queue at the end.\<close>

primrec run_ops :: "('a list \<Rightarrow> 'q \<Rightarrow> ('a list \<times> 'q) option) \<Rightarrow> (nat \<Rightarrow> 'q \<Rightarrow> ('a list \<times> 'q) option) \<Rightarrow>
    'a qop list \<Rightarrow> 'q \<Rightarrow> ('a list \<times> 'a list \<times> 'q) option" where
  "run_ops put get [] q = Some ([], [], q)"
| "run_ops put get (x # xs) q =
     (case x of
        Put objs \<Rightarrow> do { (a, q1) \<leftarrow> put objs q; (ins, outs, q2) \<leftarrow> run_ops put get xs q1; Some (a @ ins, outs, q2) }
      | Get n \<Rightarrow> do { (b, q1) \<leftarrow> get n q; (ins, outs, q2) \<leftarrow> run_ops put get xs q1; Some (ins, b @ outs, q2) })"

locale fifo_order =
  fixes inv :: "'q \<Rightarrow> bool"
    and contents :: "'q \<Rightarrow> 'a list"
    and admissible :: "'a qop \<Rightarrow> bool"
    and put :: "'a list \<Rightarrow> 'q \<Rightarrow> ('a list \<times> 'q) option"
    and get :: "nat \<Rightarrow> 'q \<Rightarrow> ('a list \<times> 'q) option"
  assumes put_law: "inv q \<Longrightarrow> admissible (Put objs) \<Longrightarrow>
      \<exists>a q'. put objs q = Some (a, q') \<and> inv q' \<and> contents q' = contents q @ a \<and> subseq a objs"
    and get_law: "inv q \<Longrightarrow> admissible (Get n) \<Longrightarrow>
      \<exists>b q'. get n q = Some (b, q') \<and> inv q' \<and> contents q = b @ contents q' \<and> length b \<le> n"
begin

lemma run_fifo:
  assumes "inv q" and "list_all admissible xs"
  shows "\<exists>ins outs q'. run_ops put get xs q = Some (ins, outs, q') \<and> inv q' \<and> contents q @ ins = outs @ contents q'"
  using assms
proof (induction xs arbitrary: q)
  case (Cons x xs)
  show ?case
  proof (cases x)
    case (Put objs)
    with Cons.prems obtain a q1 where a: "put objs q = Some (a, q1)" "inv q1" "contents q1 = contents q @ a"
      using put_law [of q objs] by auto
    obtain ins outs q' where r: "run_ops put get xs q1 = Some (ins, outs, q')" "inv q'"
        "contents q1 @ ins = outs @ contents q'"
      using Cons.IH [OF a(2)] Cons.prems by auto
    then show ?thesis using a Put by simp
  next
    case (Get n)
    with Cons.prems obtain b q1 where b: "get n q = Some (b, q1)" "inv q1" "contents q = b @ contents q1"
      using get_law [of q n] by auto
    obtain ins outs q' where r: "run_ops put get xs q1 = Some (ins, outs, q')" "inv q'"
        "contents q1 @ ins = outs @ contents q'"
      using Cons.IH [OF b(2)] Cons.prems by auto
    then show ?thesis using b Get by simp
  qed
qed simp

end

text \<open>A queue of bounded size.\<close>

locale fifo_queue = fifo_order +
  fixes bound :: nat
  assumes bounded: "inv q \<Longrightarrow> length (contents q) \<le> bound"
begin

lemma empty_run_fifo:
  assumes "inv q" and "contents q = []" and "list_all admissible xs"
  shows "\<exists>ins outs q'. run_ops put get xs q = Some (ins, outs, q') \<and> ins = outs @ contents q' \<and>
    length (contents q') \<le> bound \<and> inv q'"
proof -
  obtain ins outs q' where "run_ops put get xs q = Some (ins, outs, q')" "inv q'" "contents q @ ins = outs @ contents q'"
    using run_fifo [OF assms(1,3)] by auto
  then show ?thesis using assms(2) bounded [of q'] by simp
qed

end

end
