(* ===== verification/Sized_Rings.thy ===== *)
theory Sized_Rings
  imports Ring_Queue Fifo C_Net
begin

text \<open>
  The queues of libmoon built on the DPDK ring: \<^verbatim>\<open>ring.c\<close>, the ring limited in packets
  (\<^verbatim>\<open>pktsizedring.cpp\<close>) and the ring limited in bytes (\<^verbatim>\<open>bytesizedring.cpp\<close>). Packet buffers are given by
  an identity and their length; \<open>freed\<close> lists the buffers given to \<^verbatim>\<open>rte_pktmbuf_free\<close>.
\<close>

section \<open>ring.c\<close>

text \<open>\<open>ring_cnt\<close> is the value of the static counter of the function, which makes the names different.\<close>

definition create_ring :: "(int \<Rightarrow> 'a list option) \<Rightarrow> bool \<Rightarrow> u32 \<Rightarrow> u32 \<Rightarrow> 'a rte_ring option \<times> u32" where
  "create_ring zone zmalloc ring_cnt count =
     (rte_ring_create zone zmalloc (''mbuf_ring'' @ show_long (sint ring_cnt)) count (RING_F_SP_ENQ OR RING_F_SC_DEQ),
      ring_cnt + 1)"

definition ring_enqueue :: "'a rte_ring \<Rightarrow> 'a list \<Rightarrow> int \<Rightarrow> (u32 \<times> 'a rte_ring) option" where
  "ring_enqueue r obj n = do { (k, _, r1) \<leftarrow> rte_ring_sp_enqueue_bulk r obj (word_of_int n); Some (k, r1) }"

definition ring_dequeue :: "'a rte_ring \<Rightarrow> 'a list \<Rightarrow> int \<Rightarrow> (u32 \<times> 'a list \<times> 'a rte_ring) option" where
  "ring_dequeue r obj n = do { (k, _, objs, r1) \<leftarrow> rte_ring_sc_dequeue_bulk r obj (word_of_int n); Some (k, objs, r1) }"

definition ring_count where "ring_count r = rte_ring_count r"
definition ring_free_count where "ring_free_count r = rte_ring_free_count r"
definition ring_empty where "ring_empty r \<longleftrightarrow> rte_ring_empty r"
definition ring_full where "ring_full r \<longleftrightarrow> rte_ring_full r"

section \<open>Packet buffers\<close>

record mbuf =
  m_id :: nat
  pkt_len :: u32

text \<open>\<^verbatim>\<open>for (i = a; i < n; i++) { rte_pktmbuf_free(obj[i]); obj[i] = NULL; }\<close>\<close>

function free_loop :: "nat \<Rightarrow> nat \<Rightarrow> mbuf option list \<Rightarrow> mbuf list \<Rightarrow> (mbuf option list \<times> mbuf list) option" where
  "free_loop i n obj freed =
     (if i < n then
        (if i < length obj
         then free_loop (Suc i) n (obj[i := None]) (freed @ (case obj ! i of None \<Rightarrow> [] | Some m \<Rightarrow> [m]))
         else None)
      else Some (obj, freed))"
  by pat_completeness auto
termination by (relation "measure (\<lambda>(i, n, _). n - i)") auto

declare free_loop.simps [simp del]

section \<open>pktsizedring.cpp\<close>

definition PS_RING_SIZE_LIMIT :: u32 where "PS_RING_SIZE_LIMIT = 268435455"

record ps_ring =
  ps_ring :: "mbuf rte_ring"
  ps_capacity :: u32

text \<open>\<^verbatim>\<open>while (count < (capacity+1)) count *= 2\<close>; the loop does not end if the product wraps to 0.\<close>

partial_function (option) ps_count_loop :: "u32 \<Rightarrow> u32 \<Rightarrow> u32 option" where
  "ps_count_loop capacity count = (if count < capacity + 1 then ps_count_loop capacity (count * 2) else Some count)"

declare ps_count_loop.simps [code]

definition create_psring :: "(int \<Rightarrow> mbuf list option) \<Rightarrow> bool \<Rightarrow> u32 \<Rightarrow> u32 \<Rightarrow> (ps_ring option \<times> u32) option" where
  "create_psring zone zmalloc ring_cnt capacity0 =
     (let capacity = (if capacity0 > PS_RING_SIZE_LIMIT then PS_RING_SIZE_LIMIT else capacity0)
      in do {
        count \<leftarrow> ps_count_loop capacity 1;
        Some (case rte_ring_create zone zmalloc (''mbuf_ps_ring'' @ show_long (sint ring_cnt)) count
                     (RING_F_SP_ENQ OR RING_F_SC_DEQ) of
                None \<Rightarrow> None
              | Some r \<Rightarrow> Some \<lparr>ps_ring = r, ps_capacity = capacity\<rparr>, ring_cnt + 1)
      })"

definition psring_enqueue_bulk :: "ps_ring \<Rightarrow> mbuf list \<Rightarrow> u32 \<Rightarrow> (u32 \<times> ps_ring) option" where
  "psring_enqueue_bulk psr obj n =
     (if rte_ring_count (ps_ring psr) + n < ps_capacity psr
      then do { (k, _, r) \<leftarrow> rte_ring_sp_enqueue_bulk (ps_ring psr) obj n; Some (k, psr\<lparr>ps_ring := r\<rparr>) }
      else Some (0, psr))"

text \<open>The number of packets added, the queue, the table of the caller and the buffers freed.\<close>

definition psring_enqueue_burst ::
    "ps_ring \<Rightarrow> mbuf list \<Rightarrow> u32 \<Rightarrow> (u32 \<times> ps_ring \<times> mbuf option list \<times> mbuf list) option" where
  "psring_enqueue_burst psr obj n =
     (let count = rte_ring_count (ps_ring psr)
      in if count > ps_capacity psr then Some (0, psr, map Some obj, [])
         else (let num_to_add = (if count + n > ps_capacity psr then ps_capacity psr - count else n)
               in do {
                 (num_added, _, r) \<leftarrow> rte_ring_sp_enqueue_burst (ps_ring psr) obj num_to_add;
                 (obj1, freed) \<leftarrow> free_loop (unat num_added) (unat n) (map Some obj) [];
                 Some (num_added, psr\<lparr>ps_ring := r\<rparr>, obj1, freed)
               }))"

definition psring_enqueue :: "ps_ring \<Rightarrow> mbuf \<Rightarrow> (u32 \<times> ps_ring \<times> mbuf list) option" where
  "psring_enqueue psr obj =
     (if rte_ring_count (ps_ring psr) + 1 \<le> ps_capacity psr
      then do {
        (ret, r) \<leftarrow> rte_ring_sp_enqueue (ps_ring psr) obj;
        if ret = 0 then Some (1, psr\<lparr>ps_ring := r\<rparr>, []) else Some (0, psr\<lparr>ps_ring := r\<rparr>, [obj])
      }
      else Some (0, psr, [obj]))"

definition psring_dequeue_bulk :: "ps_ring \<Rightarrow> mbuf list \<Rightarrow> u32 \<Rightarrow> (u32 \<times> mbuf list \<times> ps_ring) option" where
  "psring_dequeue_bulk psr obj n =
     do { (k, _, objs, r) \<leftarrow> rte_ring_sc_dequeue_bulk (ps_ring psr) obj n; Some (k, objs, psr\<lparr>ps_ring := r\<rparr>) }"

definition psring_dequeue_burst :: "ps_ring \<Rightarrow> mbuf list \<Rightarrow> u32 \<Rightarrow> (u32 \<times> mbuf list \<times> ps_ring) option" where
  "psring_dequeue_burst psr obj n =
     do { (k, _, objs, r) \<leftarrow> rte_ring_sc_dequeue_burst (ps_ring psr) obj n; Some (k, objs, psr\<lparr>ps_ring := r\<rparr>) }"

definition psring_dequeue :: "ps_ring \<Rightarrow> mbuf list \<Rightarrow> (bool \<times> mbuf list \<times> ps_ring) option" where
  "psring_dequeue psr obj =
     do { (ret, objs, r) \<leftarrow> rte_ring_sc_dequeue (ps_ring psr) obj; Some (ret = 0, objs, psr\<lparr>ps_ring := r\<rparr>) }"

definition psring_count where "psring_count psr = rte_ring_count (ps_ring psr)"
definition psring_capacity where "psring_capacity psr = ps_capacity psr"

section \<open>bytesizedring.cpp\<close>

definition BS_RING_SIZE_LIMIT :: int where "BS_RING_SIZE_LIMIT = 268435455"

record bs_ring =
  bs_ring :: "mbuf rte_ring"
  bs_capacity :: u32
  bytes_used :: u32

text \<open>\<^verbatim>\<open>while ((count-1) < count_min && count <= BS_RING_SIZE_LIMIT) count *= 2\<close>, on \<^verbatim>\<open>int\<close>s; \<^verbatim>\<open>count\<close> is positive.\<close>

function bs_count_loop :: "int \<Rightarrow> int \<Rightarrow> int" where
  "bs_count_loop count_min count =
     (if 0 < count \<and> count - 1 < count_min \<and> count \<le> BS_RING_SIZE_LIMIT then bs_count_loop count_min (count * 2) else count)"
  by pat_completeness auto
termination
  by (relation "measure (\<lambda>(_, count). nat (BS_RING_SIZE_LIMIT + 1 - count))") auto

declare bs_count_loop.simps [simp del]

definition create_bsring :: "(int \<Rightarrow> mbuf list option) \<Rightarrow> bool \<Rightarrow> u32 \<Rightarrow> u32 \<Rightarrow> bs_ring option \<times> u32" where
  "create_bsring zone zmalloc ring_cnt capacity =
     (let count_min = uint (capacity div 60);
          count = bs_count_loop count_min 1;
          count1 = (if count > BS_RING_SIZE_LIMIT then c_div count 2 else count)
      in (case rte_ring_create zone zmalloc (''mbuf_bs_ring'' @ show_long (sint ring_cnt)) (word_of_int count1)
                 (RING_F_SP_ENQ OR RING_F_SC_DEQ) of
            None \<Rightarrow> None
          | Some r \<Rightarrow> Some \<lparr>bs_ring = r, bs_capacity = capacity, bytes_used = 0\<rparr>, ring_cnt + 1))"

text \<open>\<^verbatim>\<open>for (i=0; i<n; i++) total_size += obj[i]->pkt_len\<close>\<close>

definition total_len :: "mbuf list \<Rightarrow> u32 \<Rightarrow> u32 option" where
  "total_len obj n = (if unat n \<le> length obj then Some (sum_list (map pkt_len (take (unat n) obj))) else None)"

definition bsring_enqueue_bulk ::
    "bs_ring \<Rightarrow> mbuf list \<Rightarrow> u32 \<Rightarrow> (u32 \<times> bs_ring \<times> mbuf option list \<times> mbuf list) option" where
  "bsring_enqueue_bulk bsr obj n = do {
     total_size \<leftarrow> total_len obj n;
     if bytes_used bsr + total_size > bs_capacity bsr then do {
       (obj1, freed) \<leftarrow> free_loop 0 (unat n) (map Some obj) [];
       Some (0, bsr, obj1, freed)
     }
     else do {
       (num_added, _, r) \<leftarrow> rte_ring_sp_enqueue_bulk (bs_ring bsr) obj n;
       (obj1, freed) \<leftarrow> free_loop (unat num_added) (unat n) (map Some obj) [];
       added \<leftarrow> total_len obj num_added;
       Some (num_added, bsr\<lparr>bs_ring := r, bytes_used := bytes_used bsr + added\<rparr>, obj1, freed)
     }
   }"

text \<open>
  The first loop of \<^verbatim>\<open>bsring_enqueue_burst\<close> over the packets: \<^verbatim>\<open>num_to_add\<close> and \<^verbatim>\<open>bytes_remaining\<close>.
\<close>

fun fit_loop :: "mbuf list \<Rightarrow> u32 \<Rightarrow> int \<Rightarrow> u32 \<times> int" where
  "fit_loop [] num rem = (num, rem)"
| "fit_loop (m # ms) num rem =
     (if rem > 0 then fit_loop ms (num + 1) (to_int (rem - uint (pkt_len m))) else (num, rem))"

text \<open>
  The second loop, over the packets from \<^verbatim>\<open>num_to_add\<close> on: ring, \<^verbatim>\<open>num_added\<close>, \<^verbatim>\<open>bytes_added\<close>, and
  whether each packet looked at was taken or freed. The function \<^verbatim>\<open>rte_ring_sp_enqueue\<close> returns 0 when it
  succeeds, so the branch that counts the packet is the one taken when it fails.
\<close>

fun retry_loop :: "mbuf list \<Rightarrow> int \<Rightarrow> mbuf rte_ring \<Rightarrow> u32 \<Rightarrow> u32 \<Rightarrow> bool list \<Rightarrow>
    (mbuf rte_ring \<times> u32 \<times> u32 \<times> bool list) option" where
  "retry_loop [] rem r num bytes kept = Some (r, num, bytes, kept)"
| "retry_loop (m # ms) rem r num bytes kept =
     (if rem \<ge> 60 then
        (if to_int (uint (pkt_len m)) \<le> rem then do {
           (ret, r1) \<leftarrow> rte_ring_sp_enqueue r m;
           if ret \<noteq> 0 then retry_loop ms (to_int (rem - uint (pkt_len m))) r1 (num + 1) (bytes + pkt_len m) (kept @ [True])
           else retry_loop ms rem r1 num bytes (kept @ [False])
         }
         else retry_loop ms rem r num bytes (kept @ [False]))
      else Some (r, num, bytes, kept))"

definition bsring_enqueue_burst ::
    "bs_ring \<Rightarrow> mbuf list \<Rightarrow> u32 \<Rightarrow> (u32 \<times> bs_ring \<times> mbuf option list \<times> mbuf list) option" where
  "bsring_enqueue_burst bsr obj n =
     (if unat n > length obj then None
      else (case fit_loop (take (unat n) obj) 0 (sint (bs_capacity bsr - bytes_used bsr)) of (num, rem) \<Rightarrow>
        let num_to_add = (if rem < 0 then num - 1 else num)
        in do {
          (num_added, _, r) \<leftarrow> rte_ring_sp_enqueue_burst (bs_ring bsr) obj num_to_add;
          bytes_added \<leftarrow> total_len obj num_added;
          (obj1, freed) \<leftarrow> free_loop (unat num_added) (unat num_to_add) (map Some obj) [];
          if num_added < n then do {
            (r2, num2, bytes2, kept) \<leftarrow> retry_loop (drop (unat num_to_add) (take (unat n) obj))
                (sint (bs_capacity bsr - bytes_used bsr - bytes_added)) r num_added bytes_added [];
            let looked = zip (drop (unat num_to_add) (take (unat n) obj)) kept;
            Some (num2, bsr\<lparr>bs_ring := r2, bytes_used := bytes_used bsr + bytes2\<rparr>,
                  take (unat num_to_add) obj1 @ map (\<lambda>(m, t). if t then Some m else None) looked @
                    drop (unat num_to_add + length kept) obj1,
                  freed @ map fst (filter (\<lambda>(m, t). \<not> t) looked))
          }
          else Some (num_added, bsr\<lparr>bs_ring := r, bytes_used := bytes_used bsr + bytes_added\<rparr>, obj1, freed)
        }))"

definition bsring_enqueue :: "bs_ring \<Rightarrow> mbuf \<Rightarrow> (u32 \<times> bs_ring \<times> mbuf list) option" where
  "bsring_enqueue bsr obj =
     (if bytes_used bsr + pkt_len obj < bs_capacity bsr then do {
        (ret, r) \<leftarrow> rte_ring_sp_enqueue (bs_ring bsr) obj;
        if ret = 0 then Some (1, bsr\<lparr>bs_ring := r, bytes_used := bytes_used bsr + pkt_len obj\<rparr>, [])
        else Some (0, bsr\<lparr>bs_ring := r\<rparr>, [obj])
      }
      else Some (0, bsr, [obj]))"

definition bs_removed :: "bs_ring \<Rightarrow> (u32 \<times> u32 \<times> mbuf list \<times> mbuf rte_ring) option \<Rightarrow> (u32 \<times> mbuf list \<times> bs_ring) option" where
  "bs_removed bsr res = do {
     (k, _, objs, r) \<leftarrow> res;
     gone \<leftarrow> total_len objs k;
     Some (k, objs, bsr\<lparr>bs_ring := r, bytes_used := bytes_used bsr - gone\<rparr>)
   }"

definition bsring_dequeue_burst where
  "bsring_dequeue_burst bsr obj n = bs_removed bsr (rte_ring_sc_dequeue_burst (bs_ring bsr) obj n)"

definition bsring_dequeue_bulk where
  "bsring_dequeue_bulk bsr obj n = bs_removed bsr (rte_ring_sc_dequeue_bulk (bs_ring bsr) obj n)"

definition bsring_dequeue :: "bs_ring \<Rightarrow> mbuf list \<Rightarrow> (u32 \<times> mbuf list \<times> bs_ring) option" where
  "bsring_dequeue bsr obj = do {
     (ret, objs, r) \<leftarrow> rte_ring_sc_dequeue (bs_ring bsr) obj;
     if ret = 0 then do {
       gone \<leftarrow> total_len objs 1;
       Some (1, objs, bsr\<lparr>bs_ring := r, bytes_used := bytes_used bsr - gone\<rparr>)
     }
     else Some (0, objs, bsr\<lparr>bs_ring := r\<rparr>)
   }"

definition bsring_count where "bsring_count bsr = rte_ring_count (bs_ring bsr)"
definition bsring_capacity where "bsring_capacity bsr = bs_capacity bsr"
definition bsring_bytesused where "bsring_bytesused bsr = bytes_used bsr"

end
