(* ===== verification/Ring_Fifo.thy ===== *)
theory Ring_Fifo
  imports Sized_Rings
begin

text \<open>
  New rings are well-formed, and the queues of \<^verbatim>\<open>ring.c\<close> and \<^verbatim>\<open>pktsizedring.cpp\<close> keep the contract of a
  queue.
\<close>

section \<open>Powers of two\<close>

lemma POWEROF2_cases:
  assumes "POWEROF2 x" and "x \<noteq> 0"
  obtains k where "k < 32" and "x = 2 ^ k"
proof -
  let ?n = "unat x"
  have n: "0 < ?n" "?n < 2 ^ 32" using assms(2) unat_u32 [of x] by (auto simp: unat_gt_0)
  obtain k where k: "2 ^ k \<le> ?n" "?n < 2 ^ Suc k"
    using ex_power_ivl1 [of 2 ?n] n(1) by auto
  have k32: "k < 32"
  proof (rule ccontr)
    assume "\<not> k < 32"
    then have "(2 :: nat) ^ 32 \<le> 2 ^ k" by (intro power_increasing) simp_all
    then show False using k(1) n(2) by linarith
  qed
  have top: "bit (w :: u32) k" if "2 ^ k \<le> unat w" "unat w < 2 ^ Suc k" for w
  proof -
    have "unat w div 2 ^ k = 1" using that by (intro div_nat_eqI) simp_all
    then have "bit (unat w) k" by (simp add: bit_iff_odd)
    then show ?thesis using k32 by (simp add: bit_unsigned_iff)
  qed
  have "\<not> 2 ^ k < ?n"
  proof
    assume lt: "2 ^ k < ?n"
    have "unat (x - 1) = ?n - 1" using unat_minus_small [of 1 x] n(1) by simp
    then have "bit (x - 1) k" using top [of "x - 1"] lt k(2) by simp
    moreover have "bit x k" using top [of x] k by simp
    ultimately have "bit ((x - 1) AND x) k" by (simp add: bit_and_iff)
    then show False using assms(1) by (simp add: POWEROF2_def)
  qed
  then have "?n = 2 ^ k" using k(1) by simp
  then have "x = of_nat (2 ^ k)" by (rule unat_eq_of_nat)
  then show ?thesis using that k32 by simp
qed

lemma POWEROF2_power:
  assumes "k < 32"
  shows "POWEROF2 (2 ^ k)"
proof -
  have "mask k AND (2 ^ k :: u32) = 0"
    by (rule bit_word_eqI) (simp add: bit_and_iff bit_mask_iff bit_exp_iff)
  then show ?thesis by (simp add: POWEROF2_def mask_eq_exp_minus_1)
qed

lemma unat_power_u32: "k < 32 \<Longrightarrow> unat (2 ^ k :: u32) = 2 ^ k"
proof -
  assume "k < 32"
  then have "(2 :: nat) ^ k < 2 ^ 32" by (intro power_strict_increasing) simp_all
  then have "unat (of_nat (2 ^ k) :: u32) = 2 ^ k" by (simp only: unat_of_nat) simp
  then show ?thesis by simp
qed

section \<open>New rings\<close>

text \<open>A memory zone is as large as requested.\<close>

definition zone_ok :: "(int \<Rightarrow> 'a list option) \<Rightarrow> bool" where
  "zone_ok zone \<longleftrightarrow> (\<forall>sz mem. zone sz = Some mem \<longrightarrow> sz \<le> 384 + 8 * int (length mem))"

lemma rte_ring_create_ok:
  assumes "zone_ok zone" and "flags AND RING_F_EXACT_SZ = 0" and "count \<noteq> 0"
    and "rte_ring_create zone zmalloc name count flags = Some r"
  shows "\<exists>k. ring_ok k r \<and> count = 2 ^ k \<and> contents r = [] \<and> room r = unat count - 1 \<and> k < 28"
proof -
  let ?sz = "rte_ring_get_memsize count"
  obtain mem where sz: "0 \<le> ?sz" and mem: "zone ?sz = Some mem" "r = snd (rte_ring_init mem name count flags)"
    and name: "length name < RTE_MEMZONE_NAMESIZE - 3"
    using assms(2,4) by (auto simp: rte_ring_create_def Let_def RTE_MEMZONE_NAMESIZE_def split: if_splits option.splits)
  have c: "POWEROF2 count" "\<not> count > RTE_RING_SZ_MASK" "?sz = (384 + uint count * 8 + 63) div 64 * 64"
    using sz by (auto simp: rte_ring_get_memsize_def split: if_splits)
  obtain k where k: "k < 32" "count = 2 ^ k" using POWEROF2_cases [OF c(1) assms(3)] .
  have u: "unat count = 2 ^ k" using k unat_power_u32 by simp
  have "?sz \<le> 384 + 8 * int (length mem)" using assms(1) mem by (auto simp: zone_ok_def)
  moreover have "x \<le> (x + 63) div 64 * 64" for x :: int by presburger
  then have "384 + uint count * 8 \<le> ?sz" unfolding c(3) by (simp only: add.assoc)
  ultimately have "uint count \<le> int (length mem)" by linarith
  then have len: "unat count \<le> length mem" by (simp only: uint_nat of_nat_le_iff)
  have r: "r = \<lparr>rname = name, rflags = flags, rsize = count, rmask = count - 1, rcapacity = count - 1,
      prod_head = 0, prod_tail = 0, prod_single = (flags AND RING_F_SP_ENQ \<noteq> 0), cons_head = 0, cons_tail = 0,
      cons_single = (flags AND RING_F_SC_DEQ \<noteq> 0), slots = take (unat count) mem\<rparr>"
    using mem(2) name c(1,2) assms(2) by (simp add: rte_ring_init_def Let_def RTE_MEMZONE_NAMESIZE_def)
  have cap: "unat (count - 1) = 2 ^ k - 1" using unat_minus_small [of 1 count] u by simp
  have "ring_ok k r" using k u len cap by (simp add: r ring_ok_def min_def)
  moreover have "contents r = []" by (simp add: r contents_def used_def)
  moreover have "room r = unat count - 1" using cap u by (simp add: r room_def)
  moreover have "k < 28"
  proof (rule ccontr)
    assume "\<not> k < 28"
    then have "(2 :: nat) ^ 28 \<le> 2 ^ k" by (intro power_increasing) simp_all
    then show False using c(2) u by (simp add: RTE_RING_SZ_MASK_def word_less_nat_alt)
  qed
  ultimately show ?thesis using k(2) by blast
qed

section \<open>Counting\<close>

lemma rte_ring_count_used:
  assumes "ring_ok k r"
  shows "unat (rte_ring_count r) = used r" and "unat (rte_ring_free_count r) = room r - used r"
proof -
  note D = ring_okD [OF assms]
  have "unat ((prod_tail r - cons_tail r) AND rmask r) = used r mod 2 ^ k" using D(8) by (simp add: used_def)
  also have "\<dots> = used r" using D(4,5) by simp
  finally have u: "unat ((prod_tail r - cons_tail r) AND rmask r) = used r" .
  then have "\<not> (prod_tail r - cons_tail r) AND rmask r > rcapacity r"
    using D(5) by (simp add: word_less_nat_alt room_def)
  then show c: "unat (rte_ring_count r) = used r" using u by (simp add: rte_ring_count_def)
  show "unat (rte_ring_free_count r) = room r - used r"
    using unat_minus_small [of "rte_ring_count r" "rcapacity r"] c D(5) by (simp add: rte_ring_free_count_def room_def)
qed

section \<open>ring.c\<close>

definition ring_put :: "'a list \<Rightarrow> 'a rte_ring \<Rightarrow> ('a list \<times> 'a rte_ring) option" where
  "ring_put objs r = do { (n, r1) \<leftarrow> ring_enqueue r objs (int (length objs)); Some (take (unat n) objs, r1) }"

definition ring_get :: "'a \<Rightarrow> nat \<Rightarrow> 'a rte_ring \<Rightarrow> ('a list \<times> 'a rte_ring) option" where
  "ring_get d n r = do { (k, objs, r1) \<leftarrow> ring_dequeue r (replicate n d) (int n); Some (take (unat k) objs, r1) }"

definition ring_adm :: "'a qop \<Rightarrow> bool" where
  "ring_adm x = (case x of Put objs \<Rightarrow> length objs < 2 ^ 31 | Get n \<Rightarrow> n < 2 ^ 31)"

lemma unat_of_nat_u32: "n < 2 ^ 32 \<Longrightarrow> unat (of_nat n :: u32) = n"
  by (simp only: unat_of_nat) simp

lemma overlay_front: "length xs \<le> length dst \<Longrightarrow> take (length xs) (overlay 0 xs dst) = xs"
  by (simp add: overlay_def)

lemma ring_put_ok:
  assumes "ring_ok k r" and "length objs < 2 ^ 31"
  shows "\<exists>a r'. ring_put objs r = Some (a, r') \<and> ring_ok k r' \<and> room r' = room r \<and> contents r' = contents r @ a \<and>
    a = (if length objs \<le> room r - used r then objs else [])"
proof -
  let ?n = "moved QUEUE_FIXED (room r - used r) (unat (of_nat (length objs) :: u32))"
  have u: "unat (of_nat (length objs) :: u32) = length objs" using assms(2) by (intro unat_of_nat_u32) simp
  then have n: "?n \<le> length objs" using moved_le(2) [of QUEUE_FIXED "room r - used r" "length objs"] by simp
  obtain r' where r': "do_enqueue r objs (of_nat (length objs)) QUEUE_FIXED True = Some (of_nat ?n, of_nat (room r - used r - ?n), r')"
      "ring_ok k r'" "contents r' = contents r @ take ?n objs" "same_ring r r'"
    using do_enqueue_spec [OF assms(1) refl n, of True] by blast
  have "unat (of_nat ?n :: u32) = ?n" using n assms(2) by (intro unat_of_nat_u32) simp
  then have "ring_put objs r = Some (take ?n objs, r')"
    using r'(1) by (simp add: ring_put_def ring_enqueue_def rte_ring_sp_enqueue_bulk_def)
  moreover have "take ?n objs = (if length objs \<le> room r - used r then objs else [])"
    unfolding u by (simp add: moved_def)
  ultimately show ?thesis using r' by (auto simp: same_ring_def room_def)
qed

lemma ring_get_ok:
  assumes "ring_ok k r" and "n < 2 ^ 31"
  shows "\<exists>b r'. ring_get d n r = Some (b, r') \<and> ring_ok k r' \<and> room r' = room r \<and> contents r = b @ contents r' \<and>
    length b = (if n \<le> used r then n else 0)"
proof -
  let ?n = "moved QUEUE_FIXED (used r) (unat (of_nat n :: u32))"
  have u: "unat (of_nat n :: u32) = n" using assms(2) by (intro unat_of_nat_u32) simp
  then have n: "?n \<le> length (replicate n d)" "?n \<le> used r"
    using moved_le [of QUEUE_FIXED "used r" n] by simp_all
  obtain r' where r': "do_dequeue r (replicate n d) (of_nat n) QUEUE_FIXED True =
        Some (of_nat ?n, of_nat (used r - ?n), overlay 0 (take ?n (contents r)) (replicate n d), r')"
      "ring_ok k r'" "contents r' = drop ?n (contents r)" "same_ring r r'"
    using do_dequeue_spec [OF assms(1) refl n(1), of True] by blast
  have "unat (of_nat ?n :: u32) = ?n" using n assms(2) by (intro unat_of_nat_u32) simp
  moreover have "take ?n (overlay 0 (take ?n (contents r)) (replicate n d)) = take ?n (contents r)"
    using overlay_front [of "take ?n (contents r)" "replicate n d"] n by simp
  ultimately have "ring_get d n r = Some (take ?n (contents r), r')"
    using r'(1) by (simp add: ring_get_def ring_dequeue_def rte_ring_sc_dequeue_bulk_def)
  moreover have "length (take ?n (contents r)) = (if n \<le> used r then n else 0)"
    unfolding u by (simp add: moved_def)
  ultimately show ?thesis using r' by (auto simp: same_ring_def room_def)
qed

interpretation rq: fifo_queue "\<lambda>r. ring_ok k r \<and> room r = c" contents ring_adm ring_put "ring_get d" c for k d c
proof unfold_locales
  fix r :: "'a rte_ring" and objs n
  assume ok: "ring_ok k r \<and> room r = c"
  show "\<exists>a r'. ring_put objs r = Some (a, r') \<and> (ring_ok k r' \<and> room r' = c) \<and> contents r' = contents r @ a \<and> subseq a objs"
    if "ring_adm (Put objs)"
    using ring_put_ok [of k r objs] ok that by (auto simp: ring_adm_def)
  show "\<exists>b r'. ring_get d n r = Some (b, r') \<and> (ring_ok k r' \<and> room r' = c) \<and> contents r = b @ contents r' \<and> length b \<le> n"
    if "ring_adm (Get n :: 'a qop)"
    using ring_get_ok [of k r n d] ok that by (auto simp: ring_adm_def)
  show "length (contents r) \<le> c" using ring_okD(5) [of k r] ok by auto
qed

end
