(* ===== verification/Ps_Ring.thy ===== *)
theory Ps_Ring
  imports Ring_Fifo
begin

text \<open>
  \<^verbatim>\<open>pktsizedring.cpp\<close>: the ring that is limited in packets. It never holds more packets than its capacity,
  keeps their order, and every packet of a burst is either in the ring or freed.
\<close>

section \<open>Freeing\<close>

lemma free_loop_run:
  assumes "i \<le> n" and "n \<le> length tbl"
  shows "free_loop i n tbl fr =
    Some (take i tbl @ replicate (n - i) None @ drop n tbl,
          fr @ concat (map (\<lambda>x. case x of None \<Rightarrow> [] | Some m \<Rightarrow> [m]) (drop i (take n tbl))))"
  using assms
proof (induction "n - i" arbitrary: i tbl fr)
  case 0
  then show ?case by (subst free_loop.simps) simp
next
  case (Suc d)
  then have i: "i < n" "i < length tbl" by simp_all
  have d: "drop i (take n tbl) = tbl ! i # drop (Suc i) (take n tbl)"
    using i Cons_nth_drop_Suc [of i "take n tbl"] by simp
  have t: "take (Suc i) (tbl[i := None]) = take i tbl @ [None]" using i by (simp add: take_Suc_conv_app_nth)
  have "free_loop i n tbl fr = free_loop (Suc i) n (tbl[i := None]) (fr @ (case tbl ! i of None \<Rightarrow> [] | Some m \<Rightarrow> [m]))"
    using i by (subst free_loop.simps) simp
  also have "\<dots> = Some (take (Suc i) (tbl[i := None]) @ replicate (n - Suc i) None @ drop n (tbl[i := None]),
      (fr @ (case tbl ! i of None \<Rightarrow> [] | Some m \<Rightarrow> [m])) @
      concat (map (\<lambda>x. case x of None \<Rightarrow> [] | Some m \<Rightarrow> [m]) (drop (Suc i) (take n (tbl[i := None])))))"
    by (rule Suc.hyps(1)) (use Suc in simp_all)
  also have "drop (Suc i) (take n (tbl[i := None])) = drop (Suc i) (take n tbl)" by (simp add: take_update_swap)
  finally show ?case
    using i d t by (simp add: Suc_diff_Suc [symmetric] replicate_app_Cons_same)
qed

lemma free_loop_packets:
  assumes "a \<le> n" and "n \<le> length obj"
  shows "free_loop a n (map Some obj) [] =
    Some (map Some (take a obj) @ replicate (n - a) None @ map Some (drop n obj), drop a (take n obj))"
proof -
  have "concat (map (\<lambda>x. case x of None \<Rightarrow> [] | Some m \<Rightarrow> [m]) (map Some xs)) = xs" for xs :: "mbuf list"
    by (induction xs) simp_all
  then show ?thesis
    using free_loop_run [of a n "map Some obj" "[]"] assms by (simp add: take_map drop_map)
qed

section \<open>Creation\<close>

definition ps_ok :: "nat \<Rightarrow> ps_ring \<Rightarrow> bool" where
  "ps_ok k p \<longleftrightarrow> ring_ok k (ps_ring p) \<and> k < 28 \<and> unat (ps_capacity p) \<le> room (ps_ring p) \<and>
     used (ps_ring p) \<le> unat (ps_capacity p)"

lemma ps_count_loop_power:
  assumes "i \<le> 28" and "unat capacity < 2 ^ 28"
  shows "\<exists>j. i \<le> j \<and> j \<le> 28 \<and> ps_count_loop capacity (2 ^ i) = Some (2 ^ j) \<and> unat capacity < 2 ^ j \<and>
    (i < j \<longrightarrow> 2 ^ (j - 1) \<le> unat capacity)"
  using assms(1)
proof (induction "28 - i" arbitrary: i)
  case 0
  then have "i = 28" by simp
  then show ?case
    using assms(2) unat_add_small [of capacity 1] by (subst ps_count_loop.simps) (auto simp: word_less_nat_alt)
next
  case (Suc d)
  have cap1: "unat (capacity + 1) = unat capacity + 1" using assms(2) unat_add_small [of capacity 1] by simp
  have pw: "unat (2 ^ i :: u32) = 2 ^ i" using Suc by (intro unat_power_u32) simp
  show ?case
  proof (cases "2 ^ i < unat capacity + 1")
    case True
    then have "(2 ^ i :: u32) < capacity + 1" using pw cap1 by (simp add: word_less_nat_alt)
    then have step: "ps_count_loop capacity (2 ^ i) = ps_count_loop capacity (2 ^ Suc i)"
      by (subst ps_count_loop.simps) (simp add: mult.commute)
    have "d = 28 - Suc i" "Suc i \<le> 28" using Suc.hyps(2) by simp_all
    from Suc.hyps(1) [OF this] obtain j where j: "Suc i \<le> j" "j \<le> 28"
        "ps_count_loop capacity (2 ^ Suc i) = Some (2 ^ j)" "unat capacity < 2 ^ j"
        "Suc i < j \<longrightarrow> 2 ^ (j - 1) \<le> unat capacity" by blast
    have "2 ^ (j - 1) \<le> unat capacity" using j True by (cases "Suc i = j") auto
    then show ?thesis using j step by (intro exI [of _ j]) simp
  next
    case False
    then have "\<not> (2 ^ i :: u32) < capacity + 1" using pw cap1 by (simp add: word_less_nat_alt)
    then have "ps_count_loop capacity (2 ^ i) = Some (2 ^ i)" by (subst ps_count_loop.simps) simp
    then show ?thesis using False Suc.prems by (intro exI [of _ i]) simp
  qed
qed

lemma ring_flags: "(RING_F_SP_ENQ OR RING_F_SC_DEQ) AND RING_F_EXACT_SZ = 0"
  by (simp add: RING_F_SP_ENQ_def RING_F_SC_DEQ_def RING_F_EXACT_SZ_def)

lemma ps_limit: "unat (if capacity > PS_RING_SIZE_LIMIT then PS_RING_SIZE_LIMIT else capacity) < 2 ^ 28"
  by (simp add: PS_RING_SIZE_LIMIT_def word_less_nat_alt)

lemma create_psring_ok:
  assumes "zone_ok zone" and "create_psring zone zmalloc cnt capacity = Some (Some p, cnt')"
  shows "\<exists>k. ps_ok k p \<and> contents (ps_ring p) = [] \<and>
    ps_capacity p = (if capacity > PS_RING_SIZE_LIMIT then PS_RING_SIZE_LIMIT else capacity)"
proof -
  let ?c = "if capacity > PS_RING_SIZE_LIMIT then PS_RING_SIZE_LIMIT else capacity"
  obtain j where j: "j \<le> 28" "ps_count_loop ?c 1 = Some (2 ^ j)" "unat ?c < 2 ^ j"
    using ps_count_loop_power [of 0 ?c] ps_limit [of capacity] by auto
  obtain r where r: "rte_ring_create zone zmalloc (''mbuf_ps_ring'' @ show_long (sint cnt)) (2 ^ j)
        (RING_F_SP_ENQ OR RING_F_SC_DEQ) = Some r" "p = \<lparr>ps_ring = r, ps_capacity = ?c\<rparr>"
    using assms(2) j(2) by (auto simp: create_psring_def Let_def split: option.splits)
  have ne: "(2 ^ j :: u32) \<noteq> 0" using unat_power_u32 [of j] j(1) by (auto simp: unat_eq_0)
  obtain k where k: "ring_ok k r" "(2 ^ j :: u32) = 2 ^ k" "contents r = []" "room r = unat (2 ^ j :: u32) - 1" "k < 28"
    using rte_ring_create_ok [OF assms(1) ring_flags ne r(1)] by blast
  have "room r = 2 ^ j - 1" using k(4) unat_power_u32 [of j] j(1) by simp
  then have "unat ?c \<le> room r" using j(3) by simp
  moreover have "used r = 0" using k(3) length_contents [of r] by simp
  ultimately have "ps_ok k p" using k by (simp add: ps_ok_def r(2))
  then show ?thesis using k(3) r(2) by auto
qed

section \<open>Enqueue and dequeue\<close>

lemma psring_enqueue_burst_spec:
  assumes ok: "ps_ok k p" and n: "length obj < 2 ^ 31"
  shows "\<exists>p' m. psring_enqueue_burst p obj (of_nat (length obj)) =
      Some (of_nat m, p', map Some (take m obj) @ replicate (length obj - m) None, drop m obj) \<and>
    m = min (length obj) (unat (ps_capacity p) - used (ps_ring p)) \<and> ps_ok k p' \<and> ps_capacity p' = ps_capacity p \<and>
    contents (ps_ring p') = contents (ps_ring p) @ take m obj"
proof -
  have ring: "ring_ok k (ps_ring p)" and cap: "unat (ps_capacity p) \<le> room (ps_ring p)" "used (ps_ring p) \<le> unat (ps_capacity p)"
    and k: "k < 28" using ok by (auto simp: ps_ok_def)
  note D = ring_okD [OF ring]
  let ?r = "ps_ring p" and ?n = "of_nat (length obj) :: u32"
  have un: "unat ?n = length obj" using n by (intro unat_of_nat_u32) simp
  have cnt: "unat (rte_ring_count ?r) = used ?r" using rte_ring_count_used(1) [OF ring] .
  have "(2 :: nat) ^ k \<le> 2 ^ 28" using k by (intro power_increasing) simp_all
  then have "used ?r + length obj < 2 ^ 32" using D(4,5) n by simp
  then have sum: "unat (rte_ring_count ?r + ?n) = used ?r + length obj"
    using unat_add_small [of "rte_ring_count ?r" ?n] un cnt by simp
  define m where "m = min (length obj) (unat (ps_capacity p) - used ?r)"
  let ?add = "if rte_ring_count ?r + ?n > ps_capacity p then ps_capacity p - rte_ring_count ?r else ?n"
  have add: "unat ?add = m"
    using sum cnt un cap(2) unat_minus_small [of "rte_ring_count ?r" "ps_capacity p"]
    by (auto simp: m_def word_less_nat_alt)
  have mv: "moved QUEUE_VARIABLE (room ?r - used ?r) (unat ?add) = m"
    unfolding add using cap by (auto simp: moved_def m_def)
  have mle: "m \<le> length obj" by (simp add: m_def)
  obtain r' where r': "do_enqueue ?r obj ?add QUEUE_VARIABLE True = Some (of_nat m, of_nat (room ?r - used ?r - m), r')"
      "ring_ok k r'" "contents r' = contents ?r @ take m obj" "same_ring ?r r'"
    using do_enqueue_spec [OF ring mv [symmetric] mle, of True] by blast
  have um: "unat (of_nat m :: u32) = m" using mle n by (intro unat_of_nat_u32) simp
  have "psring_enqueue_burst p obj ?n =
      Some (of_nat m, p\<lparr>ps_ring := r'\<rparr>, map Some (take m obj) @ replicate (length obj - m) None, drop m obj)"
    using r'(1) cnt cap(2) free_loop_packets [OF mle order_refl] um un
    by (simp add: psring_enqueue_burst_def Let_def rte_ring_sp_enqueue_burst_def word_less_nat_alt)
  moreover have "used r' = used ?r + m" using r'(3) mle length_contents [of r'] length_contents [of ?r] by (simp add: min_absorb2)
  then have "ps_ok k (p\<lparr>ps_ring := r'\<rparr>)" using r' cap k by (simp add: ps_ok_def same_ring_def room_def m_def)
  ultimately show ?thesis using r' m_def by (intro exI [of _ "p\<lparr>ps_ring := r'\<rparr>"] exI [of _ m]) simp
qed

lemma ps_sum:
  assumes "ps_ok k p" and "length obj < 2 ^ 31"
  shows "unat (rte_ring_count (ps_ring p) + of_nat (length obj)) = used (ps_ring p) + length obj"
proof -
  have u: "used (ps_ring p) < 2 ^ k" using assms(1) ring_okD(4,5) [of k "ps_ring p"] by (auto simp: ps_ok_def)
  have "(2 :: nat) ^ k \<le> 2 ^ 28" using assms(1) by (intro power_increasing) (simp_all add: ps_ok_def)
  with u show ?thesis
    using unat_add_small [of "rte_ring_count (ps_ring p)" "of_nat (length obj)"] assms rte_ring_count_used(1) [of k "ps_ring p"]
      unat_of_nat_u32 [of "length obj"] by (simp add: ps_ok_def)
qed

lemma psring_enqueue_bulk_spec:
  assumes ok: "ps_ok k p" and n: "length obj < 2 ^ 31"
  shows "\<exists>p'. psring_enqueue_bulk p obj (of_nat (length obj)) =
      Some (if used (ps_ring p) + length obj < unat (ps_capacity p) then of_nat (length obj) else 0, p') \<and>
    ps_ok k p' \<and> ps_capacity p' = ps_capacity p \<and>
    contents (ps_ring p') = contents (ps_ring p) @
      (if used (ps_ring p) + length obj < unat (ps_capacity p) then obj else [])"
proof (cases "used (ps_ring p) + length obj < unat (ps_capacity p)")
  case True
  let ?r = "ps_ring p" and ?n = "of_nat (length obj) :: u32"
  have un: "unat ?n = length obj" using n by (intro unat_of_nat_u32) simp
  have ring: "ring_ok k ?r" and cap: "unat (ps_capacity p) \<le> room ?r" using ok by (auto simp: ps_ok_def)
  have mv: "moved QUEUE_FIXED (room ?r - used ?r) (unat ?n) = length obj"
    unfolding un using True cap by (auto simp: moved_def)
  obtain r' where r': "do_enqueue ?r obj ?n QUEUE_FIXED True = Some (?n, of_nat (room ?r - used ?r - length obj), r')"
      "ring_ok k r'" "contents r' = contents ?r @ obj" "same_ring ?r r'"
    using do_enqueue_spec [OF ring mv [symmetric] order_refl, of True] by auto
  have "psring_enqueue_bulk p obj ?n = Some (?n, p\<lparr>ps_ring := r'\<rparr>)"
    using r'(1) True ps_sum [OF ok n] by (simp add: psring_enqueue_bulk_def rte_ring_sp_enqueue_bulk_def word_less_nat_alt)
  moreover have "used r' = used ?r + length obj" using r'(3) length_contents [of r'] by simp
  then have "ps_ok k (p\<lparr>ps_ring := r'\<rparr>)" using r' ok True by (simp add: ps_ok_def same_ring_def room_def)
  ultimately show ?thesis using r' True by simp
next
  case False
  then show ?thesis using ok ps_sum [OF ok n] by (simp add: psring_enqueue_bulk_def word_less_nat_alt)
qed

lemma psring_dequeue_burst_spec:
  assumes ok: "ps_ok k p" and n: "length obj < 2 ^ 31"
  shows "\<exists>p' m. psring_dequeue_burst p obj (of_nat (length obj)) =
      Some (of_nat m, overlay 0 (take m (contents (ps_ring p))) obj, p') \<and> m = min (length obj) (used (ps_ring p)) \<and>
    ps_ok k p' \<and> ps_capacity p' = ps_capacity p \<and> contents (ps_ring p') = drop m (contents (ps_ring p))"
proof -
  let ?r = "ps_ring p" and ?n = "of_nat (length obj) :: u32"
  have ring: "ring_ok k ?r" using ok by (simp add: ps_ok_def)
  have un: "unat ?n = length obj" using n by (intro unat_of_nat_u32) simp
  define m where "m = min (length obj) (used ?r)"
  have mv: "moved QUEUE_VARIABLE (used ?r) (unat ?n) = m" unfolding un by (auto simp: moved_def m_def)
  have mle: "m \<le> length obj" by (simp add: m_def)
  obtain r' where r': "do_dequeue ?r obj ?n QUEUE_VARIABLE True =
        Some (of_nat m, of_nat (used ?r - m), overlay 0 (take m (contents ?r)) obj, r')"
      "ring_ok k r'" "contents r' = drop m (contents ?r)" "same_ring ?r r'"
    using do_dequeue_spec [OF ring mv [symmetric] mle, of True] by blast
  have "used r' \<le> used ?r" using r'(3) length_contents [of r'] by simp
  then have "ps_ok k (p\<lparr>ps_ring := r'\<rparr>)" using r' ok by (simp add: ps_ok_def same_ring_def room_def)
  then show ?thesis
    using r' m_def by (intro exI [of _ "p\<lparr>ps_ring := r'\<rparr>"] exI [of _ m])
      (simp add: psring_dequeue_burst_def rte_ring_sc_dequeue_burst_def)
qed

definition no_mbuf :: mbuf where "no_mbuf = \<lparr>m_id = 0, pkt_len = 0\<rparr>"

definition ps_put :: "mbuf list \<Rightarrow> ps_ring \<Rightarrow> (mbuf list \<times> ps_ring) option" where
  "ps_put obj p = do { (n, p1, _, _) \<leftarrow> psring_enqueue_burst p obj (of_nat (length obj)); Some (take (unat n) obj, p1) }"

definition ps_get :: "nat \<Rightarrow> ps_ring \<Rightarrow> (mbuf list \<times> ps_ring) option" where
  "ps_get n p = do { (k, objs, p1) \<leftarrow> psring_dequeue_burst p (replicate n no_mbuf) (of_nat n); Some (take (unat k) objs, p1) }"

interpretation pq: fifo_queue "\<lambda>p. ps_ok k p \<and> ps_capacity p = c" "\<lambda>p. contents (ps_ring p)" ring_adm ps_put ps_get "unat c" for k c
proof unfold_locales
  fix p objs n
  assume p: "ps_ok k p \<and> ps_capacity p = c"
  then have ok: "ps_ok k p" and c: "ps_capacity p = c" by simp_all
  show "\<exists>a p'. ps_put objs p = Some (a, p') \<and> (ps_ok k p' \<and> ps_capacity p' = c) \<and>
      contents (ps_ring p') = contents (ps_ring p) @ a \<and> subseq a objs"
    if "ring_adm (Put objs)"
  proof -
    have "length objs < 2 ^ 31" using that by (simp add: ring_adm_def)
    from psring_enqueue_burst_spec [OF ok this] obtain p' m where
      "psring_enqueue_burst p objs (of_nat (length objs)) =
        Some (of_nat m, p', map Some (take m objs) @ replicate (length objs - m) None, drop m objs)"
      "m \<le> length objs" "ps_ok k p'" "ps_capacity p' = ps_capacity p" "contents (ps_ring p') = contents (ps_ring p) @ take m objs"
      by auto
    then show ?thesis
      using \<open>length objs < 2 ^ 31\<close> c unat_of_nat_u32 [of m] prefix_imp_subseq [OF take_is_prefix [of m objs]]
      by (simp add: ps_put_def)
  qed
  show "\<exists>b p'. ps_get n p = Some (b, p') \<and> (ps_ok k p' \<and> ps_capacity p' = c) \<and>
      contents (ps_ring p) = b @ contents (ps_ring p') \<and> length b \<le> n"
    if "ring_adm (Get n :: mbuf qop)"
  proof -
    have n: "n < 2 ^ 31" using that by (simp add: ring_adm_def)
    with psring_dequeue_burst_spec [OF ok, of "replicate n no_mbuf"] obtain p' m where
      r: "psring_dequeue_burst p (replicate n no_mbuf) (of_nat n) =
        Some (of_nat m, overlay 0 (take m (contents (ps_ring p))) (replicate n no_mbuf), p')"
      "m \<le> n" "m \<le> used (ps_ring p)" "ps_ok k p'" "ps_capacity p' = ps_capacity p"
      "contents (ps_ring p') = drop m (contents (ps_ring p))"
      by auto
    moreover have "take m (overlay 0 (take m (contents (ps_ring p))) (replicate n no_mbuf)) = take m (contents (ps_ring p))"
      using overlay_front [of "take m (contents (ps_ring p))" "replicate n no_mbuf"] r(2,3) by simp
    ultimately show ?thesis using n c unat_of_nat_u32 [of m] by (simp add: ps_get_def)
  qed
  show "length (contents (ps_ring p)) \<le> unat c" using ok c by (simp add: ps_ok_def)
qed

section \<open>Properties of the rings\<close>

lemma psring_enqueue_single:
  assumes ok: "ps_ok k p"
  shows "\<exists>p'. psring_enqueue p m =
      Some (if used (ps_ring p) < unat (ps_capacity p) then (1, p', []) else (0, p', [m])) \<and>
    ps_ok k p' \<and> contents (ps_ring p') = contents (ps_ring p) @ (if used (ps_ring p) < unat (ps_capacity p) then [m] else [])"
proof -
  let ?r = "ps_ring p"
  have ring: "ring_ok k ?r" and cap: "unat (ps_capacity p) \<le> room ?r" "used ?r \<le> unat (ps_capacity p)"
    using ok by (auto simp: ps_ok_def)
  have cnt: "unat (rte_ring_count ?r + 1) = used ?r + 1" using ps_sum [OF ok, of "[m]"] by simp
  have guard: "rte_ring_count ?r + 1 \<le> ps_capacity p \<longleftrightarrow> used ?r < unat (ps_capacity p)"
    using cnt by (simp add: word_le_nat_alt Suc_le_eq)
  show ?thesis
  proof (cases "used ?r < unat (ps_capacity p)")
    case True
    have mv: "1 = moved QUEUE_FIXED (room ?r - used ?r) (unat (1 :: u32))" using True cap by (simp add: moved_def)
    obtain r' where r': "do_enqueue ?r [m] 1 QUEUE_FIXED True = Some (of_nat 1, of_nat (room ?r - used ?r - 1), r')"
        "ring_ok k r'" "contents r' = contents ?r @ take 1 [m]" "same_ring ?r r'"
      using do_enqueue_spec [OF ring mv, of "[m]" True] by auto
    have "used r' = used ?r + 1" using r'(3) length_contents [of r'] by simp
    then have "ps_ok k (p\<lparr>ps_ring := r'\<rparr>)" using r' ok True by (simp add: ps_ok_def same_ring_def room_def)
    then show ?thesis
      using r' True guard by (intro exI [of _ "p\<lparr>ps_ring := r'\<rparr>"])
        (simp add: psring_enqueue_def rte_ring_sp_enqueue_def one_enqueued_def rte_ring_sp_enqueue_bulk_def)
  next
    case False
    then show ?thesis using guard ok by (simp add: psring_enqueue_def)
  qed
qed

definition example_zone :: "int \<Rightarrow> mbuf list option" where
  "example_zone sz = Some (replicate (nat ((sz - 384 + 7) div 8)) no_mbuf)"

lemma example_zone_ok: "zone_ok example_zone"
  by (auto simp: zone_ok_def example_zone_def)

text \<open>
  C18. A ring of \<^verbatim>\<open>ring.c\<close> is a queue for \<open>count - 1\<close> objects: whatever sequence of enqueue and dequeue calls
  follows its creation, every call returns, the objects come out in the order in which they went in,
  none is lost or duplicated, also when the 32 bit counters wrap around.
\<close>

theorem ring_is_fifo:
  assumes "zone_ok zone" and "count \<noteq> 0" and "create_ring zone zmalloc cnt count = (Some r, cnt')"
    and "list_all ring_adm ops"
  shows "\<exists>ins outs r'. run_ops ring_put (ring_get d) ops r = Some (ins, outs, r') \<and> ins = outs @ contents r' \<and>
    length (contents r') < unat count"
proof -
  obtain k where k: "ring_ok k r" "contents r = []" "room r = unat count - 1"
    using rte_ring_create_ok [OF assms(1) ring_flags assms(2)] assms(3) unfolding create_ring_def by blast
  moreover have "0 < unat count" using assms(2) by (simp add: unat_gt_0)
  ultimately show ?thesis using rq.empty_run_fifo [OF conjI [OF k(1) refl] k(2) assms(4), of d] by fastforce
qed

theorem ring_is_fifo_witness:
  "\<exists>ins outs r'. run_ops ring_put (ring_get no_mbuf) [Put [no_mbuf, no_mbuf], Get 1, Put [no_mbuf]]
      (the (fst (create_ring example_zone True 0 4))) = Some (ins, outs, r') \<and>
    ins = outs @ contents r' \<and> length (contents r') < 4"
proof -
  have "create_ring example_zone True 0 4 = (Some (the (fst (create_ring example_zone True 0 4))), 1)" by code_simp
  from ring_is_fifo [OF example_zone_ok _ this, of "[Put [no_mbuf, no_mbuf], Get 1, Put [no_mbuf]]" no_mbuf]
  show ?thesis by (simp add: ring_adm_def)
qed

text \<open>
  C21. A packet sized ring never holds more packets than its capacity, and keeps their order.
\<close>

theorem psring_is_fifo:
  assumes "zone_ok zone" and "create_psring zone zmalloc cnt capacity = Some (Some p, cnt')" and "list_all ring_adm ops"
  shows "\<exists>ins outs p'. run_ops ps_put ps_get ops p = Some (ins, outs, p') \<and> ins = outs @ contents (ps_ring p') \<and>
    length (contents (ps_ring p')) \<le> unat capacity"
proof -
  obtain k where k: "ps_ok k p" "contents (ps_ring p) = []"
    and c: "ps_capacity p = (if capacity > PS_RING_SIZE_LIMIT then PS_RING_SIZE_LIMIT else capacity)"
    using create_psring_ok [OF assms(1,2)] by blast
  have "unat (ps_capacity p) \<le> unat capacity" unfolding c by (simp add: word_less_nat_alt)
  then show ?thesis using pq.empty_run_fifo [OF conjI [OF k(1) refl] k(2) assms(3)] by fastforce
qed

theorem psring_is_fifo_witness:
  "\<exists>p ins outs p'. create_psring example_zone True 0 3 = Some (Some p, 1) \<and>
    run_ops ps_put ps_get [Put [no_mbuf, no_mbuf], Put [no_mbuf, no_mbuf], Get 1] p = Some (ins, outs, p') \<and>
    ins = outs @ contents (ps_ring p') \<and> length (contents (ps_ring p')) \<le> 3"
proof -
  obtain p where p: "create_psring example_zone True 0 3 = Some (Some p, 1)"
  proof -
    have "map_option (\<lambda>(p, c). (p \<noteq> None, c)) (create_psring example_zone True 0 3) = Some (True, 1)" by code_simp
    then show ?thesis using that by auto
  qed
  from psring_is_fifo [OF example_zone_ok p, of "[Put [no_mbuf, no_mbuf], Put [no_mbuf, no_mbuf], Get 1]"]
  show ?thesis using p by (simp add: ring_adm_def)
qed

text \<open>
  C23. A burst puts as many packets into the ring as fit, from the front, and frees exactly the others.
\<close>

theorem psring_burst_complete:
  assumes "ps_ok k p" and "length obj < 2 ^ 31"
  shows "\<exists>p' m freed. psring_enqueue_burst p obj (of_nat (length obj)) =
      Some (of_nat m, p', map Some (take m obj) @ replicate (length obj - m) None, freed) \<and>
    m = min (length obj) (unat (ps_capacity p) - used (ps_ring p)) \<and>
    contents (ps_ring p') = contents (ps_ring p) @ take m obj \<and> take m obj @ freed = obj"
  using psring_enqueue_burst_spec [OF assms] append_take_drop_id by blast

text \<open>
  A packet sized ring for 2 to the 27 packets or more cannot be created, although the size limit of the
  code is twice as large: the ring requested from DPDK is larger than DPDK allows.
\<close>

theorem create_psring_too_large:
  assumes "2 ^ 27 \<le> capacity"
  shows "create_psring zone zmalloc cnt capacity = Some (None, cnt + 1)"
proof -
  let ?c = "if capacity > PS_RING_SIZE_LIMIT then PS_RING_SIZE_LIMIT else capacity"
  obtain j where j: "j \<le> 28" "ps_count_loop ?c 1 = Some (2 ^ j)" "unat ?c < 2 ^ j"
    using ps_count_loop_power [of 0 ?c] ps_limit [of capacity] by auto
  have "2 ^ 27 \<le> unat ?c" using assms by (simp add: PS_RING_SIZE_LIMIT_def word_le_nat_alt)
  then have "(2 :: nat) ^ 27 < 2 ^ j" using j(3) by simp
  then have "27 < j" by (rule power_less_imp_less_exp [rotated]) simp
  then have "j = 28" using j(1) by simp
  then have "rte_ring_get_memsize (2 ^ j) = -22"
    by (simp add: rte_ring_get_memsize_def RTE_RING_SZ_MASK_def word_less_nat_alt)
  then show ?thesis using j(2) ring_flags by (simp add: create_psring_def Let_def rte_ring_create_def)
qed

theorem create_psring_too_large_witness:
  "create_psring example_zone True 5 0x08000000 = Some (None, 6)"
proof -
  have "(2 ^ 27 :: u32) \<le> 0x08000000" by simp
  from create_psring_too_large [OF this, where zone = example_zone and zmalloc = True and cnt = 5] show ?thesis by simp
qed

text \<open>
  In bulk mode the last place of a packet sized ring is never used: a ring for four packets takes three, and
  refuses four packets although a burst takes all four.
\<close>

theorem psring_bulk_leaves_one:
  assumes "ps_ok k p" and "used (ps_ring p) + length obj = unat (ps_capacity p)" and "length obj < 2 ^ 31"
  shows "\<exists>p'. psring_enqueue_bulk p obj (of_nat (length obj)) = Some (0, p') \<and> contents (ps_ring p') = contents (ps_ring p)"
  using psring_enqueue_bulk_spec [OF assms(1,3)] assms(2) by auto

lemma example_psring:
  obtains k p where "create_psring example_zone True 0 4 = Some (Some p, 1)" and "ps_ok k p"
    and "contents (ps_ring p) = []" and "used (ps_ring p) = 0" and "unat (ps_capacity p) = 4"
proof -
  have "map_option (\<lambda>(p, c). (p \<noteq> None, c)) (create_psring example_zone True 0 4) = Some (True, 1)" by code_simp
  then obtain p where p: "create_psring example_zone True 0 4 = Some (Some p, 1)" by auto
  then obtain k where "ps_ok k p" "contents (ps_ring p) = []" "ps_capacity p = 4"
    using create_psring_ok [OF example_zone_ok p] by (auto simp: PS_RING_SIZE_LIMIT_def)
  then show ?thesis using that p length_contents [of "ps_ring p"] by simp
qed

theorem psring_bulk_leaves_one_witness:
  "\<exists>p p'. create_psring example_zone True 0 4 = Some (Some p, 1) \<and>
     psring_enqueue_bulk p [no_mbuf, no_mbuf, no_mbuf, no_mbuf] 4 = Some (0, p')"
proof -
  obtain k p where p: "create_psring example_zone True 0 4 = Some (Some p, 1)" "ps_ok k p" "used (ps_ring p) = 0"
    "unat (ps_capacity p) = 4" by (rule example_psring)
  then show ?thesis using psring_bulk_leaves_one [OF p(2), of "[no_mbuf, no_mbuf, no_mbuf, no_mbuf]"] by auto
qed

theorem psring_burst_complete_witness:
  "\<exists>p p' m freed. create_psring example_zone True 0 4 = Some (Some p, 1) \<and>
     psring_enqueue_burst p [no_mbuf, no_mbuf] 2 = Some (2, p', [Some no_mbuf, Some no_mbuf], freed) \<and>
     contents (ps_ring p') = [no_mbuf, no_mbuf] \<and> freed = []"
proof -
  obtain k p where p: "create_psring example_zone True 0 4 = Some (Some p, 1)" "ps_ok k p"
    "contents (ps_ring p) = []" "used (ps_ring p) = 0" "unat (ps_capacity p) = 4" by (rule example_psring)
  then show ?thesis using psring_burst_complete [OF p(2), of "[no_mbuf, no_mbuf]"] by auto
qed

text \<open>
  C19. The copy loops of \<^verbatim>\<open>rte_ring.h\<close>, which are unrolled four times, finish with a fall-through
  \<^verbatim>\<open>switch\<close> and treat the wrap around separately, are equivalent to the plain loops that put object \<open>u\<close> into,
  or take it from, the slot \<open>(head + u) mod size\<close>.
\<close>

theorem unrolled_copy_equiv:
  assumes "ring_ok k r" and "unat n \<le> room r" and "unat n \<le> length objs"
  shows "enqueue_ptrs r h objs n = Some (enq_ref (2 ^ k) (unat h mod 2 ^ k) objs (unat n) (slots r)) \<and>
    dequeue_ptrs r h objs n = Some (deq_ref (2 ^ k) (unat h mod 2 ^ k) (unat n) (slots r) @ drop (unat n) objs)"
proof -
  have "length (deq_ref (2 ^ k) (unat h mod 2 ^ k) (unat n) (slots r)) = unat n" by (simp add: deq_ref_def)
  then show ?thesis
    using enqueue_ptrs_ref [OF assms] dequeue_ptrs_ref [OF assms] by (simp add: overlay_def)
qed

theorem unrolled_copy_equiv_witness:
  "\<exists>k p. create_psring example_zone True 0 4 = Some (Some p, 1) \<and>
     enqueue_ptrs (ps_ring p) 6 [no_mbuf, no_mbuf, no_mbuf] 3 =
       Some (enq_ref (2 ^ k) (6 mod 2 ^ k) [no_mbuf, no_mbuf, no_mbuf] 3 (slots (ps_ring p)))"
proof -
  obtain k p where p: "create_psring example_zone True 0 4 = Some (Some p, 1)" "ps_ok k p"
    "contents (ps_ring p) = []" "used (ps_ring p) = 0" "unat (ps_capacity p) = 4" by (rule example_psring)
  then have "ring_ok k (ps_ring p)" "4 \<le> room (ps_ring p)" by (auto simp: ps_ok_def)
  then show ?thesis
    using p(1) unrolled_copy_equiv [of k "ps_ring p" 3 "[no_mbuf, no_mbuf, no_mbuf]" 6] by auto
qed

end
