(* ===== verification/Bs_Ring.thy ===== *)
theory Bs_Ring
  imports Ps_Ring
begin

text \<open>
  \<^verbatim>\<open>bytesizedring.cpp\<close>: the ring that is limited in bytes. The byte counter equals the lengths of the
  packets in the ring and never exceeds the capacity, except after \<^verbatim>\<open>bsring_enqueue_burst\<close> has
  come to its second loop.
\<close>

section \<open>Lengths\<close>

definition blen :: "mbuf list \<Rightarrow> nat" where
  "blen ms = sum_list (map (\<lambda>m. unat (pkt_len m)) ms)"

lemma blen_simps [simp]:
  "blen [] = 0" "blen (m # ms) = unat (pkt_len m) + blen ms" "blen (xs @ ys) = blen xs + blen ys"
  by (simp_all add: blen_def)

lemma blen_take_drop: "blen (take n ms) + blen (drop n ms) = blen ms"
  by (metis append_take_drop_id blen_simps(3))

lemma sum_pkt_len: "blen ms < 2 ^ 32 \<Longrightarrow> unat (sum_list (map pkt_len ms)) = blen ms"
proof (induction ms)
  case (Cons m ms)
  then show ?case using unat_add_small [of "pkt_len m" "sum_list (map pkt_len ms)"] by simp
qed simp

lemma total_len_blen:
  assumes "unat n \<le> length obj" and "blen (take (unat n) obj) < 2 ^ 32"
  shows "\<exists>w. total_len obj n = Some w \<and> unat w = blen (take (unat n) obj)"
  using assms sum_pkt_len [of "take (unat n) obj"] by (simp add: total_len_def)

lemma total_len_front:
  assumes "length xs \<le> length obj" and "length xs < 2 ^ 32" and "blen xs < 2 ^ 32"
  shows "\<exists>w. total_len (overlay 0 xs obj) (of_nat (length xs)) = Some w \<and> unat w = blen xs"
proof -
  have u: "unat (of_nat (length xs) :: u32) = length xs" using assms(2) by (rule unat_of_nat_u32)
  have "take (length xs) (overlay 0 xs obj) = xs" by (rule overlay_front [OF assms(1)])
  then show ?thesis
    using total_len_blen [of "of_nat (length xs)" "overlay 0 xs obj"] assms u by simp
qed

section \<open>The invariant\<close>

definition bs_ok :: "nat \<Rightarrow> bs_ring \<Rightarrow> bool" where
  "bs_ok k b \<longleftrightarrow> ring_ok k (bs_ring b) \<and> unat (bs_capacity b) < 2 ^ 31 \<and>
     unat (bytes_used b) = blen (contents (bs_ring b)) \<and> blen (contents (bs_ring b)) \<le> unat (bs_capacity b)"

text \<open>The packets that a bulk enqueue takes: all of them or none.\<close>

definition bulk_taken :: "bs_ring \<Rightarrow> mbuf list \<Rightarrow> nat" where
  "bulk_taken b obj =
     (if blen (contents (bs_ring b)) + blen obj \<le> unat (bs_capacity b) \<and>
         length obj \<le> room (bs_ring b) - used (bs_ring b)
      then length obj else 0)"

lemma bsring_enqueue_bulk_spec:
  assumes ok: "bs_ok k b" and n: "length obj < 2 ^ 31" and bytes: "blen obj < 2 ^ 31"
  shows "\<exists>b'. bsring_enqueue_bulk b obj (of_nat (length obj)) =
      Some (of_nat (bulk_taken b obj), b',
            map Some (take (bulk_taken b obj) obj) @ replicate (length obj - bulk_taken b obj) None, drop (bulk_taken b obj) obj) \<and>
    bs_ok k b' \<and> bs_capacity b' = bs_capacity b \<and>
    contents (bs_ring b') = contents (bs_ring b) @ take (bulk_taken b obj) obj"
proof -
  let ?r = "bs_ring b" and ?n = "of_nat (length obj) :: u32"
  have ring: "ring_ok k ?r" and cap: "unat (bs_capacity b) < 2 ^ 31"
    and used: "unat (bytes_used b) = blen (contents ?r)" "blen (contents ?r) \<le> unat (bs_capacity b)"
    using ok by (auto simp: bs_ok_def)
  have un: "unat ?n = length obj" using n by (intro unat_of_nat_u32) simp
  obtain w where w: "total_len obj ?n = Some w" "unat w = blen obj"
    using total_len_blen [of ?n obj] un bytes by auto
  have sum: "unat (bytes_used b + w) = blen (contents ?r) + blen obj"
    using unat_add_small [of "bytes_used b" w] used cap bytes w(2) by simp
  show ?thesis
  proof (cases "blen (contents ?r) + blen obj \<le> unat (bs_capacity b)")
    case False
    then have "bulk_taken b obj = 0" by (simp add: bulk_taken_def)
    moreover have "bytes_used b + w > bs_capacity b" using False sum by (simp add: word_less_nat_alt)
    ultimately show ?thesis
      using ok w(1) un free_loop_packets [of 0 "length obj" obj] by (simp add: bsring_enqueue_bulk_def)
  next
    case True
    define m where "m = bulk_taken b obj"
    have m: "m = moved QUEUE_FIXED (room ?r - used ?r) (unat ?n)"
      unfolding un m_def using True by (simp add: bulk_taken_def moved_def)
    have mle: "m \<le> length obj" by (simp add: m_def bulk_taken_def)
    obtain r' where r': "do_enqueue ?r obj ?n QUEUE_FIXED True = Some (of_nat m, of_nat (room ?r - used ?r - m), r')"
        "ring_ok k r'" "contents r' = contents ?r @ take m obj" "same_ring ?r r'"
      using do_enqueue_spec [OF ring m mle, of True] by blast
    have um: "unat (of_nat m :: u32) = m" using mle n by (intro unat_of_nat_u32) simp
    have blm: "blen (take m obj) \<le> blen obj" using blen_take_drop [of m obj] by simp
    obtain v where v: "total_len obj (of_nat m) = Some v" "unat v = blen (take m obj)"
      using total_len_blen [of "of_nat m" obj] um mle blm bytes by auto
    let ?b' = "b\<lparr>bs_ring := r', bytes_used := bytes_used b + v\<rparr>"
    have "unat (bytes_used b + v) = blen (contents ?r) + blen (take m obj)"
      using unat_add_small [of "bytes_used b" v] used cap True blm v(2) by simp
    then have "bs_ok k ?b'" using r' cap True blm by (simp add: bs_ok_def)
    moreover have "\<not> bytes_used b + w > bs_capacity b" using True sum by (simp add: word_less_nat_alt)
    then have "bsring_enqueue_bulk b obj ?n =
        Some (of_nat m, ?b', map Some (take m obj) @ replicate (length obj - m) None, drop m obj)"
      using w(1) r'(1) um un v(1) free_loop_packets [OF mle order_refl]
      by (simp add: bsring_enqueue_bulk_def rte_ring_sp_enqueue_bulk_def)
    ultimately show ?thesis using r'(3) m_def by auto
  qed
qed

lemma bsring_dequeue_burst_spec:
  assumes ok: "bs_ok k b" and n: "length obj < 2 ^ 31"
  shows "\<exists>b' m. bsring_dequeue_burst b obj (of_nat (length obj)) =
      Some (of_nat m, overlay 0 (take m (contents (bs_ring b))) obj, b') \<and> m = min (length obj) (used (bs_ring b)) \<and>
    bs_ok k b' \<and> bs_capacity b' = bs_capacity b \<and> contents (bs_ring b') = drop m (contents (bs_ring b))"
proof -
  let ?r = "bs_ring b" and ?n = "of_nat (length obj) :: u32"
  have ring: "ring_ok k ?r" and cap: "unat (bs_capacity b) < 2 ^ 31"
    and used: "unat (bytes_used b) = blen (contents ?r)" "blen (contents ?r) \<le> unat (bs_capacity b)"
    using ok by (auto simp: bs_ok_def)
  have un: "unat ?n = length obj" using n by (intro unat_of_nat_u32) simp
  define m where "m = min (length obj) (used ?r)"
  have mv: "moved QUEUE_VARIABLE (used ?r) (unat ?n) = m" unfolding un by (auto simp: moved_def m_def)
  have mle: "m \<le> length obj" "length (take m (contents ?r)) = m" by (simp_all add: m_def)
  obtain r' where r': "do_dequeue ?r obj ?n QUEUE_VARIABLE True =
        Some (of_nat m, of_nat (used ?r - m), overlay 0 (take m (contents ?r)) obj, r')"
      "ring_ok k r'" "contents r' = drop m (contents ?r)" "same_ring ?r r'"
    using do_dequeue_spec [OF ring mv [symmetric] mle(1), of True] by blast
  have bl: "blen (take m (contents ?r)) + blen (drop m (contents ?r)) = blen (contents ?r)" by (rule blen_take_drop)
  obtain w where w: "total_len (overlay 0 (take m (contents ?r)) obj) (of_nat m) = Some w" "unat w = blen (take m (contents ?r))"
    using total_len_front [of "take m (contents ?r)" obj] mle n bl used cap by auto
  let ?b' = "b\<lparr>bs_ring := r', bytes_used := bytes_used b - w\<rparr>"
  have "unat (bytes_used b - w) = blen (drop m (contents ?r))"
    using unat_minus_small [of w "bytes_used b"] w(2) used(1) bl by simp
  then have "bs_ok k ?b'" using r' cap used bl by (simp add: bs_ok_def)
  moreover have "bsring_dequeue_burst b obj ?n = Some (of_nat m, overlay 0 (take m (contents ?r)) obj, ?b')"
    using r'(1) w(1) by (simp add: bsring_dequeue_burst_def bs_removed_def rte_ring_sc_dequeue_burst_def)
  ultimately show ?thesis using r'(3) m_def by (intro exI [of _ ?b'] exI [of _ m]) simp
qed

section \<open>The contract\<close>

definition bs_put :: "mbuf list \<Rightarrow> bs_ring \<Rightarrow> (mbuf list \<times> bs_ring) option" where
  "bs_put obj b = do { (n, b1, _, _) \<leftarrow> bsring_enqueue_bulk b obj (of_nat (length obj)); Some (take (unat n) obj, b1) }"

definition bs_get :: "nat \<Rightarrow> bs_ring \<Rightarrow> (mbuf list \<times> bs_ring) option" where
  "bs_get n b = do { (k, objs, b1) \<leftarrow> bsring_dequeue_burst b (replicate n no_mbuf) (of_nat n); Some (take (unat k) objs, b1) }"

definition bs_adm :: "mbuf qop \<Rightarrow> bool" where
  "bs_adm x = (case x of Put objs \<Rightarrow> length objs < 2 ^ 31 \<and> blen objs < 2 ^ 31 | Get n \<Rightarrow> n < 2 ^ 31)"


interpretation bq: fifo_queue "bs_ok k" "\<lambda>b. contents (bs_ring b)" bs_adm bs_put bs_get "2 ^ k" for k
proof unfold_locales
  fix b objs n
  assume ok: "bs_ok k b"
  show "\<exists>a b'. bs_put objs b = Some (a, b') \<and> bs_ok k b' \<and>
      contents (bs_ring b') = contents (bs_ring b) @ a \<and> subseq a objs"
    if "bs_adm (Put objs)"
  proof -
    have l: "length objs < 2 ^ 31" "blen objs < 2 ^ 31" using that by (simp_all add: bs_adm_def)
    have "bulk_taken b objs < 2 ^ 32" using l(1) by (simp add: bulk_taken_def)
    then have "unat (of_nat (bulk_taken b objs) :: u32) = bulk_taken b objs" by (rule unat_of_nat_u32)
    then show ?thesis
      using bsring_enqueue_bulk_spec [OF ok l] prefix_imp_subseq [OF take_is_prefix [of "bulk_taken b objs" objs]]
      by (auto simp: bs_put_def)
  qed
  show "\<exists>out b'. bs_get n b = Some (out, b') \<and> bs_ok k b' \<and>
      contents (bs_ring b) = out @ contents (bs_ring b') \<and> length out \<le> n"
    if "bs_adm (Get n)"
  proof -
    have n: "n < 2 ^ 31" using that by (simp add: bs_adm_def)
    with bsring_dequeue_burst_spec [OF ok, of "replicate n no_mbuf"] obtain b' m where
      r: "bsring_dequeue_burst b (replicate n no_mbuf) (of_nat n) =
        Some (of_nat m, overlay 0 (take m (contents (bs_ring b))) (replicate n no_mbuf), b')"
      "m \<le> n" "m \<le> used (bs_ring b)" "bs_ok k b'" "contents (bs_ring b') = drop m (contents (bs_ring b))"
      by auto
    moreover have "take m (overlay 0 (take m (contents (bs_ring b))) (replicate n no_mbuf)) = take m (contents (bs_ring b))"
      using overlay_front [of "take m (contents (bs_ring b))" "replicate n no_mbuf"] r(2,3) by simp
    ultimately show ?thesis using n unat_of_nat_u32 [of m] by (simp add: bs_get_def)
  qed
  show "length (contents (bs_ring b)) \<le> 2 ^ k"
    using ok ring_okD(4,5) [of k "bs_ring b"] by (simp add: bs_ok_def)
qed

section \<open>Creation\<close>

lemma bs_count_loop_power:
  assumes "i \<le> 27" and "cm < 2 ^ 27"
  shows "\<exists>j. j \<le> 27 \<and> bs_count_loop cm (2 ^ i) = 2 ^ j \<and> cm < 2 ^ j"
  using assms(1)
proof (induction "27 - i" arbitrary: i)
  case 0
  then have "i = 27" by simp
  then show ?case using assms(2) by (subst bs_count_loop.simps) auto
next
  case (Suc d)
  have pw: "(2 :: int) ^ i \<le> 2 ^ 27" using Suc.prems by (intro power_increasing) simp_all
  show ?case
  proof (cases "2 ^ i - 1 < cm")
    case True
    then have "bs_count_loop cm (2 ^ i) = bs_count_loop cm (2 ^ Suc i)"
      using pw by (subst bs_count_loop.simps) (simp add: BS_RING_SIZE_LIMIT_def mult.commute)
    moreover have "d = 27 - Suc i" "Suc i \<le> 27" using Suc.hyps(2) by simp_all
    ultimately show ?thesis using Suc.hyps(1) by metis
  next
    case False
    then have "bs_count_loop cm (2 ^ i) = 2 ^ i" by (subst bs_count_loop.simps) simp
    then show ?thesis using False Suc.prems by (intro exI [of _ i]) simp
  qed
qed

lemma create_bsring_ok:
  assumes "zone_ok zone" and "create_bsring zone zmalloc cnt capacity = (Some b, cnt')" and "unat capacity < 2 ^ 31"
  shows "\<exists>k. bs_ok k b \<and> contents (bs_ring b) = [] \<and> bs_capacity b = capacity \<and> unat capacity div 60 \<le> room (bs_ring b)"
proof -
  let ?cm = "uint (capacity div 60)"
  have "?cm = uint capacity div 60" by (simp add: uint_div_distrib)
  then have cm: "?cm = int (unat capacity div 60)" by (simp only: uint_nat zdiv_int of_nat_numeral)
  moreover have "unat capacity div 60 < 2 ^ 27" using assms(3) by (simp add: div_less_iff_less_mult)
  ultimately have "?cm < 2 ^ 27" by simp
  then obtain j where j: "j \<le> 27" "bs_count_loop ?cm 1 = 2 ^ j" "?cm < 2 ^ j"
    using bs_count_loop_power [of 0 ?cm] by auto
  have pw: "(2 :: int) ^ j \<le> 2 ^ 27" using j(1) by (intro power_increasing) simp_all
  obtain r where r: "rte_ring_create zone zmalloc (''mbuf_bs_ring'' @ show_long (sint cnt)) (2 ^ j)
        (RING_F_SP_ENQ OR RING_F_SC_DEQ) = Some r" "b = \<lparr>bs_ring = r, bs_capacity = capacity, bytes_used = 0\<rparr>"
    using assms(2) j(2) pw by (auto simp: create_bsring_def Let_def BS_RING_SIZE_LIMIT_def split: option.splits)
  have uj: "unat (2 ^ j :: u32) = 2 ^ j" using j(1) by (intro unat_power_u32) simp
  then have ne: "(2 ^ j :: u32) \<noteq> 0" by (metis power_not_zero unat_0 zero_neq_numeral)
  obtain k where k: "ring_ok k r" "contents r = []" "room r = unat (2 ^ j :: u32) - 1"
    using rte_ring_create_ok [OF assms(1) ring_flags ne r(1)] by blast
  have "int (unat capacity div 60) < int (2 ^ j)" using j(3) cm by simp
  then have "unat capacity div 60 < 2 ^ j" by (simp only: of_nat_less_iff)
  then have "unat capacity div 60 \<le> room r" using k(3) uj by simp
  then show ?thesis using k r(2) assms(3) by (auto simp: bs_ok_def)
qed

section \<open>Bursts\<close>

lemma sint_small:
  assumes "unat (w :: u32) < 2 ^ 31"
  shows "sint w = int (unat w)"
proof -
  have "uint w < 2 ^ 31" using assms unfolding uint_nat by (metis of_nat_less_numeral_power_cancel_iff)
  then have "sint w = uint w"
    by (simp add: sint_uint signed_take_bit_eq_if_positive bit_iff_odd take_bit_int_eq_self)
  then show ?thesis by (simp only: uint_nat)
qed

lemma to_int_small: "0 \<le> i \<Longrightarrow> i < 2 ^ 31 \<Longrightarrow> to_int i = i"
  by (simp add: to_int_def to_signed_def)

lemma to_int_minus: "int n \<le> i \<Longrightarrow> i < 2 ^ 31 \<Longrightarrow> to_int (i - int n) = i - int n"
  by (rule to_int_small) simp_all

lemma fit_loop_all:
  assumes "int (blen ms) \<le> rem" and "rem < 2 ^ 31" and "list_all (\<lambda>m. 0 < pkt_len m) ms"
  shows "fit_loop ms num rem = (num + of_nat (length ms), rem - int (blen ms))"
  using assms
proof (induction ms arbitrary: num rem)
  case (Cons m ms)
  have u: "uint (pkt_len m) = int (unat (pkt_len m))" by (rule uint_nat)
  have "0 < unat (pkt_len m)" using Cons.prems(3) by (simp add: word_less_nat_alt)
  moreover have le: "int (unat (pkt_len m)) + int (blen ms) \<le> rem"
    using Cons.prems(1) by (simp only: blen_simps of_nat_add)
  ultimately have pos: "0 < rem" by linarith
  have "to_int (rem - uint (pkt_len m)) = rem - int (unat (pkt_len m))"
    unfolding u using Cons.prems(2) le by (intro to_int_minus) auto
  moreover have "rem - int (unat (pkt_len m)) < 2 ^ 31" using Cons.prems(2) by linarith
  then have "fit_loop ms (num + 1) (rem - int (unat (pkt_len m))) =
      (num + 1 + of_nat (length ms), rem - int (unat (pkt_len m)) - int (blen ms))"
    by (intro Cons.IH) (use Cons.prems(3) le in simp_all)
  ultimately show ?case using pos by (simp add: add.assoc diff_diff_eq)
qed simp

lemma bsring_burst_fits_spec:
  assumes ok: "bs_ok k b" and n: "length obj < 2 ^ 31" and pos: "list_all (\<lambda>m. 0 < pkt_len m) obj"
    and fits: "blen (contents (bs_ring b)) + blen obj \<le> unat (bs_capacity b)"
    and room: "length obj \<le> room (bs_ring b) - used (bs_ring b)"
  shows "\<exists>b'. bsring_enqueue_burst b obj (of_nat (length obj)) = Some (of_nat (length obj), b', map Some obj, []) \<and>
    bs_ok k b' \<and> contents (bs_ring b') = contents (bs_ring b) @ obj"
proof -
  let ?r = "bs_ring b" and ?n = "of_nat (length obj) :: u32"
  have ring: "ring_ok k ?r" and cap: "unat (bs_capacity b) < 2 ^ 31"
    and used: "unat (bytes_used b) = blen (contents ?r)" "blen (contents ?r) \<le> unat (bs_capacity b)"
    using ok by (auto simp: bs_ok_def)
  have un: "unat ?n = length obj" using n by (intro unat_of_nat_u32) simp
  have free: "unat (bs_capacity b - bytes_used b) = unat (bs_capacity b) - blen (contents ?r)"
    using unat_minus_small [of "bytes_used b" "bs_capacity b"] used by simp
  define f where "f = unat (bs_capacity b) - blen (contents ?r)"
  have f: "blen obj \<le> f" "f < 2 ^ 31" using fits cap by (simp_all add: f_def)
  have rem: "sint (bs_capacity b - bytes_used b) = int f"
    using sint_small [of "bs_capacity b - bytes_used b"] free f(2) by (simp only: f_def)
  have fit: "fit_loop (take (unat ?n) obj) 0 (sint (bs_capacity b - bytes_used b)) =
      (?n, int f - int (blen obj))"
    using fit_loop_all [of obj "int f" 0] f pos un unfolding rem by simp
  have left: "\<not> int f - int (blen obj) < 0" using f(1) by simp
  have m: "length obj = moved QUEUE_VARIABLE (room ?r - used ?r) (unat ?n)" unfolding un using room by (simp add: moved_def)
  obtain r' where r': "do_enqueue ?r obj ?n QUEUE_VARIABLE True = Some (?n, of_nat (room ?r - used ?r - length obj), r')"
      "ring_ok k r'" "contents r' = contents ?r @ obj"
    using do_enqueue_spec [OF ring m order_refl, of True] by auto
  obtain w where w: "total_len obj ?n = Some w" "unat w = blen obj"
    using total_len_blen [of ?n obj] un fits cap by auto
  let ?b' = "b\<lparr>bs_ring := r', bytes_used := bytes_used b + w\<rparr>"
  have "unat (bytes_used b + w) = blen (contents ?r) + blen obj"
    using unat_add_small [of "bytes_used b" w] used cap fits w(2) by simp
  then have "bs_ok k ?b'" using r' cap fits by (simp add: bs_ok_def)
  moreover have "bsring_enqueue_burst b obj ?n = Some (?n, ?b', map Some obj, [])"
    using fit left r'(1) w(1) un free_loop_packets [of "length obj" "length obj" obj]
    by (simp add: bsring_enqueue_burst_def rte_ring_sp_enqueue_burst_def Let_def)
  ultimately show ?thesis using r'(3) by auto
qed

section \<open>Properties of the byte sized ring\<close>

definition example_mbufs :: "mbuf list" where
  "example_mbufs = [\<lparr>m_id = 1, pkt_len = 100\<rparr>, \<lparr>m_id = 2, pkt_len = 150\<rparr>, \<lparr>m_id = 3, pkt_len = 60\<rparr>]"

lemma example_bsring:
  obtains k b where "create_bsring example_zone True 0 600 = (Some b, 1)" and "bs_ok k b"
    and "contents (bs_ring b) = []" and "used (bs_ring b) = 0" and "unat (bs_capacity b) = 600" and "10 \<le> room (bs_ring b)"
proof -
  have "(\<lambda>(b, c). (b \<noteq> None, c)) (create_bsring example_zone True 0 600) = (True, 1)" by code_simp
  then obtain b where b: "create_bsring example_zone True 0 600 = (Some b, 1)" by (auto split: prod.splits)
  then obtain k where k: "bs_ok k b" "contents (bs_ring b) = []" "bs_capacity b = 600" "unat (600 :: u32) div 60 \<le> room (bs_ring b)"
    using create_bsring_ok [OF example_zone_ok b] by auto
  moreover have "used (bs_ring b) = 0" using k(2) length_contents [of "bs_ring b"] by simp
  ultimately show ?thesis using that b by simp
qed

text \<open>
  C20. As long as packets are enqueued in bulk, the byte sized ring is a queue whose byte counter is the sum of
  the lengths of the packets it holds, which never exceeds the capacity.
\<close>

theorem bsring_is_fifo:
  assumes "zone_ok zone" and "create_bsring zone zmalloc cnt capacity = (Some b, cnt')" and "unat capacity < 2 ^ 31"
    and "list_all bs_adm ops"
  shows "\<exists>ins outs b'. run_ops bs_put bs_get ops b = Some (ins, outs, b') \<and> ins = outs @ contents (bs_ring b') \<and>
    unat (bytes_used b') = blen (contents (bs_ring b')) \<and> blen (contents (bs_ring b')) \<le> unat (bs_capacity b')"
proof -
  obtain k where k: "bs_ok k b" "contents (bs_ring b) = []" using create_bsring_ok [OF assms(1-3)] by blast
  then show ?thesis using bq.empty_run_fifo [OF k assms(4)] by (fastforce simp: bs_ok_def)
qed

theorem bsring_is_fifo_witness:
  "\<exists>b ins outs b'. create_bsring example_zone True 0 600 = (Some b, 1) \<and>
     run_ops bs_put bs_get [Put example_mbufs, Get 2, Put example_mbufs] b = Some (ins, outs, b') \<and>
     unat (bytes_used b') = blen (contents (bs_ring b'))"
proof -
  obtain k b where b: "create_bsring example_zone True 0 600 = (Some b, 1)" by (rule example_bsring)
  from bsring_is_fifo [OF example_zone_ok b, of "[Put example_mbufs, Get 2, Put example_mbufs]"] show ?thesis
    using b by (auto simp: bs_adm_def example_mbufs_def)
qed

text \<open>
  C22. The number of slots is never the limit: in a new ring every bulk of packets of at least 60 bytes that
  fits into the capacity is taken.
\<close>

theorem bsring_slots_suffice:
  assumes "zone_ok zone" and "create_bsring zone zmalloc cnt capacity = (Some b, cnt')" and "unat capacity < 2 ^ 31"
    and "list_all (\<lambda>m. 60 \<le> pkt_len m) obj" and "blen obj \<le> unat capacity"
  shows "\<exists>b'. bsring_enqueue_bulk b obj (of_nat (length obj)) = Some (of_nat (length obj), b', map Some obj, []) \<and>
    contents (bs_ring b') = obj \<and> unat (bytes_used b') = blen obj"
proof -
  obtain k where k: "bs_ok k b" "contents (bs_ring b) = []" "bs_capacity b = capacity" "unat capacity div 60 \<le> room (bs_ring b)"
    using create_bsring_ok [OF assms(1-3)] by blast
  have "60 * length obj \<le> blen obj"
    using assms(4) by (induction obj) (auto simp: word_le_nat_alt)
  then have "length obj \<le> unat capacity div 60" using assms(5) by (simp add: less_eq_div_iff_mult_less_eq)
  then have l: "length obj \<le> room (bs_ring b)" using k(4) by simp
  have u: "used (bs_ring b) = 0" using k(2) length_contents [of "bs_ring b"] by simp
  have t: "bulk_taken b obj = length obj" using assms(5) k(2,3) l u by (simp add: bulk_taken_def)
  have len: "length obj < 2 ^ 31" "blen obj < 2 ^ 31" using \<open>60 * length obj \<le> blen obj\<close> assms(3,5) by linarith+
  from bsring_enqueue_bulk_spec [OF k(1) len] show ?thesis
    unfolding t using k(2) by (auto simp: bs_ok_def)
qed

theorem bsring_slots_suffice_witness:
  "\<exists>b b'. create_bsring example_zone True 0 600 = (Some b, 1) \<and>
     bsring_enqueue_bulk b example_mbufs 3 = Some (3, b', map Some example_mbufs, []) \<and> contents (bs_ring b') = example_mbufs"
proof -
  obtain k b where b: "create_bsring example_zone True 0 600 = (Some b, 1)" by (rule example_bsring)
  from bsring_slots_suffice [OF example_zone_ok b, of example_mbufs] show ?thesis
    using b by (auto simp: example_mbufs_def word_le_nat_alt)
qed

text \<open>
  A burst that fits is taken completely.
\<close>

theorem bsring_burst_fits:
  assumes "bs_ok k b" and "length obj < 2 ^ 31" and "list_all (\<lambda>m. 0 < pkt_len m) obj"
    and "blen (contents (bs_ring b)) + blen obj \<le> unat (bs_capacity b)"
    and "length obj \<le> room (bs_ring b) - used (bs_ring b)"
  shows "\<exists>b'. bsring_enqueue_burst b obj (of_nat (length obj)) = Some (of_nat (length obj), b', map Some obj, []) \<and>
    bs_ok k b' \<and> contents (bs_ring b') = contents (bs_ring b) @ obj"
  using bsring_burst_fits_spec [OF assms] .

theorem bsring_burst_fits_witness:
  "\<exists>b b'. create_bsring example_zone True 0 600 = (Some b, 1) \<and>
     bsring_enqueue_burst b example_mbufs 3 = Some (3, b', map Some example_mbufs, [])"
proof -
  obtain k b where b: "create_bsring example_zone True 0 600 = (Some b, 1)" "bs_ok k b"
    "contents (bs_ring b) = []" "used (bs_ring b) = 0" "unat (bs_capacity b) = 600" "10 \<le> room (bs_ring b)"
    by (rule example_bsring)
  then show ?thesis
    using bsring_burst_fits [OF b(2), of example_mbufs] by (auto simp: example_mbufs_def word_less_nat_alt)
qed


end
