(* ===== verification/Ring_Threads.thy ===== *)
theory Ring_Threads
  imports Ring_Fifo "HOL-Library.Sublist"
begin

text \<open>
  The ring of DPDK used by several threads at once. A call of \<^verbatim>\<open>__rte_ring_do_enqueue\<close> or
  \<^verbatim>\<open>__rte_ring_do_dequeue\<close> is cut into its accesses to shared memory: the load of the own head, the load
  of the opposite tail, the compare-and-set of the head, each load or store of a slot, the wait for the
  own tail and its store. Threads interleave between any two of these; the accesses of one thread take
  effect in program order, as the \<^verbatim>\<open>volatile\<close> counters and the barriers of the code demand of a machine
  that does not reorder loads. All counters are the 32 bit words of the code.

  The theory shows that the slots claimed by the threads never overlap, that what leaves the ring is, in
  order, what entered it, and that the thread with the oldest claim is never held up by the others.
\<close>

section \<open>Threads\<close>

text \<open>
  Where a thread is, with its local variables: \<open>E_\<close> in an enqueue call, \<open>D_\<close> in a dequeue call. The
  words are \<^verbatim>\<open>old_head\<close> and \<^verbatim>\<open>n\<close>; a natural number or a list is how far the copying has come.
\<close>

datatype 'a pc =
    Idle
  | E_head behavior "'a list"
  | E_room behavior "'a list" u32
  | E_cas behavior "'a list" u32 u32
  | E_copy "'a list" u32 u32 nat
  | E_wait "'a list" u32 u32
  | E_ret u32
  | D_head behavior u32
  | D_room behavior u32 u32
  | D_cas behavior u32 u32 u32
  | D_copy u32 u32 "'a list"
  | D_wait u32 u32 "'a list"
  | D_ret u32 "'a list"

text \<open>
  The ring, the threads, and what the proofs record beside them: how many places have been claimed by
  enqueue and by dequeue calls since the ring was created, the objects put in and taken out by the calls
  that have updated the tail, and for every thread the number of places claimed when it loaded the head.
  No step depends on these.
\<close>

record 'a threads =
  ring :: "'a rte_ring"
  pc :: "nat \<Rightarrow> 'a pc"
  claimed_in :: nat
  claimed_out :: nat
  put_in :: "'a list"
  taken_out :: "'a list"
  seen :: "nat \<Rightarrow> nat"

fun at_rest :: "'a pc \<Rightarrow> bool" where
  "at_rest Idle = True"
| "at_rest (E_ret _) = True"
| "at_rest (D_ret _ _) = True"
| "at_rest _ = False"

fun enqueuing :: "'a pc \<Rightarrow> bool" where
  "enqueuing (E_head _ _) = True"
| "enqueuing (E_room _ _ _) = True"
| "enqueuing (E_cas _ _ _ _) = True"
| "enqueuing (E_copy _ _ _ _) = True"
| "enqueuing (E_wait _ _ _) = True"
| "enqueuing _ = False"

fun dequeuing :: "'a pc \<Rightarrow> bool" where
  "dequeuing (D_head _ _) = True"
| "dequeuing (D_room _ _ _) = True"
| "dequeuing (D_cas _ _ _ _) = True"
| "dequeuing (D_copy _ _ _) = True"
| "dequeuing (D_wait _ _ _) = True"
| "dequeuing _ = False"

text \<open>How far the head is to be moved.\<close>

definition burst :: "behavior \<Rightarrow> u32 \<Rightarrow> u32 \<Rightarrow> u32" where
  "burst beh mx avail = (if mx > avail then (if beh = QUEUE_FIXED then 0 else avail) else mx)"

text \<open>The slot of the \<open>i\<close>-th object of a copy loop that starts at \<open>head\<close>.\<close>

definition slot_of :: "'a rte_ring \<Rightarrow> u32 \<Rightarrow> nat \<Rightarrow> nat" where
  "slot_of r head i =
     (let idx = unat (head AND rmask r) in if idx + i < unat (rsize r) then idx + i else idx + i - unat (rsize r))"

section \<open>Steps\<close>

definition goto :: "nat \<Rightarrow> 'a pc \<Rightarrow> 'a threads \<Rightarrow> 'a threads" where
  "goto t c st = st\<lparr>pc := (pc st)(t := c)\<rparr>"

text \<open>
  The next access of thread \<open>t\<close> to the ring in an enqueue call and in a dequeue call. A thread that waits for
  the tail stays where it is.
\<close>

definition enqueue_step :: "nat \<Rightarrow> 'a threads \<Rightarrow> 'a threads" where
  "enqueue_step t st = (let r = ring st in
     case pc st t of
       E_head beh objs \<Rightarrow>
         goto t (E_room beh objs (prod_head r)) (st\<lparr>seen := (seen st)(t := claimed_in st)\<rparr>)
     | E_room beh objs old \<Rightarrow>
         (let n = burst beh (of_nat (length objs)) (rcapacity r + cons_tail r - old)
          in goto t (if n = 0 then E_ret 0 else E_cas beh objs old n) st)
     | E_cas beh objs old n \<Rightarrow>
         (if prod_single r \<or> prod_head r = old
          then goto t (E_copy objs old n 0)
                 (st\<lparr>ring := r\<lparr>prod_head := old + n\<rparr>, claimed_in := claimed_in st + unat n\<rparr>)
          else goto t (E_head beh objs) st)
     | E_copy objs old n i \<Rightarrow>
         (if i < unat n
          then goto t (E_copy objs old n (i + 1)) (st\<lparr>ring := r\<lparr>slots := (slots r)[slot_of r old i := objs ! i]\<rparr>\<rparr>)
          else goto t (E_wait objs old n) st)
     | E_wait objs old n \<Rightarrow>
         (if prod_single r \<or> prod_tail r = old
          then goto t (E_ret n)
                 (st\<lparr>ring := r\<lparr>prod_tail := old + n\<rparr>, put_in := put_in st @ take (unat n) objs\<rparr>)
          else st)
     | _ \<Rightarrow> st)"

definition dequeue_step :: "nat \<Rightarrow> 'a threads \<Rightarrow> 'a threads" where
  "dequeue_step t st = (let r = ring st in
     case pc st t of
       D_head beh mx \<Rightarrow>
         goto t (D_room beh mx (cons_head r)) (st\<lparr>seen := (seen st)(t := claimed_out st)\<rparr>)
     | D_room beh mx old \<Rightarrow>
         (let n = burst beh mx (prod_tail r - old)
          in goto t (if n = 0 then D_ret 0 [] else D_cas beh mx old n) st)
     | D_cas beh mx old n \<Rightarrow>
         (if cons_single r \<or> cons_head r = old
          then goto t (D_copy old n [])
                 (st\<lparr>ring := r\<lparr>cons_head := old + n\<rparr>, claimed_out := claimed_out st + unat n\<rparr>)
          else goto t (D_head beh mx) st)
     | D_copy old n got \<Rightarrow>
         (if length got < unat n
          then goto t (D_copy old n (got @ [slots r ! slot_of r old (length got)])) st
          else goto t (D_wait old n got) st)
     | D_wait old n got \<Rightarrow>
         (if cons_single r \<or> cons_tail r = old
          then goto t (D_ret n got)
                 (st\<lparr>ring := r\<lparr>cons_tail := old + n\<rparr>, taken_out := taken_out st @ got\<rparr>)
          else st)
     | _ \<Rightarrow> st)"

definition thread_step :: "nat \<Rightarrow> 'a threads \<Rightarrow> 'a threads" where
  "thread_step t st = (if enqueuing (pc st t) then enqueue_step t st else dequeue_step t st)"

lemmas step_defs = thread_step_def enqueue_step_def dequeue_step_def Let_def

definition new_ring :: "'a rte_ring \<Rightarrow> 'a threads" where
  "new_ring r = \<lparr>ring = r, pc = (\<lambda>_. Idle), claimed_in = 0, claimed_out = 0, put_in = [], taken_out = [], seen = (\<lambda>_. 0)\<rparr>"

text \<open>
  No thread sleeps between the load of a head and its compare-and-set for so long that the head comes
  around to the same 32 bit value.
\<close>

definition no_lap :: "'a threads \<Rightarrow> bool" where
  "no_lap st \<longleftrightarrow> (\<forall>t. case pc st t of
       E_room _ _ _ \<Rightarrow> claimed_in st - seen st t < 2 ^ 32
     | E_cas _ _ _ _ \<Rightarrow> claimed_in st - seen st t < 2 ^ 32
     | D_room _ _ _ \<Rightarrow> claimed_out st - seen st t < 2 ^ 32
     | D_cas _ _ _ _ \<Rightarrow> claimed_out st - seen st t < 2 ^ 32
     | _ \<Rightarrow> True)"

text \<open>
  The states reached from a new ring when threads call and step in any order. On a ring with the flags
  \<^verbatim>\<open>RING_F_SP_ENQ\<close> or \<^verbatim>\<open>RING_F_SC_DEQ\<close> the callers see to it that only one thread at a time enqueues or
  dequeues, as the documentation of the flags asks.
\<close>

inductive reached :: "'a rte_ring \<Rightarrow> 'a threads \<Rightarrow> bool" for r where
  new: "reached r (new_ring r)"
| enqueue: "reached r (goto t (E_head beh objs) st)"
    if "reached r st" and "at_rest (pc st t)" and "prod_single r \<Longrightarrow> \<forall>u. \<not> enqueuing (pc st u)"
| dequeue: "reached r (goto t (D_head beh mx) st)"
    if "reached r st" and "at_rest (pc st t)" and "cons_single r \<Longrightarrow> \<forall>u. \<not> dequeuing (pc st u)"
| step: "reached r (thread_step t st)"
    if "reached r st" and "no_lap st"

section \<open>Claims\<close>

text \<open>The places between \<open>lo\<close> and \<open>hi\<close> are shared out among the threads, each place to one thread.\<close>

definition claims :: "nat \<Rightarrow> nat \<Rightarrow> (nat \<Rightarrow> nat set) \<Rightarrow> bool" where
  "claims lo hi cl \<longleftrightarrow> (\<forall>p. (\<exists>t. p \<in> cl t) \<longleftrightarrow> lo \<le> p \<and> p < hi) \<and> (\<forall>t u p. p \<in> cl t \<longrightarrow> p \<in> cl u \<longrightarrow> t = u)"

lemma claimsD:
  assumes "claims lo hi cl" and "p \<in> cl t"
  shows "lo \<le> p" and "p < hi" and "u \<noteq> t \<Longrightarrow> p \<notin> cl u"
  using assms unfolding claims_def by metis+

lemma claims_interval:
  assumes "claims lo hi cl" and "cl t = {v..<v + n}" and "0 < n"
  shows "lo \<le> v" and "v + n \<le> hi"
proof -
  show "lo \<le> v" using claimsD(1) [OF assms(1), of v t] assms(2,3) by simp
  have "v + n - 1 < hi" by (rule claimsD(2) [OF assms(1), of _ t]) (use assms(2,3) in simp)
  then show "v + n \<le> hi" using assms(3) by linarith
qed

lemma claims_grow:
  assumes "claims lo hi cl" and "cl t = {}" and "lo \<le> hi"
  shows "claims lo (hi + n) (cl(t := {hi..<hi + n}))"
  unfolding claims_def
proof (intro conjI allI impI)
  fix p
  have "(\<exists>u. p \<in> (cl(t := {hi..<hi + n})) u) \<longleftrightarrow> (\<exists>u. p \<in> cl u) \<or> hi \<le> p \<and> p < hi + n"
    using assms(2) by (metis atLeastLessThan_iff empty_iff fun_upd_apply)
  also have "\<dots> \<longleftrightarrow> lo \<le> p \<and> p < hi \<or> hi \<le> p \<and> p < hi + n" using assms(1) by (simp add: claims_def)
  also have "\<dots> \<longleftrightarrow> lo \<le> p \<and> p < hi + n" using assms(3) by auto
  finally show "(\<exists>u. p \<in> (cl(t := {hi..<hi + n})) u) \<longleftrightarrow> lo \<le> p \<and> p < hi + n" .
next
  fix t' u p assume "p \<in> (cl(t := {hi..<hi + n})) t'" "p \<in> (cl(t := {hi..<hi + n})) u"
  then show "t' = u"
    using claimsD(2) [OF assms(1), of p] assms(1) unfolding claims_def
    by (cases "t' = t"; cases "u = t") (fastforce dest: claimsD(2) [OF assms(1)] simp: not_less)+
qed

lemma claims_shrink:
  assumes "claims lo hi cl" and "cl t = {lo..<lo + n}"
  shows "claims (lo + n) hi (cl(t := {}))"
  unfolding claims_def
proof (intro conjI allI impI)
  fix p
  have "(\<exists>u. p \<in> (cl(t := {})) u) \<longleftrightarrow> (\<exists>u. p \<in> cl u) \<and> \<not> (lo \<le> p \<and> p < lo + n)"
    using assms by (metis atLeastLessThan_iff claimsD(3) empty_iff fun_upd_apply)
  also have "\<dots> \<longleftrightarrow> (lo \<le> p \<and> p < hi) \<and> \<not> (lo \<le> p \<and> p < lo + n)" using assms(1) by (simp add: claims_def)
  finally show "(\<exists>u. p \<in> (cl(t := {})) u) \<longleftrightarrow> lo + n \<le> p \<and> p < hi" by auto
next
  fix t' u p assume "p \<in> (cl(t := {})) t'" "p \<in> (cl(t := {})) u"
  then show "t' = u" using assms(1) unfolding claims_def by (metis empty_iff fun_upd_apply)
qed

section \<open>The invariant\<close>

definition geometry :: "nat \<Rightarrow> 'a rte_ring \<Rightarrow> bool" where
  "geometry k r \<longleftrightarrow> k < 32 \<and> rsize r = 2 ^ k \<and> rmask r = rsize r - 1 \<and> length (slots r) = 2 ^ k \<and>
     unat (rcapacity r) < 2 ^ k"

definition counters :: "'a threads \<Rightarrow> bool" where
  "counters st \<longleftrightarrow> prod_head (ring st) = of_nat (claimed_in st) \<and> prod_tail (ring st) = of_nat (length (put_in st)) \<and>
     cons_head (ring st) = of_nat (claimed_out st) \<and> cons_tail (ring st) = of_nat (length (taken_out st))"

definition ordered :: "'a threads \<Rightarrow> bool" where
  "ordered st \<longleftrightarrow> length (taken_out st) \<le> claimed_out st \<and> claimed_out st \<le> length (put_in st) \<and>
     length (put_in st) \<le> claimed_in st \<and> claimed_in st \<le> length (taken_out st) + unat (rcapacity (ring st))"

text \<open>The slots from place \<open>p\<close> on hold \<open>xs\<close>.\<close>

definition holds :: "'a rte_ring \<Rightarrow> nat \<Rightarrow> 'a list \<Rightarrow> bool" where
  "holds r p xs \<longleftrightarrow> (\<forall>j < length xs. slots r ! ((p + j) mod length (slots r)) = xs ! j)"

definition claim_in :: "nat \<Rightarrow> 'a pc \<Rightarrow> nat set" where
  "claim_in v c = (case c of E_copy _ _ n _ \<Rightarrow> {v..<v + unat n} | E_wait _ _ n \<Rightarrow> {v..<v + unat n} | _ \<Rightarrow> {})"

definition claim_out :: "nat \<Rightarrow> 'a pc \<Rightarrow> nat set" where
  "claim_out v c = (case c of D_copy _ n _ \<Rightarrow> {v..<v + unat n} | D_wait _ n _ \<Rightarrow> {v..<v + unat n} | _ \<Rightarrow> {})"

text \<open>What the local variables of a thread that loaded the head at count \<open>v\<close> say about the ring.\<close>

fun thread_ok :: "'a threads \<Rightarrow> nat \<Rightarrow> 'a pc \<Rightarrow> bool" where
  "thread_ok st v (E_room beh objs old) \<longleftrightarrow> old = of_nat v \<and> v \<le> claimed_in st \<and>
     (prod_single (ring st) \<longrightarrow> v = claimed_in st)"
| "thread_ok st v (E_cas beh objs old n) \<longleftrightarrow> old = of_nat v \<and> v \<le> claimed_in st \<and>
     (prod_single (ring st) \<longrightarrow> v = claimed_in st) \<and> 0 < unat n \<and> unat n \<le> length objs \<and>
     v + unat n \<le> length (taken_out st) + unat (rcapacity (ring st))"
| "thread_ok st v (E_copy objs old n i) \<longleftrightarrow> old = of_nat v \<and> 0 < unat n \<and> unat n \<le> length objs \<and> i \<le> unat n \<and>
     holds (ring st) v (take i objs)"
| "thread_ok st v (E_wait objs old n) \<longleftrightarrow> old = of_nat v \<and> 0 < unat n \<and> unat n \<le> length objs \<and>
     holds (ring st) v (take (unat n) objs)"
| "thread_ok st v (D_room beh mx old) \<longleftrightarrow> old = of_nat v \<and> v \<le> claimed_out st \<and>
     (cons_single (ring st) \<longrightarrow> v = claimed_out st)"
| "thread_ok st v (D_cas beh mx old n) \<longleftrightarrow> old = of_nat v \<and> v \<le> claimed_out st \<and>
     (cons_single (ring st) \<longrightarrow> v = claimed_out st) \<and> 0 < unat n \<and> v + unat n \<le> length (put_in st)"
| "thread_ok st v (D_copy old n got) \<longleftrightarrow> old = of_nat v \<and> 0 < unat n \<and> length got \<le> unat n \<and>
     prefix got (drop v (put_in st))"
| "thread_ok st v (D_wait old n got) \<longleftrightarrow> old = of_nat v \<and> 0 < unat n \<and> length got = unat n \<and>
     prefix got (drop v (put_in st))"
| "thread_ok st v c \<longleftrightarrow> True"

definition alone :: "('a pc \<Rightarrow> bool) \<Rightarrow> 'a threads \<Rightarrow> bool" where
  "alone busy st \<longleftrightarrow> (\<forall>t u. busy (pc st t) \<longrightarrow> busy (pc st u) \<longrightarrow> t = u)"

definition threads_inv :: "nat \<Rightarrow> 'a threads \<Rightarrow> bool" where
  "threads_inv k st \<longleftrightarrow> geometry k (ring st) \<and> counters st \<and> ordered st \<and>
     holds (ring st) (length (taken_out st)) (drop (length (taken_out st)) (put_in st)) \<and>
     prefix (taken_out st) (put_in st) \<and>
     claims (length (put_in st)) (claimed_in st) (\<lambda>t. claim_in (seen st t) (pc st t)) \<and>
     claims (length (taken_out st)) (claimed_out st) (\<lambda>t. claim_out (seen st t) (pc st t)) \<and>
     (prod_single (ring st) \<longrightarrow> alone enqueuing st) \<and> (cons_single (ring st) \<longrightarrow> alone dequeuing st) \<and>
     (\<forall>t. thread_ok st (seen st t) (pc st t))"

section \<open>Counters, places and slots\<close>

lemma of_nat_u32_inj:
  assumes "(of_nat a :: u32) = of_nat b" and "a \<le> b" and "b - a < 2 ^ 32"
  shows "a = b"
proof -
  have "unat (of_nat a :: u32) = unat (of_nat b :: u32)" using assms(1) by simp
  then have "a mod 2 ^ 32 = b mod 2 ^ 32" by (simp only: unat_of_nat) simp
  then have "2 ^ 32 dvd b - a" using mod_eq_dvd_iff_nat [OF assms(2), of "2 ^ 32"] by metis
  then show ?thesis using assms(2,3) nat_dvd_not_less [of "b - a" "2 ^ 32"] by linarith
qed

lemma unat_of_nat_diff: "b \<le> a \<Longrightarrow> unat (of_nat a - of_nat b :: u32) \<le> a - b"
proof -
  assume "b \<le> a"
  then have "(of_nat a - of_nat b :: u32) = of_nat (a - b)" by (simp add: of_nat_diff)
  then show ?thesis by (simp only: unat_of_nat) (rule mod_less_eq_dividend)
qed

lemma burst_le: "unat (burst beh mx avail) \<le> unat avail" "unat (burst beh mx avail) \<le> unat mx"
  by (auto simp: burst_def word_less_nat_alt)

lemma slot_of_place:
  assumes "geometry k r" and "i < 2 ^ k"
  shows "slot_of r (of_nat v) i = (v + i) mod 2 ^ k"
proof -
  have k: "k < 32" "rsize r = 2 ^ k" "rmask r = rsize r - 1" using assms(1) by (simp_all add: geometry_def)
  have sz: "unat (rsize r) = 2 ^ k" unfolding k(2) by (rule unat_power_u32 [OF k(1)])
  have "unat (of_nat v AND rmask r) = unat (of_nat v :: u32) mod 2 ^ k"
    unfolding k(3) by (rule unat_mask_idx [OF k(1,2)])
  also have "\<dots> = v mod 2 ^ 32 mod 2 ^ k" by (simp only: unat_of_nat) simp
  also have "\<dots> = v mod 2 ^ k" using k(1) by (intro mod_mod_cancel le_imp_power_dvd) simp
  finally have idx: "unat (of_nat v AND rmask r) = v mod 2 ^ k" .
  have "(v + i) mod 2 ^ k = (v mod 2 ^ k + i) mod 2 ^ k" by (simp add: mod_add_left_eq)
  also have "\<dots> = (if v mod 2 ^ k + i < 2 ^ k then v mod 2 ^ k + i else v mod 2 ^ k + i - 2 ^ k)"
  proof (cases "v mod 2 ^ k + i < 2 ^ k")
    case False
    have "v mod 2 ^ k + i - 2 ^ k < 2 ^ k" using assms(2) mod_less_divisor [of "2 ^ k" v] by linarith
    then show ?thesis using False by (simp add: le_mod_geq)
  qed simp
  finally show ?thesis by (simp add: slot_of_def idx sz)
qed

lemma place_neq: "p < q \<Longrightarrow> q < p + sz \<Longrightarrow> p mod sz \<noteq> q mod (sz :: nat)"
  using mod_eq_dvd_iff_nat [of p q sz] nat_dvd_not_less [of "q - p" sz] by fastforce

lemma holds_other:
  assumes "holds r p xs" and "length (slots r') = length (slots r)"
    and "\<And>q. p \<le> q \<Longrightarrow> q < p + length xs \<Longrightarrow>
      slots r' ! (q mod length (slots r)) = slots r ! (q mod length (slots r))"
  shows "holds r' p xs"
  using assms by (simp add: holds_def)

lemma holds_append:
  "holds r p (xs @ ys) \<longleftrightarrow> holds r p xs \<and> holds r (p + length xs) ys"
proof
  assume h: "holds r p (xs @ ys)"
  have "slots r ! ((p + length xs + j) mod length (slots r)) = ys ! j" if "j < length ys" for j
    using h that unfolding holds_def by (metis add.assoc length_append nat_add_left_cancel_less nth_append_length_plus)
  moreover have "holds r p xs" using h unfolding holds_def by (metis length_append nth_append trans_less_add1)
  ultimately show "holds r p xs \<and> holds r (p + length xs) ys" by (simp add: holds_def)
next
  assume h: "holds r p xs \<and> holds r (p + length xs) ys"
  have "slots r ! ((p + j) mod length (slots r)) = (xs @ ys) ! j" if "j < length (xs @ ys)" for j
  proof (cases "j < length xs")
    case False
    then have "p + length xs + (j - length xs) = p + j" "j - length xs < length ys" using that by simp_all
    then have "slots r ! ((p + j) mod length (slots r)) = ys ! (j - length xs)" using h unfolding holds_def by metis
    then show ?thesis using False by (simp add: nth_append)
  qed (use h in \<open>simp add: holds_def nth_append\<close>)
  then show "holds r p (xs @ ys)" by (simp add: holds_def)
qed

section \<open>The other threads\<close>

text \<open>
  What a thread knows stays true while others work: the counts grow, its claimed slots are not written,
  and on a ring for a single producer or consumer nobody else moves the head.
\<close>

definition goes_on :: "nat \<Rightarrow> 'a pc \<Rightarrow> 'a threads \<Rightarrow> 'a threads \<Rightarrow> bool" where
  "goes_on v c st st' \<longleftrightarrow>
     prod_single (ring st') = prod_single (ring st) \<and> cons_single (ring st') = cons_single (ring st) \<and>
     rcapacity (ring st') = rcapacity (ring st) \<and> length (slots (ring st')) = length (slots (ring st)) \<and>
     claimed_in st \<le> claimed_in st' \<and> claimed_out st \<le> claimed_out st' \<and>
     (prod_single (ring st) \<and> enqueuing c \<longrightarrow> claimed_in st' = claimed_in st) \<and>
     (cons_single (ring st) \<and> dequeuing c \<longrightarrow> claimed_out st' = claimed_out st) \<and>
     length (taken_out st) \<le> length (taken_out st') \<and> prefix (put_in st) (put_in st') \<and>
     (\<forall>q \<in> claim_in v c. slots (ring st') ! (q mod length (slots (ring st))) = slots (ring st) ! (q mod length (slots (ring st))))"

lemma thread_ok_goes_on:
  assumes "thread_ok st v c" and "goes_on v c st st'"
  shows "thread_ok st' v c"
proof -
  obtain ys where ys: "put_in st' = put_in st @ ys" using assms(2) by (auto simp: goes_on_def prefix_def)
  have kept: "holds (ring st') v xs"
    if "holds (ring st) v xs" and "length xs \<le> unat n" and "claim_in v c = {v..<v + unat n}" for xs and n :: u32
    by (rule holds_other [OF that(1)]) (use assms(2) that(2,3) in \<open>simp_all add: goes_on_def\<close>)
  show ?thesis
  proof (cases c)
    case (E_copy objs old n i)
    then show ?thesis using assms kept [of "take i objs" n] by (simp add: claim_in_def)
  next
    case (E_wait objs old n)
    then show ?thesis using assms kept [of "take (unat n) objs" n] by (simp add: claim_in_def)
  qed (use assms in \<open>auto simp: goes_on_def ys\<close>)
qed

section \<open>The steps keep the invariant\<close>

lemma goto_simps [simp]:
  "ring (goto t c st) = ring st" "claimed_in (goto t c st) = claimed_in st" "claimed_out (goto t c st) = claimed_out st"
  "put_in (goto t c st) = put_in st" "taken_out (goto t c st) = taken_out st" "seen (goto t c st) = seen st"
  "pc (goto t c st) = (pc st)(t := c)"
  by (simp_all add: goto_def)

lemma thread_ok_shared [simp]:
  "thread_ok (goto t c' st) v c = thread_ok st v c" "thread_ok (st\<lparr>seen := f\<rparr>) v c = thread_ok st v c"
  by (cases c; simp)+

lemma alone_goto:
  "alone busy st \<Longrightarrow> busy c \<longrightarrow> busy (pc st t) \<or> (\<forall>u. \<not> busy (pc st u)) \<Longrightarrow> alone busy (goto t c st)"
  unfolding alone_def by (metis fun_upd_apply goto_simps(7))

lemma alone_cong: "pc st' = pc st \<Longrightarrow> alone busy st' = alone busy st"
  by (simp add: alone_def)

text \<open>Steps that do not write to the ring.\<close>

lemma inv_local:
  assumes inv: "threads_inv k st" and ok: "thread_ok st v c"
    and cl: "claim_in v c = claim_in (seen st t) (pc st t)" "claim_out v c = claim_out (seen st t) (pc st t)"
    and e: "prod_single (ring st) \<Longrightarrow> enqueuing c \<Longrightarrow> enqueuing (pc st t) \<or> (\<forall>u. \<not> enqueuing (pc st u))"
    and d: "cons_single (ring st) \<Longrightarrow> dequeuing c \<Longrightarrow> dequeuing (pc st t) \<or> (\<forall>u. \<not> dequeuing (pc st u))"
  shows "threads_inv k (goto t c (st\<lparr>seen := (seen st)(t := v)\<rparr>))"
proof -
  let ?st = "goto t c (st\<lparr>seen := (seen st)(t := v)\<rparr>)"
  have "(\<lambda>u. claim_in (seen ?st u) (pc ?st u)) = (\<lambda>u. claim_in (seen st u) (pc st u))"
    "(\<lambda>u. claim_out (seen ?st u) (pc ?st u)) = (\<lambda>u. claim_out (seen st u) (pc st u))"
    using cl by (simp_all add: fun_eq_iff)
  moreover have "alone enqueuing ?st" if "prod_single (ring st)"
    by (rule alone_goto) (use inv e that in \<open>simp_all add: threads_inv_def alone_def\<close>)
  moreover have "alone dequeuing ?st" if "cons_single (ring st)"
    by (rule alone_goto) (use inv d that in \<open>simp_all add: threads_inv_def alone_def\<close>)
  moreover have "thread_ok ?st (seen ?st u) (pc ?st u)" for u
    using inv ok by (simp add: threads_inv_def)
  ultimately show ?thesis using inv unfolding threads_inv_def counters_def ordered_def by simp
qed

lemma inv_goto:
  assumes "threads_inv k st" and "thread_ok st (seen st t) c"
    and "claim_in (seen st t) c = claim_in (seen st t) (pc st t)" "claim_out (seen st t) c = claim_out (seen st t) (pc st t)"
    and "prod_single (ring st) \<Longrightarrow> enqueuing c \<Longrightarrow> enqueuing (pc st t) \<or> (\<forall>u. \<not> enqueuing (pc st u))"
    and "cons_single (ring st) \<Longrightarrow> dequeuing c \<Longrightarrow> dequeuing (pc st t) \<or> (\<forall>u. \<not> dequeuing (pc st u))"
  shows "threads_inv k (goto t c st)"
  using inv_local [OF assms(1-4)] assms(5,6) by simp

text \<open>Steps that do: the ring, the counts and the claims are given, the other threads go on.\<close>

lemma inv_shared:
  assumes inv: "threads_inv k st" and pc: "pc st' = pc st" "seen st' = seen st"
    and geo: "geometry k (ring st')" "prod_single (ring st') = prod_single (ring st)" "cons_single (ring st') = cons_single (ring st)"
    and shared: "counters st'" "ordered st'"
      "holds (ring st') (length (taken_out st')) (drop (length (taken_out st')) (put_in st'))"
      "prefix (taken_out st') (put_in st')"
    and cl: "claims (length (put_in st')) (claimed_in st') ((\<lambda>u. claim_in (seen st u) (pc st u))(t := claim_in (seen st t) c))"
      "claims (length (taken_out st')) (claimed_out st') ((\<lambda>u. claim_out (seen st u) (pc st u))(t := claim_out (seen st t) c))"
    and busy: "enqueuing c \<longrightarrow> enqueuing (pc st t)" "dequeuing c \<longrightarrow> dequeuing (pc st t)"
    and ok: "thread_ok st' (seen st t) c" and others: "\<And>u. u \<noteq> t \<Longrightarrow> goes_on (seen st u) (pc st u) st st'"
  shows "threads_inv k (goto t c st')"
proof -
  have "(\<lambda>u. claim_in (seen (goto t c st') u) (pc (goto t c st') u)) = (\<lambda>u. claim_in (seen st u) (pc st u))(t := claim_in (seen st t) c)"
    "(\<lambda>u. claim_out (seen (goto t c st') u) (pc (goto t c st') u)) = (\<lambda>u. claim_out (seen st u) (pc st u))(t := claim_out (seen st t) c)"
    by (simp_all add: fun_eq_iff pc)
  moreover have "alone enqueuing (goto t c st')" if "prod_single (ring st)"
    by (rule alone_goto) (use inv busy that in \<open>simp_all add: threads_inv_def pc alone_cong [OF pc(1)]\<close>)
  moreover have "alone dequeuing (goto t c st')" if "cons_single (ring st)"
    by (rule alone_goto) (use inv busy that in \<open>simp_all add: threads_inv_def pc alone_cong [OF pc(1)]\<close>)
  moreover have "thread_ok (goto t c st') (seen st u) (pc (goto t c st') u)" for u
  proof (cases "u = t")
    case False
    have "thread_ok st (seen st u) (pc st u)" using inv by (simp add: threads_inv_def)
    then show ?thesis using thread_ok_goes_on others [OF False] False by (simp add: pc)
  qed (use ok in simp)
  ultimately show ?thesis using geo shared cl unfolding threads_inv_def by (simp add: counters_def ordered_def pc)
qed

text \<open>What the invariant says about one thread.\<close>

lemma threads_invD:
  assumes "threads_inv k st"
  shows "geometry k (ring st)" and "counters st" and "ordered st"
    and "holds (ring st) (length (taken_out st)) (drop (length (taken_out st)) (put_in st))"
    and "prefix (taken_out st) (put_in st)"
    and "claims (length (put_in st)) (claimed_in st) (\<lambda>t. claim_in (seen st t) (pc st t))"
    and "claims (length (taken_out st)) (claimed_out st) (\<lambda>t. claim_out (seen st t) (pc st t))"
    and "prod_single (ring st) \<Longrightarrow> alone enqueuing st" and "cons_single (ring st) \<Longrightarrow> alone dequeuing st"
    and "thread_ok st (seen st t) (pc st t)"
  using assms by (simp_all add: threads_inv_def)

lemma fun_upd_same: "x = f t \<Longrightarrow> f(t := x) = f"
  by (simp add: fun_upd_idem)

lemma other_not_busy: "alone busy st \<Longrightarrow> busy (pc st t) \<Longrightarrow> u \<noteq> t \<Longrightarrow> \<not> busy (pc st u)"
  unfolding alone_def by blast

lemma ordered_out_in: "ordered st \<Longrightarrow> length (taken_out st) \<le> length (put_in st)"
  by (simp add: ordered_def)

text \<open>A thread whose compare-and-set succeeds saw the present head.\<close>

lemma no_lapD:
  assumes "no_lap st"
  shows "case pc st t of E_cas _ _ _ _ \<Rightarrow> claimed_in st - seen st t < 2 ^ 32
    | D_cas _ _ _ _ \<Rightarrow> claimed_out st - seen st t < 2 ^ 32 | _ \<Rightarrow> True"
  using assms [unfolded no_lap_def, rule_format, of t] by (cases "pc st t") simp_all

lemma cas_in:
  assumes "threads_inv k st" and "no_lap st" and "pc st t = E_cas beh objs old n"
    and "prod_single (ring st) \<or> prod_head (ring st) = old"
  shows "seen st t = claimed_in st"
proof -
  note D = threads_invD [OF assms(1)]
  have ok: "old = of_nat (seen st t)" "seen st t \<le> claimed_in st" "prod_single (ring st) \<longrightarrow> seen st t = claimed_in st"
    using D(10) [of t] assms(3) by simp_all
  have "claimed_in st - seen st t < 2 ^ 32" using no_lapD [OF assms(2), of t] assms(3) by simp
  then have "seen st t = claimed_in st" if "prod_head (ring st) = of_nat (seen st t)"
    using that D(2) of_nat_u32_inj [OF _ ok(2)] unfolding counters_def by metis
  then show ?thesis using ok(1,3) assms(4) by blast
qed

lemma cas_out:
  assumes "threads_inv k st" and "no_lap st" and "pc st t = D_cas beh mx old n"
    and "cons_single (ring st) \<or> cons_head (ring st) = old"
  shows "seen st t = claimed_out st"
proof -
  note D = threads_invD [OF assms(1)]
  have ok: "old = of_nat (seen st t)" "seen st t \<le> claimed_out st" "cons_single (ring st) \<longrightarrow> seen st t = claimed_out st"
    using D(10) [of t] assms(3) by simp_all
  have "claimed_out st - seen st t < 2 ^ 32" using no_lapD [OF assms(2), of t] assms(3) by simp
  then have "seen st t = claimed_out st" if "cons_head (ring st) = of_nat (seen st t)"
    using that D(2) of_nat_u32_inj [OF _ ok(2)] unfolding counters_def by metis
  then show ?thesis using ok(1,3) assms(4) by blast
qed

lemma inv_E_cas:
  assumes inv: "threads_inv k st" and "no_lap st" and pc: "pc st t = E_cas beh objs old n"
    and "prod_single (ring st) \<or> prod_head (ring st) = old"
  shows "threads_inv k (goto t (E_copy objs old n 0)
    (st\<lparr>ring := (ring st)\<lparr>prod_head := old + n\<rparr>, claimed_in := claimed_in st + unat n\<rparr>))" (is "threads_inv k (goto t ?c ?st)")
proof (rule inv_shared [OF inv])
  note D = threads_invD [OF inv]
  have v: "seen st t = claimed_in st" by (rule cas_in [OF assms])
  have ok: "old = of_nat (claimed_in st)" "0 < unat n" "unat n \<le> length objs"
      "claimed_in st + unat n \<le> length (taken_out st) + unat (rcapacity (ring st))"
    using D(10) [of t] pc v by simp_all
  have le: "length (put_in st) \<le> claimed_in st" using D(3) by (simp add: ordered_def)
  show "geometry k (ring ?st)" using D(1) by (simp add: geometry_def)
  show "counters ?st" using D(2) ok(1) by (simp add: counters_def)
  show "ordered ?st" using D(3) ok(4) by (simp add: ordered_def)
  show "holds (ring ?st) (length (taken_out ?st)) (drop (length (taken_out ?st)) (put_in ?st))"
    using D(4) by (simp add: holds_def)
  show "claims (length (put_in ?st)) (claimed_in ?st) ((\<lambda>u. claim_in (seen st u) (pc st u))(t := claim_in (seen st t) ?c))"
    using claims_grow [OF D(6) _ le, of t "unat n"] by (simp add: claim_in_def pc v)
  show "claims (length (taken_out ?st)) (claimed_out ?st) ((\<lambda>u. claim_out (seen st u) (pc st u))(t := claim_out (seen st t) ?c))"
    using D(7) by (subst fun_upd_same) (simp_all add: claim_out_def pc)
  show "thread_ok ?st (seen st t) ?c" using ok v by (simp add: holds_def)
  show "goes_on (seen st u) (pc st u) st ?st" if "u \<noteq> t" for u
    using other_not_busy [OF D(8) _ that] pc by (auto simp: goes_on_def)
qed (use threads_invD(5) [OF inv] pc in simp_all)

lemma inv_D_cas:
  assumes inv: "threads_inv k st" and "no_lap st" and pc: "pc st t = D_cas beh mx old n"
    and "cons_single (ring st) \<or> cons_head (ring st) = old"
  shows "threads_inv k (goto t (D_copy old n [])
    (st\<lparr>ring := (ring st)\<lparr>cons_head := old + n\<rparr>, claimed_out := claimed_out st + unat n\<rparr>))" (is "threads_inv k (goto t ?c ?st)")
proof (rule inv_shared [OF inv])
  note D = threads_invD [OF inv]
  have v: "seen st t = claimed_out st" by (rule cas_out [OF assms])
  have ok: "old = of_nat (claimed_out st)" "0 < unat n" "claimed_out st + unat n \<le> length (put_in st)"
    using D(10) [of t] pc v by simp_all
  have le: "length (taken_out st) \<le> claimed_out st" using D(3) by (simp add: ordered_def)
  show "geometry k (ring ?st)" using D(1) by (simp add: geometry_def)
  show "counters ?st" using D(2) ok(1) by (simp add: counters_def)
  show "ordered ?st" using D(3) ok(3) by (simp add: ordered_def)
  show "holds (ring ?st) (length (taken_out ?st)) (drop (length (taken_out ?st)) (put_in ?st))"
    using D(4) by (simp add: holds_def)
  show "claims (length (taken_out ?st)) (claimed_out ?st) ((\<lambda>u. claim_out (seen st u) (pc st u))(t := claim_out (seen st t) ?c))"
    using claims_grow [OF D(7) _ le, of t "unat n"] by (simp add: claim_out_def pc v)
  show "claims (length (put_in ?st)) (claimed_in ?st) ((\<lambda>u. claim_in (seen st u) (pc st u))(t := claim_in (seen st t) ?c))"
    using D(6) by (subst fun_upd_same) (simp_all add: claim_in_def pc)
  show "thread_ok ?st (seen st t) ?c" using ok v by simp
  show "goes_on (seen st u) (pc st u) st ?st" if "u \<noteq> t" for u
    using other_not_busy [OF D(9) _ that] pc by (auto simp: goes_on_def)
qed (use threads_invD(5) [OF inv] pc in simp_all)

text \<open>Different places between the two ends have different slots.\<close>

lemma window:
  assumes "threads_inv k st" and "p \<noteq> q" and "length (taken_out st) \<le> p" "p < claimed_in st"
    and "length (taken_out st) \<le> q" "q < claimed_in st"
  shows "p mod 2 ^ k \<noteq> q mod 2 ^ k"
proof -
  have "claimed_in st < length (taken_out st) + 2 ^ k"
    using threads_invD(1,3) [OF assms(1)] by (simp add: geometry_def ordered_def)
  then show ?thesis using place_neq [of p q "2 ^ k"] place_neq [of q p "2 ^ k"] assms(2-) by (cases "p < q") linarith+
qed

lemma inv_E_copy:
  assumes inv: "threads_inv k st" and pc: "pc st t = E_copy objs old n i" and i: "i < unat n"
  shows "threads_inv k (goto t (E_copy objs old n (i + 1))
    (st\<lparr>ring := (ring st)\<lparr>slots := (slots (ring st))[slot_of (ring st) old i := objs ! i]\<rparr>\<rparr>))" (is "threads_inv k (goto t ?c ?st)")
proof (rule inv_shared [OF inv])
  note D = threads_invD [OF inv]
  let ?v = "seen st t"
  have ok: "old = of_nat ?v" "0 < unat n" "unat n \<le> length objs" "holds (ring st) ?v (take i objs)"
    using D(10) [of t] pc by simp_all
  have len: "length (slots (ring st)) = 2 ^ k" using D(1) by (simp add: geometry_def)
  have cl: "claim_in ?v (pc st t) = {?v..<?v + unat n}" by (simp add: claim_in_def pc)
  have q: "length (put_in st) \<le> ?v" "?v + unat n \<le> claimed_in st" using claims_interval [OF D(6) cl ok(2)] by simp_all
  have out: "length (taken_out st) \<le> length (put_in st)" using ordered_out_in [OF D(3)] .
  have "i < 2 ^ k" using q out i D(1,3) by (simp add: geometry_def ordered_def)
  then have slot: "slot_of (ring st) old i = (?v + i) mod 2 ^ k" using slot_of_place [OF D(1)] ok(1) by simp
  have other: "slots (ring ?st) ! (p mod 2 ^ k) = slots (ring st) ! (p mod 2 ^ k)"
    if "p \<noteq> ?v + i" "length (taken_out st) \<le> p" "p < claimed_in st" for p
    using window [OF inv that(1) that(2,3)] q out i by (simp add: slot)
  have keep: "holds (ring ?st) p xs" if "holds (ring st) p xs"
      "\<And>q. p \<le> q \<Longrightarrow> q < p + length xs \<Longrightarrow> q \<noteq> ?v + i \<and> length (taken_out st) \<le> q \<and> q < claimed_in st" for p xs
    by (rule holds_other [OF that(1)]) (use len other that(2) in simp_all)
  show "geometry k (ring ?st)" using D(1) by (simp add: geometry_def)
  show "counters ?st" using D(2) by (simp add: counters_def)
  show "ordered ?st" using D(3) by (simp add: ordered_def)
  show "holds (ring ?st) (length (taken_out ?st)) (drop (length (taken_out ?st)) (put_in ?st))"
    using keep [OF D(4)] q out i by (simp add: less_diff_conv)
  show "claims (length (put_in ?st)) (claimed_in ?st) ((\<lambda>u. claim_in (seen st u) (pc st u))(t := claim_in (seen st t) ?c))"
    using D(6) by (subst fun_upd_same) (simp_all add: claim_in_def pc)
  show "claims (length (taken_out ?st)) (claimed_out ?st) ((\<lambda>u. claim_out (seen st u) (pc st u))(t := claim_out (seen st t) ?c))"
    using D(7) by (subst fun_upd_same) (simp_all add: claim_out_def pc)
  have "holds (ring ?st) ?v (take i objs)" by (rule keep [OF ok(4)]) (use q out i ok(3) in simp)
  moreover have "holds (ring ?st) (?v + i) [objs ! i]" by (simp add: holds_def len slot)
  ultimately have "holds (ring ?st) ?v (take i objs @ [objs ! i])" using i ok(3) by (simp add: holds_append)
  then show "thread_ok ?st ?v ?c" using ok i by (simp add: take_Suc_conv_app_nth)
  show "goes_on (seen st u) (pc st u) st ?st" if "u \<noteq> t" for u
  proof -
    have "p \<noteq> ?v + i" if "p \<in> claim_in (seen st u) (pc st u)" for p
      using claimsD(3) [OF D(6) that, of t] \<open>u \<noteq> t\<close> cl i by auto
    moreover have "length (taken_out st) \<le> p" "p < claimed_in st" if "p \<in> claim_in (seen st u) (pc st u)" for p
      using claimsD(1,2) [OF D(6) that] out by linarith+
    ultimately show ?thesis using other by (simp add: goes_on_def len)
  qed
qed (use threads_invD(5) [OF inv] pc in simp_all)

text \<open>A thread that is let through at the tail holds the oldest claim.\<close>

lemma claims_oldest:
  assumes cl: "claims lo hi cl" "cl t = {v..<v + n}" "0 < n" and "hi \<le> lo + unat (c :: u32)"
    and turn: "(\<forall>u. u \<noteq> t \<longrightarrow> cl u = {}) \<or> (of_nat lo :: u32) = of_nat v"
  shows "v = lo"
  using turn
proof
  note iv = claims_interval [OF cl]
  assume only: "\<forall>u. u \<noteq> t \<longrightarrow> cl u = {}"
  have "lo < hi" using iv cl(3) by linarith
  then obtain u where "lo \<in> cl u" using cl(1) unfolding claims_def by (metis order_refl)
  then have "lo \<in> cl t" using only by (cases "u = t") auto
  then show ?thesis using cl(2) iv(1) by simp
next
  note iv = claims_interval [OF cl]
  assume "(of_nat lo :: u32) = of_nat v"
  moreover have "v - lo < 2 ^ 32" using iv cl(3) assms(4) unat_u32 [of c] by linarith
  ultimately show ?thesis using of_nat_u32_inj iv(1) by metis
qed

lemma not_busy_no_claim:
  "\<not> enqueuing c \<Longrightarrow> claim_in v c = {}" "\<not> dequeuing c \<Longrightarrow> claim_out v c = {}"
  by (cases c; simp add: claim_in_def claim_out_def)+

lemma turn_in:
  assumes "threads_inv k st" and pc: "pc st t = E_wait objs old n"
    and "prod_single (ring st) \<or> prod_tail (ring st) = old"
  shows "seen st t = length (put_in st)"
proof -
  note D = threads_invD [OF assms(1)]
  have ok: "old = of_nat (seen st t)" "0 < unat n" using D(10) [of t] pc by simp_all
  show ?thesis
  proof (rule claims_oldest [OF D(6) _ ok(2)])
    show "claim_in (seen st t) (pc st t) = {seen st t..<seen st t + unat n}" by (simp add: claim_in_def pc)
    show "claimed_in st \<le> length (put_in st) + unat (rcapacity (ring st))" using D(3) by (simp add: ordered_def)
    show "(\<forall>u. u \<noteq> t \<longrightarrow> claim_in (seen st u) (pc st u) = {}) \<or> (of_nat (length (put_in st)) :: u32) = of_nat (seen st t)"
      using assms(3) other_not_busy [OF D(8), of t] not_busy_no_claim(1) D(2) ok(1) pc unfolding counters_def
      by (metis enqueuing.simps(5))
  qed
qed

lemma turn_out:
  assumes "threads_inv k st" and pc: "pc st t = D_wait old n got"
    and "cons_single (ring st) \<or> cons_tail (ring st) = old"
  shows "seen st t = length (taken_out st)"
proof -
  note D = threads_invD [OF assms(1)]
  have ok: "old = of_nat (seen st t)" "0 < unat n" using D(10) [of t] pc by simp_all
  show ?thesis
  proof (rule claims_oldest [OF D(7) _ ok(2)])
    show "claim_out (seen st t) (pc st t) = {seen st t..<seen st t + unat n}" by (simp add: claim_out_def pc)
    show "claimed_out st \<le> length (taken_out st) + unat (rcapacity (ring st))" using D(3) by (simp add: ordered_def)
    show "(\<forall>u. u \<noteq> t \<longrightarrow> claim_out (seen st u) (pc st u) = {}) \<or> (of_nat (length (taken_out st)) :: u32) = of_nat (seen st t)"
      using assms(3) other_not_busy [OF D(9), of t] not_busy_no_claim(2) D(2) ok(1) pc unfolding counters_def
      by (metis dequeuing.simps(5))
  qed
qed

lemma inv_E_wait:
  assumes inv: "threads_inv k st" and pc: "pc st t = E_wait objs old n"
    and turn: "prod_single (ring st) \<or> prod_tail (ring st) = old"
  shows "threads_inv k (goto t (E_ret n)
    (st\<lparr>ring := (ring st)\<lparr>prod_tail := old + n\<rparr>, put_in := put_in st @ take (unat n) objs\<rparr>))" (is "threads_inv k (goto t ?c ?st)")
proof (rule inv_shared [OF inv])
  note D = threads_invD [OF inv]
  have v: "seen st t = length (put_in st)" by (rule turn_in [OF inv pc turn])
  have ok: "old = of_nat (length (put_in st))" "0 < unat n" "unat n \<le> length objs"
      "holds (ring st) (length (put_in st)) (take (unat n) objs)"
    using D(10) [of t] pc v by simp_all
  have cl: "claim_in (seen st t) (pc st t) = {length (put_in st)..<length (put_in st) + unat n}" by (simp add: claim_in_def pc v)
  have top: "length (put_in st) + unat n \<le> claimed_in st" by (rule claims_interval(2) [OF D(6) cl ok(2)])
  have out: "length (taken_out st) \<le> length (put_in st)" using ordered_out_in [OF D(3)] .
  show "geometry k (ring ?st)" using D(1) by (simp add: geometry_def)
  show "counters ?st" using D(2) ok(1,3) by (simp add: counters_def min_absorb2)
  show "ordered ?st" using D(3) top ok(3) by (simp add: ordered_def)
  have "holds (ring st) (length (taken_out st)) (drop (length (taken_out st)) (put_in st) @ take (unat n) objs)"
    using D(4) ok(4) out by (simp add: holds_append)
  then show "holds (ring ?st) (length (taken_out ?st)) (drop (length (taken_out ?st)) (put_in ?st))"
    using out by (simp add: holds_def)
  show "prefix (taken_out ?st) (put_in ?st)" using D(5) by simp
  show "claims (length (put_in ?st)) (claimed_in ?st) ((\<lambda>u. claim_in (seen st u) (pc st u))(t := claim_in (seen st t) ?c))"
    using claims_shrink [OF D(6) cl] ok(3) by (simp add: claim_in_def min_absorb2)
  show "claims (length (taken_out ?st)) (claimed_out ?st) ((\<lambda>u. claim_out (seen st u) (pc st u))(t := claim_out (seen st t) ?c))"
    using D(7) by (subst fun_upd_same) (simp_all add: claim_out_def pc)
  show "goes_on (seen st u) (pc st u) st ?st" if "u \<noteq> t" for u by (simp add: goes_on_def)
qed (use pc in simp_all)

lemma inv_D_wait:
  assumes inv: "threads_inv k st" and pc: "pc st t = D_wait old n got"
    and turn: "cons_single (ring st) \<or> cons_tail (ring st) = old"
  shows "threads_inv k (goto t (D_ret n got)
    (st\<lparr>ring := (ring st)\<lparr>cons_tail := old + n\<rparr>, taken_out := taken_out st @ got\<rparr>))" (is "threads_inv k (goto t ?c ?st)")
proof (rule inv_shared [OF inv])
  note D = threads_invD [OF inv]
  have v: "seen st t = length (taken_out st)" by (rule turn_out [OF inv pc turn])
  have ok: "old = of_nat (length (taken_out st))" "0 < unat n" "length got = unat n"
      "prefix got (drop (length (taken_out st)) (put_in st))"
    using D(10) [of t] pc v by simp_all
  have cl: "claim_out (seen st t) (pc st t) = {length (taken_out st)..<length (taken_out st) + unat n}" by (simp add: claim_out_def pc v)
  have top: "length (taken_out st) + unat n \<le> claimed_out st" by (rule claims_interval(2) [OF D(7) cl ok(2)])
  obtain zs where zs: "put_in st = taken_out st @ zs" using D(5) by (auto simp: prefix_def)
  obtain ws where ws: "zs = got @ ws" using ok(4) zs by (auto simp: prefix_def)
  show "geometry k (ring ?st)" using D(1) by (simp add: geometry_def)
  show "counters ?st" using D(2) ok(1,3) by (simp add: counters_def)
  show "ordered ?st" using D(3) top ok(3) by (simp add: ordered_def)
  have "holds (ring st) (length (taken_out st) + length got) ws" using D(4) by (simp add: zs ws holds_append)
  then show "holds (ring ?st) (length (taken_out ?st)) (drop (length (taken_out ?st)) (put_in ?st))"
    by (simp add: holds_def zs ws)
  show "prefix (taken_out ?st) (put_in ?st)" by (simp add: zs ws)
  show "claims (length (taken_out ?st)) (claimed_out ?st) ((\<lambda>u. claim_out (seen st u) (pc st u))(t := claim_out (seen st t) ?c))"
    using claims_shrink [OF D(7) cl] ok(3) by (simp add: claim_out_def)
  show "claims (length (put_in ?st)) (claimed_in ?st) ((\<lambda>u. claim_in (seen st u) (pc st u))(t := claim_in (seen st t) ?c))"
    using D(6) by (subst fun_upd_same) (simp_all add: claim_in_def pc)
  show "goes_on (seen st u) (pc st u) st ?st" if "u \<noteq> t" for u by (simp add: goes_on_def)
qed (use pc in simp_all)

text \<open>The loads.\<close>

lemma room_in:
  assumes inv: "threads_inv k st" and pc: "pc st t = E_room beh objs old"
    and n: "n = burst beh (of_nat (length objs)) (rcapacity (ring st) + cons_tail (ring st) - old)" "n \<noteq> 0"
  shows "thread_ok st (seen st t) (E_cas beh objs old n)"
proof -
  note D = threads_invD [OF inv]
  have ok: "old = of_nat (seen st t)" "seen st t \<le> claimed_in st" "prod_single (ring st) \<longrightarrow> seen st t = claimed_in st"
    using D(10) [of t] pc by simp_all
  let ?top = "unat (rcapacity (ring st)) + length (taken_out st)"
  have le: "seen st t \<le> ?top" using ok(2) D(3) by (simp add: ordered_def)
  have "rcapacity (ring st) + cons_tail (ring st) = of_nat ?top" using D(2) by (simp add: counters_def)
  then have "unat n \<le> ?top - seen st t"
    using le_trans [OF burst_le(1) unat_of_nat_diff [OF le]] by (simp only: n(1) ok(1))
  moreover have "unat n \<le> length objs"
    using le_trans [OF burst_le(2) unat_of_nat_diff [of 0 "length objs"]] by (simp add: n(1))
  moreover have "0 < unat n" using n(2) by (simp add: unat_gt_0)
  ultimately show ?thesis using ok le by simp
qed

lemma room_out:
  assumes inv: "threads_inv k st" and pc: "pc st t = D_room beh mx old"
    and n: "n = burst beh mx (prod_tail (ring st) - old)" "n \<noteq> 0"
  shows "thread_ok st (seen st t) (D_cas beh mx old n)"
proof -
  note D = threads_invD [OF inv]
  have ok: "old = of_nat (seen st t)" "seen st t \<le> claimed_out st" "cons_single (ring st) \<longrightarrow> seen st t = claimed_out st"
    using D(10) [of t] pc by simp_all
  have le: "seen st t \<le> length (put_in st)" using ok(2) D(3) by (simp add: ordered_def)
  have "prod_tail (ring st) = of_nat (length (put_in st))" using D(2) by (simp add: counters_def)
  then have "unat n \<le> length (put_in st) - seen st t"
    using le_trans [OF burst_le(1) unat_of_nat_diff [OF le]] by (simp only: n(1) ok(1))
  moreover have "0 < unat n" using n(2) by (simp add: unat_gt_0)
  ultimately show ?thesis using ok le by simp
qed

lemma read_out:
  assumes inv: "threads_inv k st" and pc: "pc st t = D_copy old n got" and "length got < unat n"
  shows "prefix (got @ [slots (ring st) ! slot_of (ring st) old (length got)]) (drop (seen st t) (put_in st))"
proof -
  note D = threads_invD [OF inv]
  let ?v = "seen st t" and ?m = "length (taken_out st)"
  have ok: "old = of_nat ?v" "0 < unat n" "prefix got (drop ?v (put_in st))" using D(10) [of t] pc by simp_all
  have cl: "claim_out ?v (pc st t) = {?v..<?v + unat n}" by (simp add: claim_out_def pc)
  note iv = claims_interval [OF D(7) cl ok(2)]
  have len: "length (slots (ring st)) = 2 ^ k" using D(1) by (simp add: geometry_def)
  have le: "?v + unat n \<le> length (put_in st)" using iv D(3) by (simp add: ordered_def)
  have "length got < 2 ^ k" using iv assms(3) D(1,3) by (simp add: geometry_def ordered_def)
  then have "slot_of (ring st) old (length got) = (?v + length got) mod 2 ^ k" using slot_of_place [OF D(1)] ok(1) by simp
  moreover have "slots (ring st) ! (p mod 2 ^ k) = put_in st ! p" if "?m \<le> p" "p < length (put_in st)" for p
    using D(4) [unfolded holds_def len, rule_format, of "p - ?m"] that by simp
  ultimately have "slots (ring st) ! slot_of (ring st) old (length got) = drop ?v (put_in st) ! length got"
    using iv le assms(3) by simp
  then show ?thesis using append_one_prefix [OF ok(3)] le assms(3) by simp
qed

lemma thread_step_inv:
  assumes inv: "threads_inv k st" and lap: "no_lap st"
  shows "threads_inv k (thread_step t st)"
proof -
  note D = threads_invD [OF inv] and go = inv_goto [OF inv, of t]
  note cl = claim_in_def claim_out_def
  have ok: "thread_ok st (seen st t) (pc st t)" by (rule D(10))
  show ?thesis
  proof (cases "pc st t")
    case (E_head beh objs)
    show ?thesis using inv_local [OF inv, of "claimed_in st" "E_room beh objs (prod_head (ring st))" t] D(2)
      by (simp add: step_defs E_head cl counters_def)
  next
    case (E_room beh objs old)
    show ?thesis unfolding step_defs E_room pc.case enqueuing.simps if_True
      by (rule go) (use room_in [OF inv E_room refl] in \<open>simp_all add: cl E_room split: if_splits\<close>)
  next
    case (E_cas beh objs old n)
    have "threads_inv k (goto t (E_head beh objs) st)" by (rule go) (simp_all add: cl E_cas)
    then show ?thesis using inv_E_cas [OF inv lap E_cas] by (simp add: step_defs E_cas)
  next
    case (E_copy objs old n i)
    have "threads_inv k (goto t (E_wait objs old n) st)" if "\<not> i < unat n"
      by (rule go) (use ok that in \<open>auto simp: cl E_copy\<close>)
    then show ?thesis using inv_E_copy [OF inv E_copy] by (simp add: step_defs E_copy)
  next
    case (E_wait objs old n)
    show ?thesis using inv inv_E_wait [OF inv E_wait] by (simp add: step_defs E_wait)
  next
    case (D_head beh mx)
    show ?thesis using inv_local [OF inv, of "claimed_out st" "D_room beh mx (cons_head (ring st))" t] D(2)
      by (simp add: step_defs D_head cl counters_def)
  next
    case (D_room beh mx old)
    show ?thesis unfolding step_defs D_room pc.case enqueuing.simps if_False
      by (rule go) (use room_out [OF inv D_room refl] in \<open>simp_all add: cl D_room split: if_splits\<close>)
  next
    case (D_cas beh mx old n)
    have "threads_inv k (goto t (D_head beh mx) st)" by (rule go) (simp_all add: cl D_cas)
    then show ?thesis using inv_D_cas [OF inv lap D_cas] by (simp add: step_defs D_cas)
  next
    case (D_copy old n got)
    show ?thesis
    proof (cases "length got < unat n")
      case True
      have "threads_inv k (goto t (D_copy old n (got @ [slots (ring st) ! slot_of (ring st) old (length got)])) st)"
        by (rule go) (use ok True read_out [OF inv D_copy True] in \<open>simp_all add: cl D_copy\<close>)
      then show ?thesis using True by (simp add: step_defs D_copy)
    next
      case False
      have "threads_inv k (goto t (D_wait old n got) st)" by (rule go) (use ok False in \<open>simp_all add: cl D_copy\<close>)
      then show ?thesis using False by (simp add: step_defs D_copy)
    qed
  next
    case (D_wait old n got)
    show ?thesis using inv inv_D_wait [OF inv D_wait] by (simp add: step_defs D_wait)
  qed (use inv in \<open>simp_all add: step_defs\<close>)
qed

lemma thread_step_flags [simp]:
  "prod_single (ring (thread_step t st)) = prod_single (ring st)"
  "cons_single (ring (thread_step t st)) = cons_single (ring st)"
  "rcapacity (ring (thread_step t st)) = rcapacity (ring st)"
  by (simp_all add: step_defs split: pc.split)

lemma claims_none: "claims n n (\<lambda>_. {})"
  by (simp add: claims_def)

lemma at_rest_busy: "at_rest c \<Longrightarrow> claim_in v c = {}" "at_rest c \<Longrightarrow> claim_out v c = {}"
  by (cases c; simp add: claim_in_def claim_out_def)+

lemma new_ring_inv:
  assumes "ring_ok k r" and "prod_head r = 0" "cons_head r = 0"
  shows "threads_inv k (new_ring r)"
  using assms claims_none
  by (simp add: threads_inv_def new_ring_def geometry_def ring_ok_def counters_def ordered_def holds_def alone_def
    claim_in_def claim_out_def)

lemma reached_inv:
  assumes "reached r st" and "threads_inv k (new_ring r)"
  shows "threads_inv k st" and "rcapacity (ring st) = rcapacity r"
    and "prod_single (ring st) = prod_single r" and "cons_single (ring st) = cons_single r"
proof -
  have "threads_inv k st \<and> rcapacity (ring st) = rcapacity r \<and> prod_single (ring st) = prod_single r \<and>
    cons_single (ring st) = cons_single r"
    using assms
  proof (induction rule: reached.induct)
    case new
    then show ?case by (simp add: new_ring_def)
  next
    case (enqueue st t beh objs)
    then show ?case using inv_goto [of k st t "E_head beh objs"] at_rest_busy [of "pc st t"]
      by (simp add: claim_in_def claim_out_def)
  next
    case (dequeue st t beh mx)
    then show ?case using inv_goto [of k st t "D_head beh mx"] at_rest_busy [of "pc st t"]
      by (simp add: claim_in_def claim_out_def)
  next
    case (step st t)
    then show ?case using thread_step_inv [of k st t] by simp
  qed
  then show "threads_inv k st" "rcapacity (ring st) = rcapacity r" "prod_single (ring st) = prod_single r"
    "cons_single (ring st) = cons_single r" by simp_all
qed

section \<open>The oldest claim\<close>

lemma put_alone:
  assumes "pc st t = E_copy objs old n i" and "i \<le> unat n" and "prod_tail (ring st) = old"
  shows "put_in ((thread_step t ^^ (unat n - i + 2)) st) = put_in st @ take (unat n) objs"
  using assms
proof (induction "unat n - i" arbitrary: st i)
  case 0
  then show ?case by (simp add: numeral_2_eq_2 step_defs)
next
  case (Suc m)
  let ?st = "thread_step t st"
  have st: "?st = goto t (E_copy objs old n (i + 1)) (st\<lparr>ring := (ring st)\<lparr>slots := (slots (ring st))[slot_of (ring st) old i := objs ! i]\<rparr>\<rparr>)"
    using Suc.hyps(2) Suc.prems by (simp add: step_defs)
  have "put_in ((thread_step t ^^ (unat n - (i + 1) + 2)) ?st) = put_in ?st @ take (unat n) objs"
    by (rule Suc.hyps(1)) (use Suc.hyps(2) Suc.prems in \<open>simp_all add: st\<close>)
  moreover have "unat n - i + 2 = Suc (unat n - (i + 1) + 2)" using Suc.hyps(2) by simp
  ultimately show ?case by (simp only: funpow_Suc_right o_apply) (simp add: st)
qed

lemma take_alone:
  assumes "pc st t = D_copy old n got" and "length got \<le> unat n" and "cons_tail (ring st) = old"
  shows "length (taken_out ((thread_step t ^^ (unat n - length got + 2)) st)) = length (taken_out st) + unat n"
  using assms
proof (induction "unat n - length got" arbitrary: st got)
  case 0
  then show ?case by (simp add: numeral_2_eq_2 step_defs)
next
  case (Suc m)
  let ?st = "thread_step t st" and ?got = "got @ [slots (ring st) ! slot_of (ring st) old (length got)]"
  have st: "?st = goto t (D_copy old n ?got) st" using Suc.hyps(2) Suc.prems by (simp add: step_defs)
  have "length (taken_out ((thread_step t ^^ (unat n - length ?got + 2)) ?st)) = length (taken_out ?st) + unat n"
    by (rule Suc.hyps(1)) (use Suc.hyps(2) Suc.prems in \<open>simp_all add: st\<close>)
  moreover have "unat n - length got + 2 = Suc (unat n - length ?got + 2)" using Suc.hyps(2) by simp
  ultimately show ?case by (simp only: funpow_Suc_right o_apply) (simp add: st)
qed

lemma oldest_in:
  assumes inv: "threads_inv k st" and "length (put_in st) < claimed_in st"
  shows "\<exists>t m. length (put_in st) < length (put_in ((thread_step t ^^ m) st))"
proof -
  note D = threads_invD [OF inv]
  obtain t where t: "length (put_in st) \<in> claim_in (seen st t) (pc st t)"
    using D(6) assms(2) unfolding claims_def by (metis order_refl)
  have tail: "prod_tail (ring st) = of_nat (length (put_in st))" using D(2) by (simp add: counters_def)
  show ?thesis
  proof (cases "pc st t")
    case (E_copy objs old n i)
    have ok: "old = of_nat (seen st t)" "0 < unat n" "i \<le> unat n" "unat n \<le> length objs" using D(10) [of t] E_copy by simp_all
    have cl: "claim_in (seen st t) (pc st t) = {seen st t..<seen st t + unat n}" by (simp add: claim_in_def E_copy)
    have "seen st t = length (put_in st)" using claims_interval(1) [OF D(6) cl ok(2)] t cl by simp
    then have "prod_tail (ring st) = old" using tail ok(1) by simp
    from put_alone [OF E_copy ok(3) this] ok(2,4)
    have "length (put_in st) < length (put_in ((thread_step t ^^ (unat n - i + 2)) st))" by simp
    then show ?thesis by blast
  next
    case (E_wait objs old n)
    have ok: "old = of_nat (seen st t)" "0 < unat n" "unat n \<le> length objs" using D(10) [of t] E_wait by simp_all
    have cl: "claim_in (seen st t) (pc st t) = {seen st t..<seen st t + unat n}" by (simp add: claim_in_def E_wait)
    have "seen st t = length (put_in st)" using claims_interval(1) [OF D(6) cl ok(2)] t cl by simp
    then have "length (put_in st) < length (put_in ((thread_step t ^^ 1) st))" using tail ok by (simp add: step_defs E_wait)
    then show ?thesis by blast
  qed (use t in \<open>simp_all add: claim_in_def\<close>)
qed

lemma oldest_out:
  assumes inv: "threads_inv k st" and "length (taken_out st) < claimed_out st"
  shows "\<exists>t m. length (taken_out st) < length (taken_out ((thread_step t ^^ m) st))"
proof -
  note D = threads_invD [OF inv]
  obtain t where t: "length (taken_out st) \<in> claim_out (seen st t) (pc st t)"
    using D(7) assms(2) unfolding claims_def by (metis order_refl)
  have tail: "cons_tail (ring st) = of_nat (length (taken_out st))" using D(2) by (simp add: counters_def)
  show ?thesis
  proof (cases "pc st t")
    case (D_copy old n got)
    have ok: "old = of_nat (seen st t)" "0 < unat n" "length got \<le> unat n" using D(10) [of t] D_copy by simp_all
    have cl: "claim_out (seen st t) (pc st t) = {seen st t..<seen st t + unat n}" by (simp add: claim_out_def D_copy)
    have "seen st t = length (taken_out st)" using claims_interval(1) [OF D(7) cl ok(2)] t cl by simp
    then have "cons_tail (ring st) = old" using tail ok(1) by simp
    from take_alone [OF D_copy ok(3) this] ok(2)
    have "length (taken_out st) < length (taken_out ((thread_step t ^^ (unat n - length got + 2)) st))" by simp
    then show ?thesis by blast
  next
    case (D_wait old n got)
    have ok: "old = of_nat (seen st t)" "0 < unat n" "length got = unat n" using D(10) [of t] D_wait by simp_all
    have cl: "claim_out (seen st t) (pc st t) = {seen st t..<seen st t + unat n}" by (simp add: claim_out_def D_wait)
    have "seen st t = length (taken_out st)" using claims_interval(1) [OF D(7) cl ok(2)] t cl by simp
    then have "length (taken_out st) < length (taken_out ((thread_step t ^^ 1) st))" using tail ok by (auto simp: step_defs D_wait)
    then show ?thesis by blast
  qed (use t in \<open>simp_all add: claim_out_def\<close>)
qed

section \<open>Between calls\<close>

lemma rest_contents:
  assumes inv: "threads_inv k st" and rest: "\<forall>t. at_rest (pc st t)"
  shows "put_in st = taken_out st @ contents (ring st)"
proof -
  note D = threads_invD [OF inv]
  let ?m = "length (taken_out st)" and ?n = "length (put_in st)"
  have le: "?m \<le> ?n" "?n \<le> ?m + unat (rcapacity (ring st))" using D(3) by (simp_all add: ordered_def)
  have len: "length (slots (ring st)) = 2 ^ k" "k < 32" using D(1) by (simp_all add: geometry_def)
  have "?n - ?m < 2 ^ 32" using le unat_u32 [of "rcapacity (ring st)"] by linarith
  moreover have "prod_tail (ring st) - cons_tail (ring st) = of_nat (?n - ?m)" using D(2) le(1) by (simp add: counters_def of_nat_diff)
  ultimately have used: "used (ring st) = ?n - ?m" unfolding used_def using unat_of_nat_u32 by simp
  have place: "(unat (cons_tail (ring st)) + j) mod 2 ^ k = (?m + j) mod 2 ^ k" for j
  proof -
    have "unat (cons_tail (ring st)) = ?m mod 2 ^ 32" using D(2) by (simp add: counters_def unat_of_nat)
    then have "unat (cons_tail (ring st)) mod 2 ^ k = ?m mod 2 ^ k"
      using len(2) by (simp only: mod_mod_cancel [OF le_imp_power_dvd] less_imp_le)
    then show ?thesis by (rule mod_add_cong) simp
  qed
  have "contents (ring st) = drop ?m (put_in st)"
  proof (rule nth_equalityI)
    show "contents (ring st) ! j = drop ?m (put_in st) ! j" if "j < length (contents (ring st))" for j
      using D(4) that used by (simp add: contents_def holds_def len place)
  qed (simp add: used)
  then show ?thesis using D(5) by (auto simp: prefix_def)
qed

lemma created_inv:
  assumes "zone_ok zone" and "flags AND RING_F_EXACT_SZ = 0" and "count \<noteq> 0"
    and "rte_ring_create zone zmalloc name count flags = Some r"
  obtains k where "threads_inv k (new_ring r)" and "unat (rcapacity r) = unat count - 1"
proof -
  obtain k where k: "ring_ok k r" "room r = unat count - 1" using rte_ring_create_ok [OF assms] by blast
  have "prod_head r = 0" "cons_head r = 0"
    using assms(4) by (auto simp: rte_ring_create_def rte_ring_init_def Let_def split: if_splits option.splits)
  then show ?thesis using that [of k] new_ring_inv [OF k(1)] k(2) by (simp add: room_def)
qed

lemma no_lap_small: "claimed_in st < 2 ^ 32 \<Longrightarrow> claimed_out st < 2 ^ 32 \<Longrightarrow> no_lap st"
  by (auto simp: no_lap_def split: pc.split)

lemma claimed_mono:
  "claimed_in st \<le> claimed_in (thread_step t st)" "claimed_out st \<le> claimed_out (thread_step t st)"
  by (simp_all add: step_defs split: pc.split)

lemma reached_fold:
  assumes "reached r st" and "claimed_in (fold thread_step ts st) < 2 ^ 32" "claimed_out (fold thread_step ts st) < 2 ^ 32"
  shows "reached r (fold thread_step ts st)"
  using assms(2,3)
proof (induction ts rule: rev_induct)
  case (snoc t ts)
  then have "claimed_in (fold thread_step ts st) < 2 ^ 32" "claimed_out (fold thread_step ts st) < 2 ^ 32"
    using claimed_mono [of "fold thread_step ts st" t] by simp_all
  then show ?case using snoc.IH reached.step [OF _ no_lap_small] by simp
qed (use assms(1) in simp)

section \<open>Properties\<close>

text \<open>
  C35. However the threads interleave, what has been taken out of the ring is, in this order, what was put
  in first: nothing is lost, duplicated, overtaken or read before it is written. The ring never holds more
  than its capacity, and when no call is under way its contents are exactly the objects not yet taken.
\<close>

theorem ring_threads_fifo:
  assumes "zone_ok zone" and "flags AND RING_F_EXACT_SZ = 0" and "count \<noteq> 0"
    and "rte_ring_create zone zmalloc name count flags = Some r" and "reached r st"
  shows "prefix (taken_out st) (put_in st) \<and> length (put_in st) < length (taken_out st) + unat count \<and>
    ((\<forall>t. at_rest (pc st t)) \<longrightarrow> put_in st = taken_out st @ contents (ring st))"
proof -
  obtain k where k: "threads_inv k (new_ring r)" "unat (rcapacity r) = unat count - 1" by (rule created_inv [OF assms(1-4)])
  note inv = reached_inv [OF assms(5) k(1)]
  have "0 < unat count" using assms(3) by (simp add: unat_gt_0)
  then have "length (put_in st) < length (taken_out st) + unat count"
    using threads_invD(3) [OF inv(1)] unfolding ordered_def inv(2) k(2) by linarith
  then show ?thesis using threads_invD(5) [OF inv(1)] rest_contents [OF inv(1)] by blast
qed

text \<open>
  C36. The threads never block each other for good: while an enqueue or a dequeue call has claimed slots and
  not yet moved the tail, there is a thread that moves it in finitely many steps of its own, whatever the
  other threads do not do.
\<close>

theorem ring_threads_progress:
  assumes "zone_ok zone" and "flags AND RING_F_EXACT_SZ = 0" and "count \<noteq> 0"
    and "rte_ring_create zone zmalloc name count flags = Some r" and "reached r st"
  shows "(length (put_in st) < claimed_in st \<longrightarrow>
      (\<exists>t m. length (put_in st) < length (put_in ((thread_step t ^^ m) st)))) \<and>
    (length (taken_out st) < claimed_out st \<longrightarrow>
      (\<exists>t m. length (taken_out st) < length (taken_out ((thread_step t ^^ m) st))))"
proof -
  obtain k where "threads_inv k (new_ring r)" by (rule created_inv [OF assms(1-4)])
  then show ?thesis using reached_inv(1) [OF assms(5)] oldest_in oldest_out by blast
qed

section \<open>Example\<close>

definition rt_zone :: "int \<Rightarrow> nat list option" where
  "rt_zone sz = Some (replicate (nat ((sz - 384 + 7) div 8)) 0)"

definition rt_ring :: "nat rte_ring" where
  "rt_ring = \<lparr>rname = ''r'', rflags = 0, rsize = 4, rmask = 3, rcapacity = 3, prod_head = 0, prod_tail = 0, prod_single = False,
     cons_head = 0, cons_tail = 0, cons_single = False, slots = [0, 0, 0, 0]\<rparr>"

text \<open>Threads 0 and 1 load the head, 1 wins the race; thread 2 dequeues once the tail has moved.\<close>

definition rt_calls :: "nat threads" where
  "rt_calls = goto 2 (D_head QUEUE_VARIABLE 1) (goto 1 (E_head QUEUE_FIXED [8, 9]) (goto 0 (E_head QUEUE_FIXED [7]) (new_ring rt_ring)))"

definition rt_schedule :: "nat list" where
  "rt_schedule = [0, 1, 0, 1, 1, 0, 0, 0, 0, 0, 0, 1, 1, 1, 1, 0, 2, 2, 2, 2, 2, 2]"

lemma rt_zone_ok: "zone_ok rt_zone"
  by (auto simp: zone_ok_def rt_zone_def)

lemma rt_ring_created: "rte_ring_create rt_zone True ''r'' 4 0 = Some rt_ring"
  by code_simp

lemmas rt_eval = rt_calls_def rt_ring_def new_ring_def goto_def step_defs burst_def slot_of_def rt_schedule_def

lemma rt_final:
  "put_in (fold thread_step rt_schedule rt_calls) = [8, 9, 7]" "taken_out (fold thread_step rt_schedule rt_calls) = [8]"
  "claimed_in (fold thread_step rt_schedule rt_calls) = 3" "claimed_out (fold thread_step rt_schedule rt_calls) = 1"
  by (simp_all add: rt_eval)

lemma rt_calls_reached: "reached rt_ring rt_calls"
  unfolding rt_calls_def by (intro reached.intros) (simp_all add: new_ring_def rt_ring_def)

lemma rt_reached: "reached rt_ring (fold thread_step rt_schedule rt_calls)"
  by (rule reached_fold [OF rt_calls_reached]) (simp_all add: rt_final)

theorem ring_threads_fifo_witness:
  "put_in (fold thread_step rt_schedule rt_calls) = [8, 9, 7] \<and> taken_out (fold thread_step rt_schedule rt_calls) = [8] \<and>
   prefix (taken_out (fold thread_step rt_schedule rt_calls)) (put_in (fold thread_step rt_schedule rt_calls)) \<and>
   length (put_in (fold thread_step rt_schedule rt_calls)) < length (taken_out (fold thread_step rt_schedule rt_calls)) + 4"
  using ring_threads_fifo [OF rt_zone_ok _ _ rt_ring_created rt_reached] by (simp add: rt_final)

text \<open>After eleven steps threads 0 and 1 both hold claims and thread 0 waits for thread 1.\<close>

lemma rt_halfway:
  "put_in (fold thread_step (take 11 rt_schedule) rt_calls) = []" "claimed_in (fold thread_step (take 11 rt_schedule) rt_calls) = 3"
  "claimed_out (fold thread_step (take 11 rt_schedule) rt_calls) = 0"
  by (simp_all add: rt_eval)

theorem ring_threads_progress_witness:
  "\<exists>t m. put_in (fold thread_step (take 11 rt_schedule) rt_calls) = [] \<and>
     0 < length (put_in ((thread_step t ^^ m) (fold thread_step (take 11 rt_schedule) rt_calls)))"
proof -
  have "reached rt_ring (fold thread_step (take 11 rt_schedule) rt_calls)"
    by (rule reached_fold [OF rt_calls_reached]) (simp_all add: rt_halfway)
  from ring_threads_progress [OF rt_zone_ok _ _ rt_ring_created this] show ?thesis by (simp add: rt_halfway)
qed
end
