(* ===== verification/Spsc_Queue.thy ===== *)
theory Spsc_Queue
  imports C_Library Fifo
begin

text \<open>
  The queue between one producer and one consumer of \<^verbatim>\<open>lib/spsc-queue/readerwriterqueue.h\<close>, and the pipes of
  \<^verbatim>\<open>pipe.cpp\<close> built on it. The queue is a circle of blocks, each of them a circular buffer with one slot
  left free; a block that is full is followed by the next free block of the circle or by a new one.
  Producer and consumer keep copies of each other's index. Operations run one after the other. A slot that
  holds no object is \<open>None\<close>; reading it, an access outside a block and a failed assertion are undefined.
\<close>

type_synonym size_t = "64 word"

section \<open>Data\<close>

record 'a spsc_block =
  bfront :: size_t
  localTail :: size_t
  btail :: size_t
  localFront :: size_t
  bnext :: ptr
  bdata :: "'a option list"
  sizeMask :: size_t

type_synonym 'a blocks = "addr \<rightharpoonup> 'a spsc_block"

record 'a spsc_queue =
  blocks :: "'a blocks"
  frontBlock :: addr
  tailBlock :: addr
  largestBlockSize :: size_t

definition MAX_BLOCK_SIZE :: size_t where "MAX_BLOCK_SIZE = 512"

section \<open>Creation\<close>

definition ceilToPow2 :: "size_t \<Rightarrow> size_t" where
  "ceilToPow2 x0 =
     (let x1 = x0 - 1;
          x2 = x1 OR drop_bit 1 x1;
          x3 = x2 OR drop_bit 2 x2;
          x4 = x3 OR drop_bit 4 x3;
          x5 = x4 OR drop_bit 8 x4;
          x6 = x5 OR drop_bit 16 x5;
          x7 = x6 OR drop_bit 32 x6
      in x7 + 1)"

text \<open>\<open>malloc h\<close> is the address of a new block when the blocks of \<open>h\<close> are allocated, or \<^verbatim>\<open>nullptr\<close>.\<close>

definition make_block :: "size_t \<Rightarrow> 'a spsc_block" where
  "make_block capacity = \<lparr>bfront = 0, localTail = 0, btail = 0, localFront = 0, bnext = NULL,
     bdata = replicate (unat capacity) None, sizeMask = capacity - 1\<rparr>"

datatype 'a created = Bad_alloc | Created "'a spsc_queue"

text \<open>The loop of the constructor, with \<open>n\<close> blocks still to come; the circle always closes at the first block.\<close>

primrec first_blocks :: "('a blocks \<Rightarrow> ptr) \<Rightarrow> nat \<Rightarrow> ptr \<Rightarrow> ptr \<Rightarrow> 'a blocks \<Rightarrow> (ptr \<times> 'a blocks) option" where
  "first_blocks malloc 0 firstBlock lastBlock h = Some (firstBlock, h)"
| "first_blocks malloc (Suc n) firstBlock lastBlock h =
     (case malloc h of
        None \<Rightarrow> None
      | Some a \<Rightarrow>
          (let h1 = h(a \<mapsto> make_block MAX_BLOCK_SIZE);
               first = (case firstBlock of None \<Rightarrow> a | Some f \<Rightarrow> f);
               h2 = (case lastBlock of None \<Rightarrow> h1 | Some l \<Rightarrow> h1(l := map_option (bnext_update (\<lambda>_. Some a)) (h1 l)));
               h3 = h2(a := map_option (bnext_update (\<lambda>_. Some first)) (h2 a))
           in first_blocks malloc n (Some first) (Some a) h3))"

definition ReaderWriterQueue :: "('a blocks \<Rightarrow> ptr) \<Rightarrow> size_t \<Rightarrow> 'a created option" where
  "ReaderWriterQueue malloc maxSize =
     (if maxSize = 0 then None
      else
        (let largest = ceilToPow2 (maxSize + 1)
         in if largest > MAX_BLOCK_SIZE * 2
            then (let initialBlockCount = (maxSize + MAX_BLOCK_SIZE * 2 - 3) div (MAX_BLOCK_SIZE - 1)
                  in case first_blocks malloc (unat initialBlockCount) NULL NULL Map.empty of
                       Some (Some a, h) \<Rightarrow>
                         Some (Created \<lparr>blocks = h, frontBlock = a, tailBlock = a, largestBlockSize = MAX_BLOCK_SIZE\<rparr>)
                     | Some (None, h) \<Rightarrow> None
                     | None \<Rightarrow> Some Bad_alloc)
            else (case malloc Map.empty of
                    None \<Rightarrow> Some Bad_alloc
                  | Some a \<Rightarrow>
                      Some (Created \<lparr>blocks = [a \<mapsto> (make_block largest)\<lparr>bnext := Some a\<rparr>],
                                     frontBlock = a, tailBlock = a, largestBlockSize = largest\<rparr>))))"

section \<open>Enqueue\<close>

definition store_block :: "addr \<Rightarrow> 'a spsc_block \<Rightarrow> 'a spsc_queue \<Rightarrow> 'a spsc_queue" where
  "store_block a b q = q\<lparr>blocks := (blocks q)(a \<mapsto> b)\<rparr>"

text \<open>The construction of an element at index \<open>i\<close> of a block.\<close>

definition construct :: "size_t \<Rightarrow> 'a \<Rightarrow> 'a spsc_block \<Rightarrow> 'a spsc_block option" where
  "construct i x b = (if unat i < length (bdata b) then Some (b\<lparr>bdata := (bdata b)[unat i := Some x]\<rparr>) else None)"

definition inner_enqueue :: "('a blocks \<Rightarrow> ptr) \<Rightarrow> bool \<Rightarrow> 'a \<Rightarrow> 'a spsc_queue \<Rightarrow> (bool \<times> 'a spsc_queue) option" where
  "inner_enqueue malloc canAlloc x q = do {
     b \<leftarrow> blocks q (tailBlock q);
     let nextBlockTail = (btail b + 1) AND sizeMask b;
     let b1 = (if nextBlockTail \<noteq> localFront b then b else b\<lparr>localFront := bfront b\<rparr>);
     if nextBlockTail \<noteq> localFront b \<or> nextBlockTail \<noteq> bfront b then do {
       b2 \<leftarrow> construct (btail b1) x b1;
       Some (True, store_block (tailBlock q) (b2\<lparr>btail := nextBlockTail\<rparr>) q)
     }
     else do {
       let q1 = store_block (tailBlock q) b1 q;
       if bnext b1 \<noteq> Some (frontBlock q) then do {
         a \<leftarrow> bnext b1;
         c \<leftarrow> blocks q1 a;
         if bfront c \<noteq> btail c then None
         else do {
           c1 \<leftarrow> construct (btail c) x (c\<lparr>localFront := bfront c\<rparr>);
           Some (True, (store_block a (c1\<lparr>btail := (btail c + 1) AND sizeMask c\<rparr>) q1)\<lparr>tailBlock := a\<rparr>)
         }
       }
       else if canAlloc then
         (let newBlockSize = (if largestBlockSize q \<ge> MAX_BLOCK_SIZE then largestBlockSize q else largestBlockSize q * 2)
          in case malloc (blocks q1) of
               None \<Rightarrow> Some (False, q1)
             | Some a \<Rightarrow> do {
                 c \<leftarrow> construct 0 x (make_block newBlockSize);
                 Some (True, (store_block (tailBlock q) (b1\<lparr>bnext := Some a\<rparr>)
                   (store_block a (c\<lparr>btail := 1, localTail := 1, bnext := bnext b1\<rparr>) q1))
                   \<lparr>tailBlock := a, largestBlockSize := newBlockSize\<rparr>)
               })
       else Some (False, q1)
     }
   }"

definition try_enqueue :: "'a \<Rightarrow> 'a spsc_queue \<Rightarrow> (bool \<times> 'a spsc_queue) option" where
  "try_enqueue x q = inner_enqueue (\<lambda>_. NULL) False x q"

definition spsc_enqueue :: "('a blocks \<Rightarrow> ptr) \<Rightarrow> 'a \<Rightarrow> 'a spsc_queue \<Rightarrow> (bool \<times> 'a spsc_queue) option" where
  "spsc_enqueue malloc x q = inner_enqueue malloc True x q"

section \<open>Dequeue\<close>

text \<open>
  The search for the first element, shared by \<^verbatim>\<open>try_dequeue\<close>, \<^verbatim>\<open>pop\<close> and \<^verbatim>\<open>peek\<close>: the block it is in, with the
  copies of the tail brought up to date on the way, or nothing. \<^verbatim>\<open>peek\<close> does not advance to the block. The
  second test of the front block matters only when a producer runs at the same time.
\<close>

definition first_element :: "bool \<Rightarrow> 'a spsc_queue \<Rightarrow> (addr option \<times> 'a spsc_queue) option" where
  "first_element advance q = do {
     b \<leftarrow> blocks q (frontBlock q);
     let b1 = (if bfront b \<noteq> localTail b then b else b\<lparr>localTail := btail b\<rparr>);
     let q1 = store_block (frontBlock q) b1 q;
     if bfront b \<noteq> localTail b \<or> bfront b \<noteq> btail b then Some (Some (frontBlock q), q1)
     else if frontBlock q \<noteq> tailBlock q then do {
       let b2 = b1\<lparr>localTail := btail b1\<rparr>;
       let q2 = store_block (frontBlock q) b2 q1;
       if bfront b2 \<noteq> btail b2 then Some (Some (frontBlock q), q2)
       else do {
         a \<leftarrow> bnext b2;
         c \<leftarrow> blocks q2 a;
         if bfront c = btail c then None
         else Some (Some a, if advance then store_block a (c\<lparr>localTail := btail c\<rparr>) q2 else q2)
       }
     }
     else Some (None, q1)
   }"

text \<open>The removal of the first element of block \<open>a\<close>, which becomes the front block.\<close>

definition take_from :: "addr \<Rightarrow> 'a spsc_queue \<Rightarrow> ('a \<times> 'a spsc_queue) option" where
  "take_from a q = do {
     b \<leftarrow> blocks q a;
     x \<leftarrow> (if unat (bfront b) < length (bdata b) then bdata b ! unat (bfront b) else None);
     Some (x, (store_block a (b\<lparr>bdata := (bdata b)[unat (bfront b) := None], bfront := (bfront b + 1) AND sizeMask b\<rparr>) q)
       \<lparr>frontBlock := a\<rparr>)
   }"

definition try_dequeue :: "'a spsc_queue \<Rightarrow> ('a option \<times> 'a spsc_queue) option" where
  "try_dequeue q = do {
     (p, q1) \<leftarrow> first_element True q;
     case p of
       None \<Rightarrow> Some (None, q1)
     | Some a \<Rightarrow> do { (x, q2) \<leftarrow> take_from a q1; Some (Some x, q2) }
   }"

definition spsc_pop :: "'a spsc_queue \<Rightarrow> (bool \<times> 'a spsc_queue) option" where
  "spsc_pop q = do {
     (p, q1) \<leftarrow> first_element True q;
     case p of
       None \<Rightarrow> Some (False, q1)
     | Some a \<Rightarrow> do { (_, q2) \<leftarrow> take_from a q1; Some (True, q2) }
   }"

definition peek :: "'a spsc_queue \<Rightarrow> ('a option \<times> 'a spsc_queue) option" where
  "peek q = do {
     (p, q1) \<leftarrow> first_element False q;
     case p of
       None \<Rightarrow> Some (None, q1)
     | Some a \<Rightarrow> do {
         b \<leftarrow> blocks q1 a;
         x \<leftarrow> (if unat (bfront b) < length (bdata b) then bdata b ! unat (bfront b) else None);
         Some (Some x, q1)
       }
   }"

section \<open>Size and destruction\<close>

partial_function (option) size_loop :: "'a blocks \<Rightarrow> addr \<Rightarrow> addr \<Rightarrow> size_t \<Rightarrow> size_t option" where
  "size_loop h first a result = do {
     b \<leftarrow> h a;
     let r = result + ((btail b - bfront b) AND sizeMask b);
     n \<leftarrow> bnext b;
     if n \<noteq> first then size_loop h first n r else Some r
   }"

definition size_approx :: "'a spsc_queue \<Rightarrow> size_t option" where
  "size_approx q = size_loop (blocks q) (frontBlock q) (frontBlock q) 0"

text \<open>The elements destroyed and the blocks freed, in this order.\<close>

partial_function (option) destroy_elements :: "'a spsc_block \<Rightarrow> size_t \<Rightarrow> 'a list option" where
  "destroy_elements b i =
     (if i = btail b then Some []
      else do {
        x \<leftarrow> (if unat i < length (bdata b) then bdata b ! unat i else None);
        xs \<leftarrow> destroy_elements b ((i + 1) AND sizeMask b);
        Some (x # xs)
      })"

partial_function (option) destroy_blocks :: "'a blocks \<Rightarrow> addr \<Rightarrow> addr \<Rightarrow> ('a list \<times> addr list \<times> 'a blocks) option" where
  "destroy_blocks h first a = do {
     b \<leftarrow> h a;
     xs \<leftarrow> destroy_elements b (bfront b);
     n \<leftarrow> bnext b;
     let h1 = h(a := None);
     if n \<noteq> first then do { (ys, freed, h2) \<leftarrow> destroy_blocks h1 first n; Some (xs @ ys, a # freed, h2) }
     else Some (xs, [a], h1)
   }"

declare size_loop.simps [code] destroy_elements.simps [code] destroy_blocks.simps [code]

definition delete_queue :: "'a spsc_queue \<Rightarrow> ('a list \<times> addr list \<times> 'a blocks) option" where
  "delete_queue q = destroy_blocks (blocks q) (frontBlock q) (frontBlock q)"

section \<open>Pipes\<close>

text \<open>The pipe functions; \<^verbatim>\<open>pipe_spsc_enqueue\<close> drops the result of the enqueue.\<close>

definition pipe_spsc_new :: "('a blocks \<Rightarrow> ptr) \<Rightarrow> int \<Rightarrow> 'a created option" where
  "pipe_spsc_new malloc capacity = ReaderWriterQueue malloc (word_of_int capacity)"

definition pipe_spsc_delete :: "'a spsc_queue \<Rightarrow> ('a list \<times> addr list \<times> 'a blocks) option" where
  "pipe_spsc_delete q = delete_queue q"

definition pipe_spsc_enqueue :: "('a blocks \<Rightarrow> ptr) \<Rightarrow> 'a \<Rightarrow> 'a spsc_queue \<Rightarrow> 'a spsc_queue option" where
  "pipe_spsc_enqueue malloc x q = map_option snd (spsc_enqueue malloc x q)"

definition pipe_spsc_try_enqueue :: "'a \<Rightarrow> 'a spsc_queue \<Rightarrow> (bool \<times> 'a spsc_queue) option" where
  "pipe_spsc_try_enqueue x q = try_enqueue x q"

definition pipe_spsc_try_dequeue :: "ptr spsc_queue \<Rightarrow> (ptr \<times> ptr spsc_queue) option" where
  "pipe_spsc_try_dequeue q = do {
     (result, q1) \<leftarrow> try_dequeue q;
     Some (case result of Some d \<Rightarrow> d | None \<Rightarrow> NULL, q1)
   }"

definition pipe_spsc_count :: "'a spsc_queue \<Rightarrow> size_t option" where
  "pipe_spsc_count q = size_approx q"

end
