(* ===== verification/Spsc_Laws.thy ===== *)
theory Spsc_Laws
  imports Spsc_Queue
begin

text \<open>
  The queue of \<^verbatim>\<open>readerwriterqueue.h\<close> is an unbounded first-in first-out queue: the invariant of its blocks and
  of the circle they form, what every operation does to the contents, and the contract of a queue.
\<close>

section \<open>Circular indices\<close>

definition cdist :: "nat \<Rightarrow> nat \<Rightarrow> nat \<Rightarrow> nat" where
  "cdist n a b = (if a \<le> b then b - a else b + n - a)"

definition succ_in :: "nat \<Rightarrow> nat \<Rightarrow> nat" where
  "succ_in n i = (if i + 1 = n then 0 else i + 1)"

lemma cdist_less: "a < n \<Longrightarrow> b < n \<Longrightarrow> cdist n a b < n"
  by (auto simp: cdist_def)

lemma cdist_0_iff: "a < n \<Longrightarrow> b < n \<Longrightarrow> cdist n a b = 0 \<longleftrightarrow> a = b"
  by (auto simp: cdist_def)

lemma cdist_self [simp]: "cdist n a a = 0"
  by (simp add: cdist_def)

lemma cdist_succ_right: "a < n \<Longrightarrow> b < n \<Longrightarrow> succ_in n b \<noteq> a \<Longrightarrow> cdist n a (succ_in n b) = cdist n a b + 1"
  by (auto simp: cdist_def succ_in_def split: if_splits)

lemma cdist_succ_left: "a < n \<Longrightarrow> b < n \<Longrightarrow> a \<noteq> b \<Longrightarrow> cdist n a b = cdist n (succ_in n a) b + 1"
  by (auto simp: cdist_def succ_in_def split: if_splits)

lemma cdist_succ_grow: "a < n \<Longrightarrow> b < n \<Longrightarrow> cdist n a b + 1 < n \<Longrightarrow> cdist n a (succ_in n b) = cdist n a b + 1"
  by (auto simp: cdist_def succ_in_def split: if_splits)

lemma succ_in_less: "i < n \<Longrightarrow> succ_in n i < n"
  by (auto simp: succ_in_def)

lemma cdist_full: "a < n \<Longrightarrow> b < n \<Longrightarrow> succ_in n b = a \<longleftrightarrow> cdist n a b = n - 1"
  by (auto simp: cdist_def succ_in_def split: if_splits)

lemma cdist_add: "a < n \<Longrightarrow> b < n \<Longrightarrow> (a + cdist n a b) mod n = b"
  by (auto simp: cdist_def)

lemma mod_succ_in: "i < n \<Longrightarrow> (i + 1) mod n = succ_in n i"
  by (auto simp: succ_in_def)

lemma place_inj:
  assumes "a < n" and "i < n" "j < n" and "(a + i) mod n = (a + j) mod n"
  shows "i = (j :: nat)"
  using assms by (auto simp: mod_if split: if_splits)

section \<open>Blocks\<close>

definition blk_ok :: "'a spsc_block \<Rightarrow> bool" where
  "blk_ok b \<longleftrightarrow> (\<exists>k. 0 < k \<and> k < 64 \<and> sizeMask b = mask k \<and> length (bdata b) = 2 ^ k) \<and>
     (let n = length (bdata b); f = unat (bfront b); t = unat (btail b); lf = unat (localFront b); lt = unat (localTail b)
      in f < n \<and> t < n \<and> lf < n \<and> lt < n \<and> cdist n f lt \<le> cdist n f t \<and> cdist n lf f + cdist n f t < n \<and>
         (\<forall>i < cdist n f t. bdata b ! ((f + i) mod n) \<noteq> None))"

definition elems :: "'a spsc_block \<Rightarrow> 'a list" where
  "elems b = (let n = length (bdata b); f = unat (bfront b)
              in map (\<lambda>i. the (bdata b ! ((f + i) mod n))) [0..<cdist n f (unat (btail b))])"

lemma blk_okD:
  assumes "blk_ok b"
  shows "unat (bfront b) < length (bdata b)" and "unat (btail b) < length (bdata b)"
    and "unat (localFront b) < length (bdata b)" and "unat (localTail b) < length (bdata b)"
    and "cdist (length (bdata b)) (unat (bfront b)) (unat (localTail b)) \<le> cdist (length (bdata b)) (unat (bfront b)) (unat (btail b))"
    and "cdist (length (bdata b)) (unat (localFront b)) (unat (bfront b)) + cdist (length (bdata b)) (unat (bfront b)) (unat (btail b)) < length (bdata b)"
    and "i < cdist (length (bdata b)) (unat (bfront b)) (unat (btail b)) \<Longrightarrow> bdata b ! ((unat (bfront b) + i) mod length (bdata b)) \<noteq> None"
    and "2 \<le> length (bdata b)"
proof -
  obtain k where "0 < k" "length (bdata b) = 2 ^ k" using assms by (auto simp: blk_ok_def)
  then show "2 \<le> length (bdata b)" using power_increasing [of 1 k "2 :: nat"] by simp
qed (use assms in \<open>simp_all add: blk_ok_def Let_def\<close>)

lemma mask_succ:
  assumes "blk_ok b" and "unat i < length (bdata b)"
  shows "unat ((i + 1) AND sizeMask b) = succ_in (length (bdata b)) (unat i)"
proof -
  obtain k where k: "k < 64" "sizeMask b = mask k" "length (bdata b) = 2 ^ k" using assms(1) by (auto simp: blk_ok_def)
  have "(i + 1) AND sizeMask b = take_bit k (i + 1)" by (simp add: k(2) take_bit_eq_mask)
  then have "unat ((i + 1) AND sizeMask b) = take_bit k (unat (i + 1))" by (simp only: unsigned_take_bit_eq)
  also have "\<dots> = unat (i + 1) mod 2 ^ k" by (rule take_bit_eq_mod)
  also have "\<dots> = (unat i + 1) mod 2 ^ 64 mod 2 ^ k" by (simp only: unat_word_ariths) simp
  also have "\<dots> = (unat i + 1) mod 2 ^ k" using k(1) by (intro mod_mod_cancel le_imp_power_dvd) simp
  finally show ?thesis using mod_succ_in [OF assms(2)] by (simp only: k(3))
qed

lemma length_elems: "length (elems b) = cdist (length (bdata b)) (unat (bfront b)) (unat (btail b))"
  by (simp add: elems_def Let_def)

lemma elems_Nil_iff: "blk_ok b \<Longrightarrow> elems b = [] \<longleftrightarrow> bfront b = btail b"
  using length_elems [of b] cdist_0_iff [OF blk_okD(1,2)] by (metis length_0_conv unsigned_word_eqI)

text \<open>The copies of the other side's index err on the safe side.\<close>

lemma localTail_safe: "blk_ok b \<Longrightarrow> bfront b \<noteq> localTail b \<Longrightarrow> bfront b \<noteq> btail b"
  using blk_okD(1,2,4,5) [of b] cdist_0_iff [of "unat (bfront b)" "length (bdata b)" "unat (localTail b)"]
  by (metis cdist_self le_zero_eq unsigned_word_eqI)

lemma localFront_safe:
  assumes "blk_ok b" and "unat nt = succ_in (length (bdata b)) (unat (btail b))" and "nt \<noteq> localFront b"
  shows "nt \<noteq> bfront b" and "cdist (length (bdata b)) (unat (localFront b)) (unat (bfront b)) +
    cdist (length (bdata b)) (unat (bfront b)) (unat (btail b)) + 1 < length (bdata b)"
proof -
  note D = blk_okD [OF assms(1)]
  let ?n = "length (bdata b)" and ?f = "unat (bfront b)" and ?t = "unat (btail b)" and ?lf = "unat (localFront b)"
  have "succ_in ?n ?t \<noteq> ?lf" using assms(2,3) by (metis unsigned_word_eqI)
  then have "cdist ?n ?lf ?t \<noteq> ?n - 1" using cdist_full [OF D(3,2)] by simp
  moreover have "cdist ?n ?lf ?t = cdist ?n ?lf ?f + cdist ?n ?f ?t" using D(1-3,6) by (auto simp: cdist_def split: if_splits)
  ultimately show "cdist ?n ?lf ?f + cdist ?n ?f ?t + 1 < ?n" using D(6) by linarith
  then have "cdist ?n ?f ?t \<noteq> ?n - 1" by linarith
  then show "nt \<noteq> bfront b" using cdist_full [OF D(1,2)] assms(2) by auto
qed

lemma blk_refresh:
  assumes "blk_ok b"
  shows "blk_ok (b\<lparr>localFront := bfront b\<rparr>)" and "blk_ok (b\<lparr>localTail := btail b\<rparr>)"
    and "elems (b\<lparr>localFront := v\<rparr>) = elems b" and "elems (b\<lparr>localTail := v\<rparr>) = elems b"
  using assms cdist_less [OF blk_okD(1,2) [OF assms]] by (auto simp: blk_ok_def elems_def Let_def)

lemma blk_append:
  assumes ok: "blk_ok b" and nt: "unat nt = succ_in (length (bdata b)) (unat (btail b))"
    and room: "cdist (length (bdata b)) (unat (localFront b)) (unat (bfront b)) +
      cdist (length (bdata b)) (unat (bfront b)) (unat (btail b)) + 1 < length (bdata b)"
    and b': "b' = b\<lparr>bdata := (bdata b)[unat (btail b) := Some x], btail := nt\<rparr>"
  shows "blk_ok b'" and "elems b' = elems b @ [x]"
proof -
  note D = blk_okD [OF ok]
  let ?n = "length (bdata b)" and ?f = "unat (bfront b)" and ?t = "unat (btail b)"
  have d: "cdist ?n ?f (unat nt) = cdist ?n ?f ?t + 1" unfolding nt using cdist_succ_grow [OF D(1,2)] room by simp
  have t: "?t = (?f + cdist ?n ?f ?t) mod ?n" using cdist_add [OF D(1,2)] by simp
  have new: "bdata b' ! ((?f + cdist ?n ?f ?t) mod ?n) = Some x" using D(2) t by (simp add: b')
  have old: "bdata b' ! ((?f + i) mod ?n) = bdata b ! ((?f + i) mod ?n)" if "i < cdist ?n ?f ?t" for i
  proof -
    have "(?f + i) mod ?n \<noteq> ?t"
      using that t place_inj [OF D(1), of i "cdist ?n ?f ?t"] cdist_less [OF D(1,2)] by (metis less_irrefl less_trans)
    then show ?thesis by (simp add: b')
  qed
  have "bdata b' ! ((?f + i) mod ?n) \<noteq> None" if "i < cdist ?n ?f ?t + 1" for i
    using that new old [of i] D(7) [of i] by (cases "i = cdist ?n ?f ?t") simp_all
  then show "blk_ok b'" using ok d room succ_in_less [OF D(2)] nt by (auto simp: blk_ok_def Let_def b')
  have "elems b' = map (\<lambda>i. the (bdata b' ! ((?f + i) mod ?n))) ([0..<cdist ?n ?f ?t] @ [cdist ?n ?f ?t])"
    using d by (simp add: elems_def Let_def b')
  also have "\<dots> = elems b @ [x]" using new old by (simp add: elems_def Let_def)
  finally show "elems b' = elems b @ [x]" .
qed

lemma blk_put:
  assumes ok: "blk_ok b" and nt: "nt = (btail b + 1) AND sizeMask b"
    and b1: "b1 = (if nt \<noteq> localFront b then b else b\<lparr>localFront := bfront b\<rparr>)"
    and room: "nt \<noteq> localFront b \<or> nt \<noteq> bfront b"
  shows "\<exists>b2. construct (btail b1) x b1 = Some b2 \<and> blk_ok (b2\<lparr>btail := nt\<rparr>) \<and> elems (b2\<lparr>btail := nt\<rparr>) = elems b @ [x] \<and>
    bnext b2 = bnext b"
proof -
  have ok1: "blk_ok b1" "elems b1 = elems b" using ok blk_refresh(1,3) [OF ok] by (simp_all add: b1)
  have nt1: "unat nt = succ_in (length (bdata b1)) (unat (btail b1))"
    using mask_succ [OF ok blk_okD(2) [OF ok]] nt by (simp add: b1)
  have "nt \<noteq> localFront b1" using room by (auto simp: b1)
  note safe = localFront_safe(2) [OF ok1(1) nt1 this]
  let ?b = "b1\<lparr>bdata := (bdata b1)[unat (btail b1) := Some x]\<rparr>"
  have "construct (btail b1) x b1 = Some ?b" using blk_okD(2) [OF ok1(1)] by (simp add: construct_def)
  then show ?thesis
    using blk_append [OF ok1(1) nt1 safe, of "?b\<lparr>btail := nt\<rparr>" x] ok1(2) by (simp add: b1)
qed

lemma blk_take:
  assumes ok: "blk_ok b" and ne: "bfront b \<noteq> localTail b"
    and b': "b' = b\<lparr>bdata := (bdata b)[unat (bfront b) := None], bfront := (bfront b + 1) AND sizeMask b\<rparr>"
  shows "bdata b ! unat (bfront b) = Some (hd (elems b))" and "blk_ok b'" and "elems b' = tl (elems b)" and "elems b \<noteq> []"
proof -
  note D = blk_okD [OF ok]
  let ?n = "length (bdata b)" and ?f = "unat (bfront b)" and ?t = "unat (btail b)" and ?lf = "unat (localFront b)"
  have "bfront b \<noteq> btail b" using localTail_safe [OF ok ne] .
  then have neq: "?f \<noteq> ?t" "?f \<noteq> unat (localTail b)" using ne by (metis unsigned_word_eqI)+
  have f': "unat (bfront b') = succ_in ?n ?f" using mask_succ [OF ok D(1)] by (simp add: b')
  have d: "cdist ?n ?f ?t = cdist ?n (succ_in ?n ?f) ?t + 1" by (rule cdist_succ_left [OF D(1,2) neq(1)])
  have dl: "cdist ?n ?f (unat (localTail b)) = cdist ?n (succ_in ?n ?f) (unat (localTail b)) + 1"
    by (rule cdist_succ_left [OF D(1,4) neq(2)])
  have df: "cdist ?n ?lf (succ_in ?n ?f) = cdist ?n ?lf ?f + 1" using cdist_succ_grow [OF D(3,1)] D(6) d by simp
  show ne: "elems b \<noteq> []" using length_elems [of b] d by auto
  have first: "?f mod ?n = ?f" using D(1) by simp
  show "bdata b ! ?f = Some (hd (elems b))"
    using D(7) [of 0] d first by (simp add: elems_def Let_def upt_rec)
  have move: "(succ_in ?n ?f + i) mod ?n = (?f + (i + 1)) mod ?n" for i
    using mod_succ_in [OF D(1)] by (metis add.assoc add.commute mod_add_left_eq)
  have keep: "bdata b' ! ((succ_in ?n ?f + i) mod ?n) = bdata b ! ((?f + (i + 1)) mod ?n)"
    if "i < cdist ?n (succ_in ?n ?f) ?t" for i
  proof -
    have "i + 1 < ?n" using that d cdist_less [OF D(1,2)] by linarith
    moreover have "0 < ?n" using D(8) by linarith
    ultimately have "(?f + (i + 1)) mod ?n \<noteq> ?f" using place_inj [OF D(1), of "i + 1" 0] first by auto
    then show ?thesis by (simp add: b' move)
  qed
  then have "bdata b' ! ((succ_in ?n ?f + i) mod ?n) \<noteq> None" if "i < cdist ?n (succ_in ?n ?f) ?t" for i
    using that D(7) [of "i + 1"] d by simp
  then show "blk_ok b'"
    using ok f' d dl df D(5,6) succ_in_less [OF D(1)] by (auto simp: blk_ok_def Let_def b')
  show "elems b' = tl (elems b)"
  proof -
    have "tl (elems b) = map (\<lambda>i. the (bdata b ! ((?f + (i + 1)) mod ?n))) [0..<cdist ?n (succ_in ?n ?f) ?t]"
      unfolding elems_def Let_def d by (simp add: upt_conv_Cons map_Suc_upt [symmetric] o_def del: upt_Suc)
    moreover have "elems b' = map (\<lambda>i. the (bdata b' ! ((succ_in ?n ?f + i) mod ?n))) [0..<cdist ?n (succ_in ?n ?f) ?t]"
      using f' by (simp add: elems_def Let_def) (simp add: b')
    ultimately show ?thesis using keep by simp
  qed
qed

lemma make_block_ok:
  assumes "0 < k" and "k < 64" and "capacity = 2 ^ k"
  shows "blk_ok (make_block capacity :: 'a spsc_block)" and "elems (make_block capacity :: 'a spsc_block) = []"
proof -
  have "(2 :: nat) ^ k < 2 ^ 64" using assms(2) by (intro power_strict_increasing) simp_all
  then have "unat (of_nat (2 ^ k) :: size_t) = 2 ^ k" by (simp only: unat_of_nat) simp
  then have "unat capacity = 2 ^ k" by (simp add: assms(3))
  moreover have "capacity - 1 = mask k" using assms by (simp add: mask_eq_exp_minus_1)
  ultimately show "blk_ok (make_block capacity :: 'a spsc_block)" using assms by (auto simp: blk_ok_def make_block_def Let_def)
  show "elems (make_block capacity :: 'a spsc_block) = []" by (simp add: elems_def make_block_def Let_def)
qed

section \<open>The circle of blocks\<close>

text \<open>
  From the front block on the circle visits \<open>us\<close>, the tail block and \<open>vs\<close>. The blocks behind the tail block are
  empty; those between the front block and the tail block are full, and the tail block is not empty unless it
  is the front block.
\<close>

definition elems_at :: "'a blocks \<Rightarrow> addr \<Rightarrow> 'a list" where
  "elems_at h a = (case h a of Some b \<Rightarrow> elems b | None \<Rightarrow> [])"

definition full :: "'a spsc_block \<Rightarrow> bool" where
  "full b \<longleftrightarrow> length (elems b) + 1 = length (bdata b)"

definition circle :: "'a spsc_queue \<Rightarrow> addr list \<Rightarrow> addr list \<Rightarrow> bool" where
  "circle q us vs \<longleftrightarrow>
     chain bnext (blocks q) (Some (frontBlock q)) (us @ tailBlock q # vs) (Some (frontBlock q)) \<and>
     distinct (us @ tailBlock q # vs) \<and> dom (blocks q) = set (us @ tailBlock q # vs) \<and>
     (\<forall>a b. blocks q a = Some b \<longrightarrow> blk_ok b) \<and>
     (\<forall>a \<in> set (tl (us @ [tailBlock q])). elems_at (blocks q) a \<noteq> []) \<and>
     (\<forall>a \<in> set vs. elems_at (blocks q) a = []) \<and>
     (\<forall>a \<in> set (tl us). \<forall>b. blocks q a = Some b \<longrightarrow> full b) \<and>
     (\<exists>k. 0 < k \<and> k \<le> 10 \<and> largestBlockSize q = 2 ^ k)"

definition body :: "'a spsc_queue \<Rightarrow> addr list \<Rightarrow> 'a list" where
  "body q us = concat (map (elems_at (blocks q)) (us @ [tailBlock q]))"

lemma elems_at_simps [simp]:
  "blocks q a = Some b \<Longrightarrow> elems_at (blocks q) a = elems b"
  "elems_at (h(a \<mapsto> b)) a = elems b" "c \<noteq> a \<Longrightarrow> elems_at (h(a \<mapsto> b)) c = elems_at h c"
  by (simp_all add: elems_at_def)

lemma store_block_simps [simp]:
  "blocks (store_block a b q) = (blocks q)(a \<mapsto> b)" "frontBlock (store_block a b q) = frontBlock q"
  "tailBlock (store_block a b q) = tailBlock q" "largestBlockSize (store_block a b q) = largestBlockSize q"
  by (simp_all add: store_block_def)

lemma elems_at_map: "a \<notin> set as \<Longrightarrow> map (elems_at (h(a \<mapsto> b))) as = map (elems_at h) as"
  by (auto simp: elems_at_def)

lemma circleD:
  assumes "circle q us vs"
  shows "frontBlock q = hd (us @ [tailBlock q])" and "distinct (us @ tailBlock q # vs)"
    and "\<exists>b. blocks q (tailBlock q) = Some b \<and> blk_ok b \<and> bnext b = Some (hd (vs @ [frontBlock q]))"
    and "a \<in> set (us @ tailBlock q # vs) \<Longrightarrow> \<exists>b. blocks q a = Some b \<and> blk_ok b"
    and "blocks q a = None \<Longrightarrow> a \<notin> set (us @ tailBlock q # vs)"
proof -
  show "frontBlock q = hd (us @ [tailBlock q])" using assms by (cases us) (auto simp: circle_def)
  show "distinct (us @ tailBlock q # vs)" using assms by (simp add: circle_def)
  have dom: "dom (blocks q) = set (us @ tailBlock q # vs)" using assms by (simp add: circle_def)
  have ok: "blocks q a = Some b \<Longrightarrow> blk_ok b" for a b using assms by (simp add: circle_def)
  show "\<exists>b. blocks q a = Some b \<and> blk_ok b" if "a \<in> set (us @ tailBlock q # vs)"
    using that ok dom by blast
  show "a \<notin> set (us @ tailBlock q # vs)" if "blocks q a = None" using that dom by blast
  show "\<exists>b. blocks q (tailBlock q) = Some b \<and> blk_ok b \<and> bnext b = Some (hd (vs @ [frontBlock q]))"
  proof -
    obtain r where "chain bnext (blocks q) r (tailBlock q # vs) (Some (frontBlock q))"
      using assms by (auto simp: circle_def chain_append)
    then obtain b where "blocks q (tailBlock q) = Some b" "chain bnext (blocks q) (bnext b) vs (Some (frontBlock q))"
      by (auto split: option.splits)
    then show ?thesis using ok by (cases vs) auto
  qed
qed

lemma set_tl: "set (tl xs) \<subseteq> set xs"
  by (cases xs) auto

lemma circle_store:
  assumes c: "circle q us vs" and b: "blocks q a = Some b" and b': "blk_ok b'" "bnext b' = bnext b"
    and "elems b' = [] \<Longrightarrow> a \<notin> set (tl (us @ [tailBlock q]))" and "elems b' \<noteq> [] \<Longrightarrow> a \<notin> set vs" and "a \<notin> set (tl us)"
  shows "circle (store_block a b' q) us vs"
proof -
  have link: "chain bnext ((blocks q)(a \<mapsto> b')) p as r = chain bnext (blocks q) p as r" for p as r
    by (rule chain_upd_same_link [where fld = bnext and c = b]) (use b b'(2) in simp_all)
  have "elems_at ((blocks q)(a \<mapsto> b')) c \<noteq> []" if "c \<in> set (tl (us @ [tailBlock q]))" for c
    using c assms(5) that by (cases "c = a") (auto simp: circle_def)
  moreover have "elems_at ((blocks q)(a \<mapsto> b')) c = []" if "c \<in> set vs" for c
    using c assms(6) that by (cases "c = a") (auto simp: circle_def)
  ultimately show ?thesis
    using c b b' assms(7) by (auto simp: circle_def link insert_absorb domI)
qed

lemma circle_advance:
  assumes c: "circle q us (v # vs)" and b: "blocks q v = Some b" and b': "blk_ok b'" "bnext b' = bnext b" "elems b' \<noteq> []"
    and t: "\<And>b. blocks q (tailBlock q) = Some b \<Longrightarrow> full b" and q': "q' = (store_block v b' q)\<lparr>tailBlock := v\<rparr>"
  shows "circle q' (us @ [tailBlock q]) vs" and "body q' (us @ [tailBlock q]) = body q us @ elems b'"
proof -
  have link: "chain bnext ((blocks q)(v \<mapsto> b')) p as r = chain bnext (blocks q) p as r" for p as r
    by (rule chain_upd_same_link [where fld = bnext and c = b]) (use b b'(2) in simp_all)
  have dist: "distinct (us @ tailBlock q # v # vs)" using circleD(2) [OF c] .
  have "elems_at ((blocks q)(v \<mapsto> b')) c \<noteq> []" if "c \<in> set (tl ((us @ [tailBlock q]) @ [v]))" for c
    using c b' that by (cases "c = v"; cases us) (auto simp: circle_def)
  moreover have "elems_at ((blocks q)(v \<mapsto> b')) c = []" if "c \<in> set vs" for c
    using c dist that by (cases "c = v") (auto simp: circle_def)
  moreover have "full d" if "a \<in> set (tl (us @ [tailBlock q]))" "a \<noteq> v" "blocks q a = Some d" for a d
    using c t that by (cases us) (auto simp: circle_def)
  moreover have "v \<notin> set (tl (us @ [tailBlock q]))" using dist by (cases us) auto
  ultimately show "circle q' (us @ [tailBlock q]) vs"
    using c b b' by (auto simp: circle_def q' link insert_absorb domI)
  show "body q' (us @ [tailBlock q]) = body q us @ elems b'"
    using dist elems_at_map [of v "us @ [tailBlock q]" "blocks q" b'] by (simp add: body_def q' cong: map_cong)
qed

lemma circle_insert:
  assumes c: "circle q us []" and t: "blocks q (tailBlock q) = Some b" "full b" and a: "blocks q a = None"
    and c': "blk_ok c'" "bnext c' = bnext b" "elems c' \<noteq> []" and sz: "\<exists>k. 0 < k \<and> k \<le> 10 \<and> sz = 2 ^ k"
    and b': "b' = b\<lparr>bnext := Some a\<rparr>"
    and q': "q' = (store_block (tailBlock q) b' (store_block a c' q))\<lparr>tailBlock := a, largestBlockSize := sz\<rparr>"
  shows "circle q' (us @ [tailBlock q]) []" and "body q' (us @ [tailBlock q]) = body q us @ elems c'"
proof -
  let ?t = "tailBlock q" and ?h = "(blocks q)(a \<mapsto> c', tailBlock q \<mapsto> b')"
  have dist: "distinct (us @ [?t])" and ai: "a \<notin> set (us @ [?t])" using circleD(2,5) [OF c] a by auto
  have ok: "blk_ok b" using c t(1) by (simp add: circle_def)
  have b'ok: "blk_ok b'" "elems b' = elems b" "full b'" using ok t(2) by (simp_all add: b' blk_ok_def elems_def full_def)
  have h: "blocks q' = ?h" by (simp add: q')
  have "chain bnext (blocks q) (Some (frontBlock q)) us (Some ?t)" and n: "bnext b = Some (frontBlock q)"
    using c t(1) by (auto simp: circle_def chain_append)
  then have "chain bnext ?h (Some (frontBlock q)) us (Some ?t)" using dist ai by (simp add: chain_simps)
  then have "chain bnext ?h (Some (frontBlock q)) ((us @ [?t]) @ [a]) (Some (frontBlock q))"
    using ai n c'(2) by (auto simp: chain_append b')
  moreover have same: "elems_at ?h u = elems_at (blocks q) u" if "u \<in> set (us @ [?t])" for u
    using that ai t(1) b'ok(2) by (cases "u = ?t") (auto simp: elems_at_def)
  have "elems_at ?h u \<noteq> []" if "u \<in> set (tl ((us @ [?t]) @ [a]))" for u
  proof (cases "u = a")
    case False
    then have u: "u \<in> set (tl (us @ [?t]))" using that by (cases us) auto
    then have "u \<in> set (us @ [?t])" by (cases us) auto
    then show ?thesis using same c u by (simp add: circle_def)
  qed (use c'(3) ai in auto)
  moreover have "full d" if "u \<in> set (tl (us @ [?t]))" "?h u = Some d" for u d
    using c that b'ok(3) ai by (cases us) (auto simp: circle_def split: if_splits)
  ultimately show "circle q' (us @ [?t]) []"
    using c ai dist sz b'ok(1) c'(1) h unfolding circle_def by (auto simp: q')
  have "map (elems_at ?h) (us @ [?t]) = map (elems_at (blocks q)) (us @ [?t])" by (rule map_cong [OF refl same])
  moreover have "elems_at ?h a = elems c'" using ai by (simp add: elems_at_def)
  moreover have "body q' (us @ [?t]) = concat (map (elems_at ?h) (us @ [?t])) @ elems_at ?h a" using h by (simp add: body_def q')
  ultimately show "body q' (us @ [?t]) = body q us @ elems c'" unfolding body_def by (simp only:)
qed

lemma circle_rotate:
  assumes c: "circle q (f # us) vs" and e: "elems_at (blocks q) f = []"
  shows "circle (q\<lparr>frontBlock := hd (us @ [tailBlock q])\<rparr>) us (vs @ [f])"
    and "body (q\<lparr>frontBlock := hd (us @ [tailBlock q])\<rparr>) us = body q (f # us)"
    and "\<exists>b. blocks q f = Some b \<and> bnext b = Some (hd (us @ [tailBlock q]))"
proof -
  have f: "frontBlock q = f" using circleD(1) [OF c] by simp
  obtain b where b: "blocks q f = Some b" "chain bnext (blocks q) (bnext b) (us @ tailBlock q # vs) (Some f)"
    using c f by (auto simp: circle_def split: option.splits)
  then have n: "bnext b = Some (hd (us @ [tailBlock q]))" by (cases us) auto
  show "\<exists>b. blocks q f = Some b \<and> bnext b = Some (hd (us @ [tailBlock q]))" using b n by simp
  have "chain bnext (blocks q) (Some (hd (us @ [tailBlock q]))) ((us @ tailBlock q # vs) @ [f]) (Some (hd (us @ [tailBlock q])))"
    using b n unfolding chain_append by auto
  moreover have "\<forall>a \<in> set (tl (us @ [tailBlock q])). elems_at (blocks q) a \<noteq> []" using c by (cases us) (auto simp: circle_def)
  moreover have "full d" if "a \<in> set (tl us)" "blocks q a = Some d" for a d using c that by (cases us) (auto simp: circle_def)
  ultimately show "circle (q\<lparr>frontBlock := hd (us @ [tailBlock q])\<rparr>) us (vs @ [f])"
    using c e by (auto simp: circle_def)
  show "body (q\<lparr>frontBlock := hd (us @ [tailBlock q])\<rparr>) us = body q (f # us)" using e by (simp add: body_def)
qed

lemma body_store_same: "blocks q a = Some b \<Longrightarrow> elems b' = elems b \<Longrightarrow> body (store_block a b' q) us = body q us"
proof -
  assume "blocks q a = Some b" "elems b' = elems b"
  then have "elems_at ((blocks q)(a \<mapsto> b')) = elems_at (blocks q)" by (auto simp: fun_eq_iff elems_at_def)
  then show ?thesis by (simp add: body_def)
qed

lemma body_store_tail:
  assumes "circle q us vs"
  shows "body (store_block (tailBlock q) b' q) us = concat (map (elems_at (blocks q)) us) @ elems b'"
  using circleD(2) [OF assms] elems_at_map [of "tailBlock q" us "blocks q" b'] by (simp add: body_def cong: map_cong)

section \<open>Enqueue\<close>

definition malloc_ok :: "('a blocks \<Rightarrow> ptr) \<Rightarrow> bool" where
  "malloc_ok malloc \<longleftrightarrow> (\<forall>h a. malloc h = Some a \<longrightarrow> h a = None)"

lemma larger_block:
  assumes "\<exists>k. 0 < k \<and> k \<le> 10 \<and> (w :: size_t) = 2 ^ k"
  shows "\<exists>k. 0 < k \<and> k \<le> 10 \<and> (if w \<ge> MAX_BLOCK_SIZE then w else w * 2) = 2 ^ k"
proof -
  obtain k where k: "0 < k" "k \<le> 10" "w = 2 ^ k" using assms by blast
  show ?thesis
  proof (cases "w \<ge> MAX_BLOCK_SIZE")
    case False
    have "k \<noteq> 10" using False k(3) by (auto simp: MAX_BLOCK_SIZE_def)
    then show ?thesis using False k by (intro exI [of _ "Suc k"]) simp
  qed (use k in auto)
qed

lemma blk_link [simp]: "blk_ok (b\<lparr>bnext := p\<rparr>) = blk_ok b" "elems (b\<lparr>bnext := p\<rparr>) = elems b"
  by (simp_all add: blk_ok_def elems_def)

lemma new_block:
  fixes x :: 'a
  assumes "0 < k" and "k < 64" and "sz = 2 ^ k"
  shows "\<exists>c. construct 0 x (make_block sz) = Some c \<and> blk_ok (c\<lparr>btail := 1, localTail := 1, bnext := p\<rparr>) \<and>
    elems (c\<lparr>btail := 1, localTail := 1, bnext := p\<rparr>) = [x]"
proof -
  let ?mk = "make_block sz :: 'a spsc_block"
  note nb = make_block_ok [OF assms, where 'a = 'a]
  have one: "1 = (btail ?mk + 1) AND sizeMask ?mk"
  proof (rule unsigned_word_eqI)
    have "length (bdata ?mk) \<noteq> 1" using blk_okD(8) [OF nb(1)] by linarith
    then have "succ_in (length (bdata ?mk)) 0 = 1" by (simp add: succ_in_def)
    then show "unat (1 :: size_t) = unat ((btail ?mk + 1) AND sizeMask ?mk)"
      using mask_succ [OF nb(1) blk_okD(2) [OF nb(1)]] by (simp add: make_block_def)
  qed
  have z: "localFront ?mk = 0" "btail ?mk = 0" by (simp_all add: make_block_def)
  obtain c where c: "construct 0 x (make_block sz) = Some c" "blk_ok (c\<lparr>btail := 1\<rparr>)" "elems (c\<lparr>btail := 1\<rparr>) = [x]"
    using blk_put [OF nb(1) one refl, of x] z nb(2) by auto
  have "blk_ok ((c\<lparr>btail := 1\<rparr>)\<lparr>localTail := 1\<rparr>)" "elems ((c\<lparr>btail := 1\<rparr>)\<lparr>localTail := 1\<rparr>) = [x]"
    using blk_refresh(2,4) [OF c(2)] c(3) by simp_all
  then show ?thesis using c(1) by simp
qed

text \<open>The three places for a new element: the tail block, the next block, a new block.\<close>

lemma enqueue_here:
  assumes c: "circle q us vs" and b: "blocks q (tailBlock q) = Some b" and nt: "nt = (btail b + 1) AND sizeMask b"
    and room: "nt \<noteq> localFront b \<or> nt \<noteq> bfront b"
  shows "\<exists>q'. inner_enqueue malloc canAlloc x q = Some (True, q') \<and> circle q' us vs \<and> body q' us = body q us @ [x]"
proof -
  have ok: "blk_ok b" using c b by (simp add: circle_def)
  define b1 where "b1 = (if nt \<noteq> localFront b then b else b\<lparr>localFront := bfront b\<rparr>)"
  obtain b2 where b2: "construct (btail b1) x b1 = Some b2" "blk_ok (b2\<lparr>btail := nt\<rparr>)" "elems (b2\<lparr>btail := nt\<rparr>) = elems b @ [x]"
      "bnext b2 = bnext b"
    using blk_put [OF ok nt b1_def room] by blast
  let ?q = "store_block (tailBlock q) (b2\<lparr>btail := nt\<rparr>) q"
  have "inner_enqueue malloc canAlloc x q = Some (True, ?q)"
    using b b2(1) room by (simp add: inner_enqueue_def Let_def nt [symmetric] b1_def [symmetric])
  moreover have "circle ?q us vs" by (rule circle_store [OF c b b2(2)]) (use b2(3,4) circleD(2) [OF c] set_tl [of us] in auto)
  moreover have "body ?q us = body q us @ [x]"
    unfolding body_store_tail [OF c] b2(3) using b by (simp add: body_def)
  ultimately show ?thesis by blast
qed

text \<open>When the tail block is full the copy of its front is up to date already.\<close>

lemma store_block_same: "blocks q a = Some b \<Longrightarrow> store_block a b q = q"
  by (simp add: store_block_def fun_upd_idem)

lemma full_block:
  assumes ok: "blk_ok b" and "nt = (btail b + 1) AND sizeMask b" "nt = bfront b"
  shows "full b"
proof -
  have "succ_in (length (bdata b)) (unat (btail b)) = unat (bfront b)" using mask_succ [OF ok blk_okD(2) [OF ok]] assms(2,3) by simp
  then have "cdist (length (bdata b)) (unat (bfront b)) (unat (btail b)) = length (bdata b) - 1"
    using cdist_full [OF blk_okD(1,2) [OF ok]] by simp
  then show ?thesis using length_elems [of b] blk_okD(8) [OF ok] by (simp add: full_def)
qed

lemma full_refreshed: "nt = localFront b \<Longrightarrow> nt = bfront b \<Longrightarrow> b\<lparr>localFront := nt\<rparr> = (b :: 'a spsc_block)"
  by simp

lemma enqueue_full:
  assumes b: "blocks q (tailBlock q) = Some b" and nt: "nt = (btail b + 1) AND sizeMask b"
    and full: "nt = localFront b" "nt = bfront b"
  shows "inner_enqueue malloc canAlloc x q =
    (if bnext b \<noteq> Some (frontBlock q) then do {
       a \<leftarrow> bnext b;
       c \<leftarrow> blocks q a;
       if bfront c \<noteq> btail c then None
       else do {
         c1 \<leftarrow> construct (btail c) x (c\<lparr>localFront := bfront c\<rparr>);
         Some (True, (store_block a (c1\<lparr>btail := (btail c + 1) AND sizeMask c\<rparr>) q)\<lparr>tailBlock := a\<rparr>)
       }
     }
     else if canAlloc then
       (let sz = (if largestBlockSize q \<ge> MAX_BLOCK_SIZE then largestBlockSize q else largestBlockSize q * 2)
        in case malloc (blocks q) of
             None \<Rightarrow> Some (False, q)
           | Some a \<Rightarrow> do {
               c \<leftarrow> construct 0 x (make_block sz);
               Some (True, (store_block (tailBlock q) (b\<lparr>bnext := Some a\<rparr>)
                 (store_block a (c\<lparr>btail := 1, localTail := 1, bnext := bnext b\<rparr>) q))\<lparr>tailBlock := a, largestBlockSize := sz\<rparr>)
             })
     else Some (False, q))"
proof -
  have "b\<lparr>localFront := bfront b\<rparr> = b" using full_refreshed [OF full] full by simp
  then show ?thesis
    unfolding inner_enqueue_def Let_def b bind_Some_eq nt [symmetric]
    using full store_block_same [OF b] by (simp only: if_False if_True not_True_eq_False disj_not1 simp_thms)
qed

lemma enqueue_next:
  assumes c: "circle q us (v # vs)" and b: "blocks q (tailBlock q) = Some b" and nt: "nt = (btail b + 1) AND sizeMask b"
    and full: "nt = localFront b" "nt = bfront b"
  shows "\<exists>q'. inner_enqueue malloc canAlloc x q = Some (True, q') \<and> circle q' (us @ [tailBlock q]) vs \<and>
    body q' (us @ [tailBlock q]) = body q us @ [x]"
proof -
  have fb: "full b" using full_block [OF _ nt full(2)] c b by (simp add: circle_def)
  have ne: "bnext b = Some v" "v \<noteq> frontBlock q"
    using circleD(1,2,3) [OF c] b by (simp, cases us, auto)
  obtain d where d: "blocks q v = Some d" "blk_ok d" using circleD(4) [OF c, of v] by auto
  have "elems_at (blocks q) v = []" using c by (simp add: circle_def)
  then have e: "bfront d = btail d" "elems d = []" using elems_Nil_iff [OF d(2)] elems_at_simps(1) [OF d(1)] by simp_all
  let ?d = "d\<lparr>localFront := bfront d\<rparr>" and ?n = "(btail d + 1) AND sizeMask d"
  have "?n \<noteq> bfront d"
    using mask_succ [OF d(2) blk_okD(2) [OF d(2)]] e(1) blk_okD(8) [OF d(2)] by (auto simp: succ_in_def split: if_splits)
  then obtain d2 where d2: "construct (btail ?d) x ?d = Some d2" "blk_ok (d2\<lparr>btail := ?n\<rparr>)"
      "elems (d2\<lparr>btail := ?n\<rparr>) = elems ?d @ [x]" "bnext d2 = bnext ?d"
    using blk_put [OF blk_refresh(1) [OF d(2)], of ?n ?d x] by auto
  let ?q2 = "(store_block v (d2\<lparr>btail := ?n\<rparr>) q)\<lparr>tailBlock := v\<rparr>"
  have "inner_enqueue malloc canAlloc x q = Some (True, ?q2)"
    unfolding enqueue_full [OF b nt full] using ne d d2(1) e(1) by simp
  moreover have "circle ?q2 (us @ [tailBlock q]) vs" "body ?q2 (us @ [tailBlock q]) = body q us @ [x]"
    using circle_advance [OF c d(1) d2(2), of ?q2] fb b d2(3,4) e(2) blk_refresh(3) [OF d(2)] by simp_all
  ultimately show ?thesis by blast
qed

lemma enqueue_new:
  assumes c: "circle q us []" and b: "blocks q (tailBlock q) = Some b" and nt: "nt = (btail b + 1) AND sizeMask b"
    and full: "nt = localFront b" "nt = bfront b" and m: "malloc_ok malloc" and a: "malloc (blocks q) = Some a"
  shows "\<exists>q'. inner_enqueue malloc True x q = Some (True, q') \<and> circle q' (us @ [tailBlock q]) [] \<and>
    body q' (us @ [tailBlock q]) = body q us @ [x]"
proof -
  define sz where "sz = (if largestBlockSize q \<ge> MAX_BLOCK_SIZE then largestBlockSize q else largestBlockSize q * 2)"
  have "\<exists>k. 0 < k \<and> k \<le> 10 \<and> largestBlockSize q = 2 ^ k" using c by (simp add: circle_def)
  then have sz: "\<exists>k. 0 < k \<and> k \<le> 10 \<and> sz = 2 ^ k" using larger_block by (simp only: sz_def)
  obtain k where k: "0 < k" "k < 64" "sz = 2 ^ k" using sz by auto
  obtain d where d: "construct 0 x (make_block sz) = Some d"
      "blk_ok (d\<lparr>btail := 1, localTail := 1, bnext := bnext b\<rparr>)" "elems (d\<lparr>btail := 1, localTail := 1, bnext := bnext b\<rparr>) = [x]"
    using new_block [OF k, of x "bnext b"] by blast
  let ?d = "d\<lparr>btail := 1, localTail := 1, bnext := bnext b\<rparr>"
  let ?q2 = "(store_block (tailBlock q) (b\<lparr>bnext := Some a\<rparr>) (store_block a ?d q))\<lparr>tailBlock := a, largestBlockSize := sz\<rparr>"
  have fb: "full b" using full_block [OF _ nt full(2)] c b by (simp add: circle_def)
  have "bnext b = Some (frontBlock q)" using circleD(3) [OF c] b by simp
  then have "inner_enqueue malloc True x q = Some (True, ?q2)"
    unfolding enqueue_full [OF b nt full] using a d(1) by (simp add: Let_def sz_def [symmetric])
  moreover have "blocks q a = None" using m a unfolding malloc_ok_def by blast
  then have "circle ?q2 (us @ [tailBlock q]) []" "body ?q2 (us @ [tailBlock q]) = body q us @ [x]"
    using circle_insert [OF c b fb, of a ?d sz "b\<lparr>bnext := Some a\<rparr>" ?q2] d(2,3) sz by simp_all
  ultimately show ?thesis by blast
qed

text \<open>An enqueue fails only when the whole circle is in use and no block can be added.\<close>

lemma inner_enqueue_ok:
  assumes c: "circle q us vs" and m: "malloc_ok malloc"
  shows "\<exists>r q' us' vs'. inner_enqueue malloc canAlloc x q = Some (r, q') \<and> circle q' us' vs' \<and>
    body q' us' = body q us @ (if r then [x] else []) \<and>
    (\<not> r \<longrightarrow> q' = q \<and> vs = [] \<and> (canAlloc \<longrightarrow> malloc (blocks q) = None) \<and>
      (\<exists>b. blocks q (tailBlock q) = Some b \<and> full b))"
proof -
  obtain b where b: "blocks q (tailBlock q) = Some b" and n: "bnext b = Some (hd (vs @ [frontBlock q]))"
    using circleD(3) [OF c] by blast
  define nt where "nt = (btail b + 1) AND sizeMask b"
  consider "nt \<noteq> localFront b \<or> nt \<noteq> bfront b" | v vs' where "nt = localFront b" "nt = bfront b" "vs = v # vs'"
    | a where "nt = localFront b" "nt = bfront b" "vs = []" "canAlloc" "malloc (blocks q) = Some a"
    | "nt = localFront b" "nt = bfront b" "vs = []" "canAlloc \<longrightarrow> malloc (blocks q) = None"
    by (cases "nt \<noteq> localFront b \<or> nt \<noteq> bfront b"; cases vs; cases "malloc (blocks q)"; cases canAlloc) auto
  then show ?thesis
  proof cases
    case 1
    then show ?thesis using enqueue_here [OF c b nt_def] by fastforce
  next
    case 2
    then show ?thesis using enqueue_next [OF _ b nt_def, of us] c by fastforce
  next
    case 3
    then show ?thesis using enqueue_new [OF _ b nt_def _ _ m, of us a x] c by fastforce
  next
    case 4
    have "inner_enqueue malloc canAlloc x q = Some (False, q)"
      unfolding enqueue_full [OF b nt_def 4(1,2)] using n 4 by simp
    moreover have "full b" using full_block [OF _ nt_def 4(2)] c b by (simp add: circle_def)
    ultimately show ?thesis using c 4 b by fastforce
  qed
qed

section \<open>Dequeue\<close>

lemma circle_front:
  assumes "circle q us vs"
  shows "us @ [tailBlock q] = frontBlock q # tl (us @ [tailBlock q])"
    and "frontBlock q \<notin> set (tl (us @ [tailBlock q]))" and "frontBlock q \<notin> set vs" and "frontBlock q \<notin> set (tl us)"
    and "\<exists>b. blocks q (frontBlock q) = Some b \<and> blk_ok b"
proof -
  show front: "us @ [tailBlock q] = frontBlock q # tl (us @ [tailBlock q])" using circleD(1) [OF assms] by (cases us) simp_all
  have "distinct ((us @ [tailBlock q]) @ vs)" using circleD(2) [OF assms] by simp
  then have "distinct ((frontBlock q # tl (us @ [tailBlock q])) @ vs)" using front by metis
  then show *: "frontBlock q \<notin> set (tl (us @ [tailBlock q]))" "frontBlock q \<notin> set vs" by simp_all
  show "frontBlock q \<notin> set (tl us)" using * by (cases us) simp_all
  have "frontBlock q \<in> set (us @ [tailBlock q])" using front by (metis list.set_intros(1))
  then show "\<exists>b. blocks q (frontBlock q) = Some b \<and> blk_ok b" using circleD(4) [OF assms, of "frontBlock q"] by auto
qed

lemma body_front:
  assumes "circle q us vs"
  shows "body (store_block (frontBlock q) b q) us = elems b @ concat (map (elems_at (blocks q)) (tl (us @ [tailBlock q])))"
    and "blocks q (frontBlock q) = Some b' \<Longrightarrow>
      body q us = elems b' @ concat (map (elems_at (blocks q)) (tl (us @ [tailBlock q])))"
proof -
  note front = circle_front [OF assms]
  show "body (store_block (frontBlock q) b q) us = elems b @ concat (map (elems_at (blocks q)) (tl (us @ [tailBlock q])))"
    unfolding body_def store_block_simps
    by (subst front(1)) (simp only: list.map concat.simps elems_at_simps(2) elems_at_map [OF front(2)])
  show "body q us = elems b' @ concat (map (elems_at (blocks q)) (tl (us @ [tailBlock q])))" if "blocks q (frontBlock q) = Some b'"
    unfolding body_def by (subst front(1)) (use that in simp)
qed

lemma take_front:
  assumes c: "circle q us vs" and b: "blocks q (frontBlock q) = Some b" and ne: "bfront b \<noteq> localTail b"
  shows "\<exists>q'. take_from (frontBlock q) q = Some (hd (body q us), q') \<and> circle q' us vs \<and> body q' us = tl (body q us) \<and> body q us \<noteq> []"
proof -
  have ok: "blk_ok b" using c b by (simp add: circle_def)
  define b' where "b' = b\<lparr>bdata := (bdata b)[unat (bfront b) := None], bfront := (bfront b + 1) AND sizeMask b\<rparr>"
  note t = blk_take [OF ok ne b'_def]
  let ?q = "store_block (frontBlock q) b' q"
  have body: "body q us = elems b @ concat (map (elems_at (blocks q)) (tl (us @ [tailBlock q])))" by (rule body_front(2) [OF c b])
  have "?q\<lparr>frontBlock := frontBlock q\<rparr> = ?q" by (simp add: store_block_def)
  then have "take_from (frontBlock q) q = Some (hd (elems b), ?q)"
    using b t(1) blk_okD(1) [OF ok] by (simp add: take_from_def b'_def [symmetric])
  moreover have "circle ?q us vs"
    by (rule circle_store [OF c b t(2)]) (use circle_front(2-4) [OF c] in \<open>simp_all add: b'_def\<close>)
  moreover have "body ?q us = tl (body q us)" using body_front(1) [OF c] body t(3,4) by simp
  ultimately show ?thesis using body t(4) by auto
qed

lemma first_element_front:
  assumes c: "circle q us vs" and b: "blocks q (frontBlock q) = Some b" and ne: "bfront b \<noteq> btail b"
  shows "\<exists>b1. first_element adv q = Some (Some (frontBlock q), store_block (frontBlock q) b1 q) \<and>
    circle (store_block (frontBlock q) b1 q) us vs \<and> body (store_block (frontBlock q) b1 q) us = body q us \<and> bfront b1 \<noteq> localTail b1"
proof -
  have ok: "blk_ok b" using c b by (simp add: circle_def)
  let ?b1 = "if bfront b \<noteq> localTail b then b else b\<lparr>localTail := btail b\<rparr>"
  have b1: "blk_ok ?b1" "elems ?b1 = elems b" "bnext ?b1 = bnext b" "bfront ?b1 \<noteq> localTail ?b1"
    using ok ne blk_refresh(2,4) [OF ok] by auto
  have "circle (store_block (frontBlock q) ?b1 q) us vs"
    by (rule circle_store [OF c b b1(1,3)]) (use circle_front(2-4) [OF c] in simp_all)
  moreover have "first_element adv q = Some (Some (frontBlock q), store_block (frontBlock q) ?b1 q)"
    unfolding first_element_def Let_def b bind_Some_eq using ne by (simp only: simp_thms if_True)
  ultimately show ?thesis using body_store_same [OF b b1(2)] b1(4) by blast
qed

lemma first_element_empty:
  assumes c: "circle q us vs" and b: "blocks q (frontBlock q) = Some b" and e: "bfront b = btail b"
  shows "first_element adv q =
    (if frontBlock q \<noteq> tailBlock q then do {
       a \<leftarrow> bnext b;
       d \<leftarrow> blocks q a;
       if bfront d = btail d then None
       else Some (Some a, if adv then store_block a (d\<lparr>localTail := btail d\<rparr>) q else q)
     } else Some (None, q))"
proof -
  have "bfront b = localTail b" using localTail_safe [of b] c b e by (auto simp: circle_def)
  then have lt: "localTail b = btail b" using e by simp
  have same: "b\<lparr>localTail := btail b\<rparr> = b" using lt by (metis spsc_block.surjective spsc_block.update_convs(2))
  show ?thesis
    unfolding first_element_def Let_def b bind_Some_eq by (simp only: e lt same store_block_same [OF b] simp_thms if_True if_False)
qed

lemma next_block:
  assumes c: "circle q us vs" and b: "blocks q (frontBlock q) = Some b" "bfront b = btail b" and ne: "frontBlock q \<noteq> tailBlock q"
  shows "\<exists>us' g d. us = frontBlock q # us' \<and> g = hd (us' @ [tailBlock q]) \<and> bnext b = Some g \<and> g \<noteq> frontBlock q \<and>
    blocks q g = Some d \<and> blk_ok d \<and> bfront d \<noteq> btail d \<and> circle (q\<lparr>frontBlock := g\<rparr>) us' (vs @ [frontBlock q]) \<and>
    body (q\<lparr>frontBlock := g\<rparr>) us' = body q us"
proof -
  obtain us' where us: "us = frontBlock q # us'" using circleD(1) [OF c] ne by (cases us) auto
  have ok: "blk_ok b" using c b(1) by (simp add: circle_def)
  then have "elems_at (blocks q) (frontBlock q) = []" using elems_Nil_iff [OF ok] b by simp
  note rot = circle_rotate [OF c [unfolded us] this]
  let ?g = "hd (us' @ [tailBlock q])"
  obtain d where d: "blocks q ?g = Some d" "blk_ok d" using circle_front(5) [OF rot(1)] by auto
  have g: "?g \<in> set (tl (us @ [tailBlock q]))" by (cases us') (simp_all add: us)
  then have "elems d \<noteq> []" using c d(1) by (auto simp: circle_def)
  then have "bfront d \<noteq> btail d" using elems_Nil_iff [OF d(2)] by simp
  moreover have "?g \<noteq> frontBlock q" using g circle_front(2) [OF c] by metis
  ultimately show ?thesis using us rot d b(1) by auto
qed

lemma try_dequeue_ok:
  assumes c: "circle q us vs"
  shows "\<exists>q' us' vs'. try_dequeue q = Some (case body q us of [] \<Rightarrow> None | x # _ \<Rightarrow> Some x, q') \<and>
    circle q' us' vs' \<and> body q' us' = tl (body q us)"
proof -
  obtain b where b: "blocks q (frontBlock q) = Some b" "blk_ok b" using circle_front(5) [OF c] by blast
  have hd_case: "(case xs of [] \<Rightarrow> None | x # _ \<Rightarrow> Some x) = Some (hd xs)" if "xs \<noteq> []" for xs :: "'a list"
    using that by (cases xs) simp_all
  show ?thesis
  proof (cases "bfront b = btail b")
    case False
    then obtain b1 where f: "first_element True q = Some (Some (frontBlock q), store_block (frontBlock q) b1 q)"
        "circle (store_block (frontBlock q) b1 q) us vs" "body (store_block (frontBlock q) b1 q) us = body q us"
        "bfront b1 \<noteq> localTail b1"
      using first_element_front [OF c b(1)] by blast
    obtain q' where "take_from (frontBlock q) (store_block (frontBlock q) b1 q) = Some (hd (body q us), q')" "circle q' us vs"
        "body q' us = tl (body q us)" "body q us \<noteq> []"
      using take_front [OF f(2) _ f(4)] f(3) by auto
    then show ?thesis
      using f(1) by (intro exI [of _ q'] exI [of _ us] exI [of _ vs]) (simp add: try_dequeue_def hd_case)
  next
    case e: True
    show ?thesis
    proof (cases "frontBlock q = tailBlock q")
      case True
      then have "us = []" using circle_front(1,2) [OF c] by (cases us) auto
      then have "body q us = []" using b e True elems_Nil_iff [OF b(2)] by (simp add: body_def)
      moreover have "try_dequeue q = Some (None, q)" using first_element_empty [OF c b(1) e] True by (simp add: try_dequeue_def)
      ultimately show ?thesis using c by auto
    next
      case False
      then obtain us' g d where g: "g = hd (us' @ [tailBlock q])" "bnext b = Some g" "blocks q g = Some d" "blk_ok d"
          "bfront d \<noteq> btail d" "circle (q\<lparr>frontBlock := g\<rparr>) us' (vs @ [frontBlock q])" "body (q\<lparr>frontBlock := g\<rparr>) us' = body q us"
        using next_block [OF c b(1) e] by blast
      let ?d = "d\<lparr>localTail := btail d\<rparr>" and ?q = "(store_block g (d\<lparr>localTail := btail d\<rparr>) q)\<lparr>frontBlock := g\<rparr>"
      have f: "first_element True q = Some (Some g, store_block g ?d q)"
        using first_element_empty [OF c b(1) e] False g by simp
      have q: "?q = store_block (frontBlock (q\<lparr>frontBlock := g\<rparr>)) ?d (q\<lparr>frontBlock := g\<rparr>)" by (simp add: store_block_def)
      have "circle ?q us' (vs @ [frontBlock q])"
        unfolding q by (rule circle_store [OF g(6)]) (use g blk_refresh(2) [OF g(4)] circle_front(2-4) [OF g(6)] in simp_all)
      moreover have "body ?q us' = body q us"
        unfolding q using body_store_same [of "q\<lparr>frontBlock := g\<rparr>" g d ?d us'] g blk_refresh(4) [OF g(4)] by simp
      moreover have "take_from g (store_block g ?d q) = take_from (frontBlock ?q) ?q" by (simp add: take_from_def store_block_def)
      ultimately obtain q' where "take_from g (store_block g ?d q) = Some (hd (body q us), q')"
          "circle q' us' (vs @ [frontBlock q])" "body q' us' = tl (body q us)" "body q us \<noteq> []"
        using take_front [of ?q us' "vs @ [frontBlock q]" ?d] g(5) by auto
      then show ?thesis
        using f by (intro exI [of _ q'] exI [of _ us'] exI [of _ "vs @ [frontBlock q]"]) (simp add: try_dequeue_def hd_case)
    qed
  qed
qed

end
