(* ===== verification/Pipe.thy ===== *)
theory Pipe
  imports Spsc_Laws
begin

text \<open>
  The pipes of \<^verbatim>\<open>pipe.cpp\<close>: their count and destruction, the constructor of the queue, the contract of a
  first-in first-out queue, and the number of elements a queue holds without further allocation.
\<close>

section \<open>Counting\<close>

lemma mod_cdist:
  assumes "f < n" and "t < n"
  shows "(int t - int f) mod int n = int (cdist n f t)"
proof (cases "f \<le> t")
  case True
  then have "int (cdist n f t) = int t - int f" by (simp add: cdist_def of_nat_diff)
  then show ?thesis using True assms by simp
next
  case False
  then have "int (cdist n f t) = int t - int f + int n" using assms by (simp add: cdist_def of_nat_diff)
  moreover have "(int t - int f) mod int n = (int t - int f + int n) mod int n" by simp
  ultimately show ?thesis using False assms by (metis cdist_less mod_pos_pos_trivial of_nat_0_le_iff of_nat_less_iff)
qed

lemma block_count:
  assumes "blk_ok b"
  shows "(btail b - bfront b) AND sizeMask b = of_nat (length (elems b))"
proof -
  obtain k where k: "k < 64" "sizeMask b = mask k" "length (bdata b) = 2 ^ k" using assms by (auto simp: blk_ok_def)
  let ?f = "unat (bfront b)" and ?t = "unat (btail b)"
  have lt: "?f < 2 ^ k" "?t < 2 ^ k" using blk_okD(1,2) [OF assms] unfolding k(3) .
  have "uint ((btail b - bfront b) AND sizeMask b) = uint (take_bit k (btail b - bfront b))" by (simp only: k(2) take_bit_eq_mask)
  also have "\<dots> = take_bit k (uint (btail b - bfront b))" by (rule unsigned_take_bit_eq)
  also have "\<dots> = uint (btail b - bfront b) mod 2 ^ k" by (rule take_bit_eq_mod)
  also have "\<dots> = (int ?t - int ?f) mod 2 ^ k"
  proof -
    have "uint (btail b - bfront b) = (int ?t - int ?f) mod 2 ^ 64"
      using uint_word_ariths(2) [of "btail b" "bfront b"] by (simp only: uint_nat) simp
    moreover have "(2 :: int) ^ k dvd 2 ^ 64" using k(1) by (intro le_imp_power_dvd) simp
    ultimately show ?thesis by (simp only: mod_mod_cancel)
  qed
  also have "\<dots> = int (cdist (2 ^ k) ?f ?t)" using mod_cdist [OF lt] by simp
  finally have "uint ((btail b - bfront b) AND sizeMask b) = int (length (elems b))" by (simp only: length_elems k(3))
  then show ?thesis by (metis of_int_of_nat_eq word_of_int_uint)
qed

lemma size_loop_chain:
  assumes "chain bnext h (Some a) as (Some first)" and "as \<noteq> []" and "first \<notin> set (tl as)"
    and "\<And>a b. h a = Some b \<Longrightarrow> blk_ok b"
  shows "size_loop h first a r = Some (r + of_nat (length (concat (map (elems_at h) as))))"
  using assms(1-3)
proof (induction as arbitrary: a r)
  case (Cons c as)
  then obtain b where b: "c = a" "h a = Some b" "chain bnext h (bnext b) as (Some first)" by (auto split: option.splits)
  note count = block_count [OF assms(4) [OF b(2)]]
  have e: "elems_at h a = elems b" using b(2) by (simp add: elems_at_def)
  show ?case
  proof (cases as)
    case Nil
    then have "bnext b = Some first" using b(3) by simp
    then show ?thesis using b count e Nil by (simp add: size_loop.simps [of h first a])
  next
    case (Cons d ds)
    then have d: "bnext b = Some d" "d \<noteq> first" using b(3) Cons.prems(3) by auto
    have "size_loop h first d (r + of_nat (length (elems b))) =
        Some (r + of_nat (length (elems b)) + of_nat (length (concat (map (elems_at h) as))))"
      using Cons.IH [of d] b(3) d Cons Cons.prems(3) by simp
    then show ?thesis using b count e d by (simp add: size_loop.simps [of h first a] Let_def ac_simps)
  qed
qed simp

lemma circle_list:
  assumes "circle q us vs"
  shows "chain bnext (blocks q) (Some (frontBlock q)) (us @ tailBlock q # vs) (Some (frontBlock q))"
    and "frontBlock q \<notin> set (tl (us @ tailBlock q # vs))"
    and "concat (map (elems_at (blocks q)) (us @ tailBlock q # vs)) = body q us"
    and "\<And>a b. blocks q a = Some b \<Longrightarrow> blk_ok b" and "dom (blocks q) = set (us @ tailBlock q # vs)"
proof -
  show "frontBlock q \<notin> set (tl (us @ tailBlock q # vs))" using circleD(1,2) [OF assms] by (cases us) auto
  show "concat (map (elems_at (blocks q)) (us @ tailBlock q # vs)) = body q us" using assms by (auto simp: circle_def body_def)
qed (use assms in \<open>simp_all add: circle_def\<close>)

lemma size_approx_ok:
  assumes "circle q us vs"
  shows "size_approx q = Some (of_nat (length (body q us)))"
proof -
  note c = circle_list [OF assms]
  have "size_loop (blocks q) (frontBlock q) (frontBlock q) 0 =
      Some (0 + of_nat (length (concat (map (elems_at (blocks q)) (us @ tailBlock q # vs)))))"
    by (rule size_loop_chain [OF c(1) _ c(2) c(4)]) simp_all
  then show ?thesis unfolding size_approx_def c(3) by simp
qed

section \<open>Destruction\<close>

lemma destroy_elements_from:
  assumes ok: "blk_ok b" and "j \<le> length (elems b)" and "unat i = (unat (bfront b) + j) mod length (bdata b)"
  shows "destroy_elements b i = Some (drop j (elems b))"
  using assms(2,3)
proof (induction "length (elems b) - j" arbitrary: i j)
  case 0
  then have "unat i = unat (btail b)" using cdist_add [OF blk_okD(1,2) [OF ok]] by (simp add: length_elems)
  then have "i = btail b" by (rule unsigned_word_eqI)
  then show ?case using 0 by (simp add: destroy_elements.simps [of b "btail b"])
next
  case (Suc m)
  let ?n = "length (bdata b)" and ?f = "unat (bfront b)"
  have n: "0 < ?n" using blk_okD(8) [OF ok] by linarith
  have j: "j < length (elems b)" using Suc.hyps(2) by simp
  have lt: "length (elems b) < ?n" using cdist_less [OF blk_okD(1,2) [OF ok]] by (simp only: length_elems)
  have "i \<noteq> btail b"
  proof
    assume "i = btail b"
    then have "(?f + j) mod ?n = (?f + length (elems b)) mod ?n"
      using Suc.prems(2) cdist_add [OF blk_okD(1,2) [OF ok]] by (simp add: length_elems)
    then show False using place_inj [OF blk_okD(1) [OF ok], of j "length (elems b)"] j lt by simp
  qed
  moreover have i: "unat i < ?n" using Suc.prems(2) n by simp
  have "bdata b ! unat i = Some (elems b ! j)"
    using blk_okD(7) [OF ok, of j] j Suc.prems(2) by (auto simp: length_elems) (simp add: elems_def Let_def)
  moreover have "unat ((i + 1) AND sizeMask b) = (?f + (j + 1)) mod ?n"
    using mask_succ [OF ok i] mod_succ_in [OF i] Suc.prems(2) by (metis add.assoc mod_add_left_eq)
  then have "destroy_elements b ((i + 1) AND sizeMask b) = Some (drop (j + 1) (elems b))"
    using Suc.hyps j by simp
  ultimately show ?case using i j by (simp add: destroy_elements.simps [of b i] Cons_nth_drop_Suc)
qed

lemma destroy_elements_all: "blk_ok b \<Longrightarrow> destroy_elements b (bfront b) = Some (elems b)"
  using destroy_elements_from [of b 0 "bfront b"] blk_okD(1) by fastforce

lemma destroy_blocks_chain:
  assumes "chain bnext h (Some a) as (Some first)" and "as \<noteq> []" and "distinct as" and "first \<notin> set (tl as)"
    and "\<And>a b. h a = Some b \<Longrightarrow> blk_ok b"
  shows "destroy_blocks h first a = Some (concat (map (elems_at h) as), as, h |` (- set as))"
  using assms
proof (induction as arbitrary: a h)
  case (Cons c as)
  then obtain b where b: "c = a" "h a = Some b" "chain bnext h (bnext b) as (Some first)" by (auto split: option.splits)
  have e: "elems_at h a = elems b" using b(2) by (simp add: elems_at_def)
  have ds: "destroy_elements b (bfront b) = Some (elems b)" using Cons.prems(5) b(2) destroy_elements_all by blast
  show ?case
  proof (cases as)
    case Nil
    then have "bnext b = Some first" using b(3) by simp
    then show ?thesis using b ds e Nil by (simp add: destroy_blocks.simps [of h first a] Let_def restrict_map_insert fun_upd_restrict_conv) (auto simp: restrict_map_def)
  next
    case (Cons d ds')
    then have d: "bnext b = Some d" "d \<noteq> first" using b(3) Cons.prems(4) by auto
    have a: "a \<notin> set as" using Cons.prems(3) b(1) by simp
    have same: "map (elems_at (h(a := None))) as = map (elems_at h) as" using a by (auto simp: elems_at_def)
    have "destroy_blocks (h(a := None)) first d = Some (concat (map (elems_at (h(a := None))) as), as, (h(a := None)) |` (- set as))"
    proof (rule Cons.IH)
      show "chain bnext (h(a := None)) (Some d) as (Some first)" using b(3) d(1) a by (simp add: chain_simps)
      show "blk_ok b'" if "(h(a := None)) a' = Some b'" for a' b' using Cons.prems(5) that by (auto split: if_splits)
    qed (use Cons Cons.prems in auto)
    moreover have "(h(a := None)) |` (- set as) = h |` (- set (a # as))" by (auto simp: restrict_map_def fun_eq_iff)
    ultimately show ?thesis using b ds e d same by (simp add: destroy_blocks.simps [of h first a] Let_def)
  qed
qed simp

lemma delete_queue_ok:
  assumes "circle q us vs"
  shows "delete_queue q = Some (body q us, us @ tailBlock q # vs, Map.empty)"
proof -
  have "blocks q |` (- set (us @ tailBlock q # vs)) = Map.empty"
    using circle_list(5) [OF assms] by (auto simp: restrict_map_def fun_eq_iff)
  then show ?thesis
    unfolding delete_queue_def
    using destroy_blocks_chain [OF circle_list(1) _ circleD(2) circle_list(2) circle_list(4), OF assms _ assms assms assms]
      circle_list(3) [OF assms] by simp
qed

section \<open>Rounding up to a power of two\<close>

lemma smear:
  assumes "\<And>i. bit y i \<longleftrightarrow> (\<exists>d < w. bit (x :: size_t) (i + d))"
  shows "bit (y OR drop_bit w y) i \<longleftrightarrow> (\<exists>d < 2 * w. bit x (i + d))"
proof -
  have "bit (y OR drop_bit w y) i \<longleftrightarrow> (\<exists>d < w. bit x (i + d)) \<or> (\<exists>d < w. bit x (w + i + d))"
    by (simp add: bit_or_iff bit_drop_bit_eq assms)
  also have "\<dots> \<longleftrightarrow> (\<exists>d < 2 * w. bit x (i + d))"
  proof
    assume "\<exists>d < 2 * w. bit x (i + d)"
    then obtain d where d: "d < 2 * w" "bit x (i + d)" by blast
    show "(\<exists>d < w. bit x (i + d)) \<or> (\<exists>d < w. bit x (w + i + d))"
    proof (cases "d < w")
      case False
      then have "d - w < w" "w + i + (d - w) = i + d" using d(1) by simp_all
      then show ?thesis using d(2) by metis
    qed (use d in blast)
  next
    assume "(\<exists>d < w. bit x (i + d)) \<or> (\<exists>d < w. bit x (w + i + d))"
    then show "\<exists>d < 2 * w. bit x (i + d)"
    proof
      assume "\<exists>d < w. bit x (w + i + d)"
      then obtain d where "d < w" "bit x (w + i + d)" by blast
      then show ?thesis by (intro exI [of _ "w + d"]) (simp add: ac_simps)
    next
      assume "\<exists>d < w. bit x (i + d)"
      then obtain d where "d < w" "bit x (i + d)" by blast
      then show ?thesis by (intro exI [of _ d]) simp
    qed
  qed
  finally show ?thesis .
qed

definition smeared :: "size_t \<Rightarrow> size_t" where
  "smeared x1 = (let x2 = x1 OR drop_bit 1 x1; x3 = x2 OR drop_bit 2 x2; x4 = x3 OR drop_bit 4 x3;
     x5 = x4 OR drop_bit 8 x4; x6 = x5 OR drop_bit 16 x5 in x6 OR drop_bit 32 x6)"

lemma ceilToPow2_smeared: "ceilToPow2 x = smeared (x - 1) + 1"
  by (simp add: ceilToPow2_def smeared_def Let_def)

lemma bit_smeared: "bit (smeared x) i \<longleftrightarrow> (\<exists>d < 64. bit x (i + d))"
proof -
  have 0: "bit x i \<longleftrightarrow> (\<exists>d < 1. bit x (i + d))" for i by simp
  note 1 = smear [OF 0] note 2 = smear [OF 1] note 3 = smear [OF 2] note 4 = smear [OF 3]
  note 5 = smear [OF 4] note 6 = smear [OF 5]
  show ?thesis using 6 [of i] by (simp only: smeared_def Let_def) simp
qed

lemma smeared_mask:
  assumes "bit x m" and "\<And>j. m < j \<Longrightarrow> \<not> bit x j"
  shows "smeared x = mask (m + 1)"
proof (rule bit_word_eqI)
  have m: "m < 64" using assms(1) bit_imp_le_length [of x m] by simp
  fix i assume "i < LENGTH(64)"
  have "(\<exists>d < 64. bit x (i + d)) \<longleftrightarrow> i \<le> m"
  proof
    assume "\<exists>d < 64. bit x (i + d)"
    then obtain d where "bit x (i + d)" by blast
    then show "i \<le> m" using assms(2) [of "i + d"] by force
  next
    assume "i \<le> m"
    then show "\<exists>d < 64. bit x (i + d)" using assms(1) m by (intro exI [of _ "m - i"]) simp
  qed
  then show "bit (smeared x) i \<longleftrightarrow> bit (mask (m + 1) :: size_t) i"
    using m by (simp add: bit_smeared bit_mask_iff) linarith
qed

lemma highest_bit:
  assumes "(x :: size_t) \<noteq> 0"
  obtains m where "bit x m" "\<And>j. m < j \<Longrightarrow> \<not> bit x j"
proof -
  have fin: "finite {j. bit x j}" by (rule finite_subset [of _ "{..<64}"]) (auto dest: bit_imp_le_length)
  moreover have "{j. bit x j} \<noteq> {}" using assms by (auto simp: bit_eq_iff)
  ultimately have "bit x (Max {j. bit x j})" using Max_in by blast
  moreover have "\<not> bit x j" if "Max {j. bit x j} < j" for j using Max_ge [OF fin] that by (metis leD mem_Collect_eq)
  ultimately show ?thesis using that by blast
qed

lemma ceilToPow2_ok:
  assumes "2 \<le> unat x" and "unat x \<le> 2 ^ 63"
  obtains k where "0 < k" "k < 64" "ceilToPow2 x = 2 ^ k" "unat x \<le> 2 ^ k" "2 ^ k < 2 * unat x"
proof -
  have x1: "unat (x - 1) = unat x - 1" using assms(1) by (simp add: unat_sub word_le_nat_alt)
  have "x - 1 \<noteq> 0"
  proof
    assume "x - 1 = 0"
    then show False using x1 assms(1) by (simp only: unat_0)
  qed
  then obtain m where m: "bit (x - 1) m" "\<And>j. m < j \<Longrightarrow> \<not> bit (x - 1) j" using highest_bit by blast
  have "take_bit (m + 1) (x - 1) = x - 1"
  proof (rule bit_word_eqI)
    show "bit (take_bit (m + 1) (x - 1)) j \<longleftrightarrow> bit (x - 1) j" for j
      using m(2) [of j] by (cases "m < j") (simp_all add: bit_take_bit_iff)
  qed
  then have "unat (x - 1) = take_bit (m + 1) (unat (x - 1))" by (metis unsigned_take_bit_eq)
  then have hi: "unat (x - 1) < 2 ^ (m + 1)" by (metis take_bit_nat_less_exp)
  have lo: "2 ^ m \<le> unat (x - 1)"
  proof (rule ccontr)
    assume "\<not> 2 ^ m \<le> unat (x - 1)"
    then have "take_bit m (unat (x - 1)) = unat (x - 1)" by (simp add: take_bit_nat_eq_self)
    then have "take_bit m (x - 1) = x - 1" by (metis unsigned_take_bit_eq unsigned_word_eqI)
    then have "bit (take_bit m (x - 1)) m" using m(1) by (simp only:)
    then show False by (simp add: bit_take_bit_iff)
  qed
  have "m < 63"
  proof (rule ccontr)
    assume "\<not> m < 63"
    then have "(2 :: nat) ^ 63 \<le> 2 ^ m" by (intro power_increasing) simp_all
    then show False using lo x1 assms by simp
  qed
  moreover have "smeared (x - 1) = mask (m + 1)" by (rule smeared_mask) (use m in blast)+
  then have "ceilToPow2 x = 2 ^ (m + 1)" by (simp add: ceilToPow2_smeared mask_eq_exp_minus_1)
  moreover have "unat x \<le> 2 ^ (m + 1)" "2 ^ (m + 1) < 2 * unat x" using hi lo x1 assms(1) by simp_all
  ultimately show ?thesis using that [of "m + 1"] by simp
qed

text \<open>From 2 to the 63 on the rounding overflows.\<close>

lemma ceilToPow2_overflow:
  assumes "bit (x - 1) 63"
  shows "ceilToPow2 x = 0"
proof -
  have "smeared (x - 1) = mask (63 + 1)"
    by (rule smeared_mask [OF assms]) (auto dest: bit_imp_le_length)
  then show ?thesis unfolding ceilToPow2_smeared by (simp add: mask_eq_exp_minus_1)
qed

section \<open>Construction\<close>

definition fresh_ring :: "'a blocks \<Rightarrow> addr \<Rightarrow> addr list \<Rightarrow> bool" where
  "fresh_ring h f as \<longleftrightarrow> as \<noteq> [] \<and> chain bnext h (Some f) as (Some f) \<and> distinct as \<and> dom h = set as \<and>
     (\<forall>a b. h a = Some b \<longrightarrow> (\<exists>p. b = (make_block MAX_BLOCK_SIZE)\<lparr>bnext := p\<rparr>))"

lemma fresh_ring_snoc:
  assumes r: "fresh_ring h f as" and a: "h a = None" and l: "h (last as) = Some b"
  shows "fresh_ring (h(a \<mapsto> (make_block MAX_BLOCK_SIZE)\<lparr>bnext := Some f\<rparr>, last as \<mapsto> b\<lparr>bnext := Some a\<rparr>)) f (as @ [a])"
    (is "fresh_ring ?h f _")
proof -
  have as: "as = butlast as @ [last as]" using r by (simp add: fresh_ring_def)
  have na: "a \<notin> set as" "a \<noteq> last as" using r a l by (auto simp: fresh_ring_def)
  have nl: "last as \<notin> set (butlast as)" "a \<notin> set (butlast as)"
    using r na as by (metis fresh_ring_def distinct_append not_distinct_conv_prefix append_butlast_last_id) (use na in_set_butlastD in metis)
  have "chain bnext h (Some f) (butlast as @ [last as]) (Some f)" using r as by (simp add: fresh_ring_def)
  then have "chain bnext h (Some f) (butlast as) (Some (last as))" by (auto simp: chain_append)
  then have "chain bnext ?h (Some f) (butlast as) (Some (last as))" using nl by (simp add: chain_simps)
  then have "chain bnext ?h (Some f) (butlast as @ [last as, a]) (Some f)" using na by (auto simp: chain_append)
  then have ch: "chain bnext ?h (Some f) (as @ [a]) (Some f)" using as by (metis append_Cons append_Nil append_assoc)
  have "last as \<in> set as" using r by (simp add: fresh_ring_def)
  moreover obtain p where "b = (make_block MAX_BLOCK_SIZE)\<lparr>bnext := p\<rparr>" using r l unfolding fresh_ring_def by blast
  ultimately show ?thesis using r na ch by (auto simp: fresh_ring_def)
qed

lemma first_blocks_ok:
  assumes "malloc_ok malloc" and "fresh_ring h f as"
  shows "case first_blocks malloc n (Some f) (Some (last as)) h of
      None \<Rightarrow> True
    | Some (p, h') \<Rightarrow> p = Some f \<and> (\<exists>as'. fresh_ring h' f as' \<and> length as' = length as + n)"
  using assms(2)
proof (induction n arbitrary: h as)
  case (Suc n)
  show ?case
  proof (cases "malloc h")
    case (Some a)
    then have a: "h a = None" using assms(1) by (auto simp: malloc_ok_def)
    have "last as \<in> dom h" using Suc.prems by (simp add: fresh_ring_def)
    then obtain b where b: "h (last as) = Some b" by blast
    have ne: "last as \<noteq> a" using a b by auto
    let ?h = "h(a \<mapsto> (make_block MAX_BLOCK_SIZE)\<lparr>bnext := Some f\<rparr>, last as \<mapsto> b\<lparr>bnext := Some a\<rparr>)"
    have eq: "first_blocks malloc (Suc n) (Some f) (Some (last as)) h = first_blocks malloc n (Some f) (Some (last (as @ [a]))) ?h"
      using Some b ne by (simp add: Let_def fun_upd_twist)
    show ?thesis
      unfolding eq using Suc.IH [OF fresh_ring_snoc [OF Suc.prems a b]]
      by (cases "first_blocks malloc n (Some f) (Some (last (as @ [a]))) ?h") (auto simp del: fun_upd_apply)
  qed simp
qed auto

lemma first_blocks_new:
  assumes "malloc_ok malloc" and "0 < n"
  shows "case first_blocks malloc n NULL NULL Map.empty of
      None \<Rightarrow> True
    | Some (p, h) \<Rightarrow> (\<exists>f as. p = Some f \<and> fresh_ring h f as \<and> length as = n)"
proof -
  obtain m where n: "n = Suc m" using assms(2) by (cases n) auto
  show ?thesis
  proof (cases "malloc Map.empty")
    case (Some a)
    let ?h = "[a \<mapsto> (make_block MAX_BLOCK_SIZE)\<lparr>bnext := Some a\<rparr>]"
    have "fresh_ring ?h a [a]" by (auto simp: fresh_ring_def)
    from first_blocks_ok [OF assms(1) this, of m] show ?thesis using Some by (auto simp: n Let_def split: option.splits)
  qed (simp add: n)
qed

text \<open>
  \<open>roomy m\<close>: all blocks have more than \<open>S\<close> slots, and so many of them that \<open>m\<close> elements fit when the block at the
  front is left out.
\<close>

definition sizes :: "'a spsc_queue \<Rightarrow> addr \<rightharpoonup> nat" where
  "sizes q a = map_option (\<lambda>b. length (bdata b)) (blocks q a)"

definition roomy :: "nat \<Rightarrow> 'a spsc_queue \<Rightarrow> bool" where
  "roomy m q \<longleftrightarrow> (\<exists>S. (\<forall>n \<in> ran (sizes q). S < n) \<and> S < unat (largestBlockSize q) \<and>
     m \<le> (if card (dom (sizes q)) = 1 then S else (card (dom (sizes q)) - 1) * S))"

lemma unat_MAX: "unat MAX_BLOCK_SIZE = 512" "MAX_BLOCK_SIZE = 2 ^ 9"
  by (simp_all add: MAX_BLOCK_SIZE_def)

lemma fresh_ring_circle:
  assumes r: "fresh_ring h f as" and q: "q = \<lparr>blocks = h, frontBlock = f, tailBlock = f, largestBlockSize = MAX_BLOCK_SIZE\<rparr>"
  shows "circle q [] (tl as)" and "body q [] = []" and "roomy (if length as = 1 then 511 else (length as - 1) * 511) q"
proof -
  have as: "as = f # tl as" using r by (cases as) (auto simp: fresh_ring_def)
  have mk: "blk_ok (make_block MAX_BLOCK_SIZE :: 'a spsc_block)" "elems (make_block MAX_BLOCK_SIZE :: 'a spsc_block) = []"
    using make_block_ok [of 9 MAX_BLOCK_SIZE] unat_MAX(2) by simp_all
  have b: "blk_ok b \<and> elems b = [] \<and> length (bdata b) = 512" if hb: "h a = Some b" for a b
  proof -
    obtain p where "b = (make_block MAX_BLOCK_SIZE)\<lparr>bnext := p\<rparr>" using r hb unfolding fresh_ring_def by blast
    moreover have "length (bdata (make_block MAX_BLOCK_SIZE :: 'a spsc_block)) = 512" by (simp add: make_block_def unat_MAX)
    ultimately show ?thesis using mk by simp
  qed
  then have e: "elems_at h a = []" for a by (simp add: elems_at_def split: option.splits)
  have "chain bnext h (Some f) (f # tl as) (Some f)" "distinct (f # tl as)" "dom h = set (f # tl as)"
    using r as by (simp_all add: fresh_ring_def del: chain.simps)
  then show "circle q [] (tl as)" using b e unat_MAX(2) unfolding circle_def by (auto simp: q intro!: exI [of _ 9])
  show "body q [] = []" using e by (simp add: body_def q)
  have "dom (sizes q) = set as" using r by (auto simp: sizes_def q dom_def fresh_ring_def)
  then have "card (dom (sizes q)) = length as" using r by (simp add: fresh_ring_def distinct_card)
  moreover have "\<forall>n \<in> ran (sizes q). 511 < n" using b by (auto simp: ran_def sizes_def q)
  ultimately show "roomy (if length as = 1 then 511 else (length as - 1) * 511) q"
    unfolding roomy_def by (intro exI [of _ 511]) (simp add: q unat_MAX)
qed

lemma unat_power_size: "k < 64 \<Longrightarrow> unat (2 ^ k :: size_t) = 2 ^ k"
proof -
  assume "k < 64"
  then have "(2 :: nat) ^ k < 2 ^ 64" by (intro power_strict_increasing) simp_all
  then have "unat (of_nat (2 ^ k) :: size_t) = 2 ^ k" by (simp only: unat_of_nat) simp
  then show ?thesis by simp
qed

lemma single_block_circle:
  assumes "0 < k" and "k \<le> 10"
    and q: "q = \<lparr>blocks = [a \<mapsto> (make_block (2 ^ k))\<lparr>bnext := Some a\<rparr>], frontBlock = a, tailBlock = a, largestBlockSize = 2 ^ k\<rparr>"
  shows "circle q [] []" and "body q [] = []" and "roomy (2 ^ k - 1) q"
proof -
  note mk = make_block_ok [of k "2 ^ k"]
  show "circle q [] []" using assms(1,2) mk by (auto simp: circle_def q)
  show "body q [] = []" using assms(1,2) mk by (simp add: body_def q elems_at_def)
  have u: "unat (2 ^ k :: size_t) = 2 ^ k" using assms(2) by (intro unat_power_size) simp
  have "dom (sizes q) = {a}" "ran (sizes q) = {2 ^ k}"
    using u by (auto simp: sizes_def q dom_def ran_def make_block_def)
  then show "roomy (2 ^ k - 1) q" unfolding roomy_def by (intro exI [of _ "2 ^ k - 1"]) (simp add: q u)
qed

lemma roomy_less: "roomy m q \<Longrightarrow> m' \<le> m \<Longrightarrow> roomy m' q"
  unfolding roomy_def using le_trans by blast

lemma initial_block_count:
  assumes "unat maxSize + 1021 < 2 ^ 64"
  shows "unat ((maxSize + MAX_BLOCK_SIZE * 2 - 3) div (MAX_BLOCK_SIZE - 1)) = (unat maxSize + 1021) div 511"
proof -
  have "maxSize + MAX_BLOCK_SIZE * 2 - 3 = maxSize + 1021" by (simp add: MAX_BLOCK_SIZE_def)
  moreover have "unat (maxSize + 1021) = unat maxSize + 1021" using assms by (simp add: unat_word_ariths)
  moreover have "unat (MAX_BLOCK_SIZE - 1) = 511" by (simp add: MAX_BLOCK_SIZE_def)
  ultimately show ?thesis by (simp only: unat_div)
qed

lemma ReaderWriterQueue_ok:
  assumes m: "malloc_ok malloc" and "0 < unat maxSize" "unat maxSize < 2 ^ 62"
    and new: "ReaderWriterQueue malloc maxSize = Some (Created q)"
  shows "\<exists>vs. circle q [] vs \<and> body q [] = [] \<and> roomy (unat maxSize) q"
proof -
  have nz: "maxSize \<noteq> 0" using assms(2) by auto
  have u1: "unat (maxSize + 1) = unat maxSize + 1" using assms(3) by (simp add: unat_word_ariths)
  have "2 \<le> unat (maxSize + 1)" "unat (maxSize + 1) \<le> 2 ^ 63" unfolding u1 using assms(2,3) by simp_all
  then obtain k where k: "0 < k" "k < 64" "ceilToPow2 (maxSize + 1) = 2 ^ k" "unat (maxSize + 1) \<le> 2 ^ k"
    using ceilToPow2_ok by metis
  show ?thesis
  proof (cases "ceilToPow2 (maxSize + 1) > MAX_BLOCK_SIZE * 2")
    case True
    define c where "c = (unat maxSize + 1021) div 511"
    have "unat maxSize + 1021 = c * 511 + (unat maxSize + 1021) mod 511" by (simp add: c_def)
    moreover have "(unat maxSize + 1021) mod 511 < 511" by simp
    ultimately have c: "0 < c" "c \<noteq> 1" "unat maxSize \<le> (c - 1) * 511" using assms(2) by (cases c; simp)+
    have count: "unat ((maxSize + MAX_BLOCK_SIZE * 2 - 3) div (MAX_BLOCK_SIZE - 1)) = c"
      unfolding c_def by (rule initial_block_count) (use assms(3) in simp)
    obtain f h where fh: "first_blocks malloc c NULL NULL Map.empty = Some (Some f, h)"
        "q = \<lparr>blocks = h, frontBlock = f, tailBlock = f, largestBlockSize = MAX_BLOCK_SIZE\<rparr>"
      using new True nz by (auto simp: ReaderWriterQueue_def Let_def count split: option.splits)
    then obtain as where as: "fresh_ring h f as" "length as = c" using first_blocks_new [OF m c(1)] by auto
    note q = fresh_ring_circle [OF as(1) fh(2)]
    have "unat maxSize \<le> (if length as = 1 then 511 else (length as - 1) * 511)" using c as(2) by simp
    then show ?thesis using q(1,2) roomy_less [OF q(3)] by blast
  next
    case False
    have "k \<le> 10"
    proof (rule ccontr)
      assume "\<not> k \<le> 10"
      then have "(2 :: nat) ^ 11 \<le> 2 ^ k" by (intro power_increasing) simp_all
      moreover have "unat (2 ^ k :: size_t) = 2 ^ k" using k(2) by (rule unat_power_size)
      ultimately show False using False k(3) by (simp add: word_less_nat_alt MAX_BLOCK_SIZE_def)
    qed
    obtain a where a: "malloc Map.empty = Some a" "q = \<lparr>blocks = [a \<mapsto> (make_block (2 ^ k))\<lparr>bnext := Some a\<rparr>],
        frontBlock = a, tailBlock = a, largestBlockSize = 2 ^ k\<rparr>"
      using new False nz k(3) by (auto simp: ReaderWriterQueue_def Let_def split: option.splits)
    note c = single_block_circle [OF k(1) \<open>k \<le> 10\<close> a(2)]
    have "unat maxSize \<le> 2 ^ k - 1" using k(4) u1 by linarith
    then show ?thesis using c(1,2) roomy_less [OF c(3)] by blast
  qed
qed

section \<open>Room\<close>

lemma sizes_store: "sizes (store_block a b q) = (sizes q)(a \<mapsto> length (bdata b))"
  by (auto simp: sizes_def fun_eq_iff)

lemma sizes_keep: "blocks q a = Some b \<Longrightarrow> (sizes q)(a \<mapsto> length (bdata b)) = sizes q"
  by (auto simp: sizes_def fun_eq_iff)

lemma sizes_upd [simp]: "sizes (q\<lparr>frontBlock := a\<rparr>) = sizes q" "sizes (q\<lparr>tailBlock := a\<rparr>) = sizes q"
  "sizes (q\<lparr>largestBlockSize := w\<rparr>) = sizes q"
  by (simp_all add: sizes_def fun_eq_iff)

lemma construct_size: "construct i x b = Some b' \<Longrightarrow> length (bdata b') = length (bdata b)"
  by (auto simp: construct_def split: if_splits)

lemma try_dequeue_sizes:
  assumes "try_dequeue q = Some (r, q')"
  shows "sizes q' = sizes q" and "largestBlockSize q' = largestBlockSize q"
proof -
  have f: "sizes q1 = sizes q \<and> largestBlockSize q1 = largestBlockSize q" if "first_element True q = Some (p, q1)" for p q1
    using that
    by (auto simp: first_element_def Let_def sizes_store bind_eq_Some_iff sizes_def fun_eq_iff split: if_splits)
  have t: "sizes q2 = sizes q1 \<and> largestBlockSize q2 = largestBlockSize q1" if "take_from a q1 = Some (x, q2)" for a q1 q2 x
    using that by (auto simp: take_from_def sizes_store bind_eq_Some_iff sizes_def fun_eq_iff split: if_splits)
  obtain p q1 where p: "first_element True q = Some (p, q1)" using assms by (auto simp: try_dequeue_def bind_eq_Some_iff)
  then have "sizes q' = sizes q1 \<and> largestBlockSize q' = largestBlockSize q1"
    using assms by (cases p) (auto simp: try_dequeue_def bind_eq_Some_iff dest: t)
  then show "sizes q' = sizes q" "largestBlockSize q' = largestBlockSize q" using f [OF p] by simp_all
qed

definition grows :: "'a spsc_queue \<Rightarrow> 'a spsc_queue \<Rightarrow> bool" where
  "grows q q' \<longleftrightarrow> sizes q' = sizes q \<and> largestBlockSize q' = largestBlockSize q \<or>
     (\<exists>a. sizes q a = None \<and> sizes q' = (sizes q)(a \<mapsto> unat (largestBlockSize q')) \<and>
       unat (largestBlockSize q) \<le> unat (largestBlockSize q'))"

lemma larger_le: "unat w \<le> unat (if w \<ge> MAX_BLOCK_SIZE then w else w * 2)"
proof (cases "w \<ge> MAX_BLOCK_SIZE")
  case False
  then have "unat w < 512" by (simp add: not_le word_less_nat_alt MAX_BLOCK_SIZE_def)
  then have "unat (w * 2) = unat w * 2" by (simp add: unat_word_ariths)
  then show ?thesis using False by simp
qed simp

lemma inner_enqueue_sizes:
  assumes c: "circle q us vs" and m: "malloc_ok malloc" and e: "inner_enqueue malloc canAlloc x q = Some (r, q')"
  shows "grows q q'"
proof -
  obtain b where b: "blocks q (tailBlock q) = Some b" using circleD(3) [OF c] by blast
  define nt where "nt = (btail b + 1) AND sizeMask b"
  show ?thesis
  proof (cases "nt \<noteq> localFront b \<or> nt \<noteq> bfront b")
    case True
    then have "sizes q' = sizes q \<and> largestBlockSize q' = largestBlockSize q"
      using e unfolding inner_enqueue_def Let_def b bind_Some_eq nt_def [symmetric]
      by (auto simp: bind_eq_Some_iff sizes_store sizes_keep [OF b] dest!: construct_size split: if_splits)
    then show ?thesis by (simp add: grows_def)
  next
    case False
    then have full: "nt = localFront b" "nt = bfront b" by simp_all
    define sz where "sz = (if largestBlockSize q \<ge> MAX_BLOCK_SIZE then largestBlockSize q else largestBlockSize q * 2)"
    have le: "unat (largestBlockSize q) \<le> unat sz" unfolding sz_def by (rule larger_le)
    note e' = e [unfolded enqueue_full [OF b nt_def full] Let_def sz_def [symmetric]]
    show ?thesis
    proof (cases "bnext b \<noteq> Some (frontBlock q)")
      case True
      then have "sizes q' = sizes q \<and> largestBlockSize q' = largestBlockSize q"
        using e' by (auto simp: bind_eq_Some_iff sizes_store dest!: construct_size split: if_splits intro!: sizes_keep)
      then show ?thesis by (simp add: grows_def)
    next
      case False
      show ?thesis
      proof (cases "canAlloc \<and> malloc (blocks q) \<noteq> None")
        case True
        then obtain a d where a: "malloc (blocks q) = Some a" "construct 0 x (make_block sz) = Some d"
            "q' = (store_block (tailBlock q) (b\<lparr>bnext := Some a\<rparr>)
              (store_block a (d\<lparr>btail := 1, localTail := 1, bnext := bnext b\<rparr>) q))\<lparr>tailBlock := a, largestBlockSize := sz\<rparr>"
          using e' False by (auto simp: bind_eq_Some_iff)
        have n: "blocks q a = None" using m a(1) by (auto simp: malloc_ok_def)
        have "length (bdata d) = unat sz" using construct_size [OF a(2)] by (simp add: make_block_def)
        then have "sizes q' = (sizes q)(a \<mapsto> unat sz)" using b n by (auto simp: a(3) sizes_store sizes_def fun_eq_iff)
        then show ?thesis using n le a(3) by (auto simp: grows_def sizes_def)
      next
        case False
        then have "q' = q" using e' \<open>\<not> bnext b \<noteq> Some (frontBlock q)\<close> by (auto split: if_splits)
        then show ?thesis by (simp add: grows_def)
      qed
    qed
  qed
qed

lemma roomy_grows:
  assumes c: "circle q us vs" and r: "roomy m q" and g: "grows q q'"
  shows "roomy m q'"
proof -
  obtain S where S: "\<forall>n \<in> ran (sizes q). S < n" "S < unat (largestBlockSize q)"
      "m \<le> (if card (dom (sizes q)) = 1 then S else (card (dom (sizes q)) - 1) * S)"
    using r by (auto simp: roomy_def)
  have dom: "dom (sizes q) = set (us @ tailBlock q # vs)" using circle_list(5) [OF c] by (auto simp: sizes_def dom_def)
  then have fin: "finite (dom (sizes q))" and pos: "0 < card (dom (sizes q))" by (simp_all add: card_gt_0_iff)
  from g show ?thesis unfolding grows_def
  proof
    assume "sizes q' = sizes q \<and> largestBlockSize q' = largestBlockSize q"
    then show ?thesis using r by (simp only: roomy_def)
  next
    assume "\<exists>a. sizes q a = None \<and> sizes q' = (sizes q)(a \<mapsto> unat (largestBlockSize q')) \<and> unat (largestBlockSize q) \<le> unat (largestBlockSize q')"
    then obtain a where a: "sizes q a = None" "sizes q' = (sizes q)(a \<mapsto> unat (largestBlockSize q'))"
        "unat (largestBlockSize q) \<le> unat (largestBlockSize q')" by blast
    have "card (dom (sizes q')) = card (dom (sizes q)) + 1" using a fin by (simp add: card_insert_if domIff)
    moreover have "m \<le> card (dom (sizes q)) * S"
    proof (cases "card (dom (sizes q)) = 1")
      case False
      then have "m \<le> (card (dom (sizes q)) - 1) * S" using S(3) by simp
      then show ?thesis using mult_le_mono1 [OF diff_le_self] le_trans by blast
    qed (use S(3) in simp)
    ultimately have "m \<le> (if card (dom (sizes q')) = 1 then S else (card (dom (sizes q')) - 1) * S)" using pos by simp
    moreover have "\<forall>n \<in> ran (sizes q'). S < n" using S(1,2) a by (auto simp: ran_def split: if_splits)
    ultimately show ?thesis using S(2) a(3) unfolding roomy_def by (intro exI [of _ S]) simp
  qed
qed

lemma roomy_full:
  assumes c: "circle q us []" and r: "roomy m q" and t: "blocks q (tailBlock q) = Some b" "full b"
  shows "m \<le> length (body q us)"
proof -
  obtain S where S: "\<forall>n \<in> ran (sizes q). S < n" "m \<le> (if card (dom (sizes q)) = 1 then S else (card (dom (sizes q)) - 1) * S)"
    using r by (auto simp: roomy_def)
  have dom: "dom (sizes q) = set (us @ [tailBlock q])" using circle_list(5) [OF c] by (auto simp: sizes_def dom_def)
  have "distinct (us @ [tailBlock q])" using circleD(2) [OF c] by simp
  then have card: "card (dom (sizes q)) = length us + 1" unfolding dom using distinct_card by fastforce
  have big: "S \<le> length (elems_at (blocks q) a)" if "blocks q a = Some d" "full d" for a d
  proof -
    have "length (bdata d) \<in> ran (sizes q)" using that(1) by (auto simp: sizes_def ran_def)
    then show ?thesis using S(1) that by (auto simp: full_def)
  qed
  have mid: "S \<le> length (elems_at (blocks q) a)" if "a \<in> set (tl us)" for a
    using that c circleD(4) [OF c, of a] set_tl [of us] big by (fastforce simp: circle_def)
  have sum: "length (concat (map (elems_at (blocks q)) xs)) \<ge> length xs * S" if "\<forall>a \<in> set xs. S \<le> length (elems_at (blocks q) a)" for xs
    using that by (induction xs) auto
  show ?thesis
  proof (cases us)
    case Nil
    then show ?thesis using S(2) card big [OF t] by (simp add: body_def)
  next
    case (Cons u us')
    have "length us * S \<le> length (concat (map (elems_at (blocks q)) (us' @ [tailBlock q])))"
      using sum [of "us' @ [tailBlock q]"] mid big [OF t] Cons by simp
    then show ?thesis using S(2) card Cons by (simp add: body_def)
  qed
qed

end
