(* ===== verification/Pipe_Props.thy ===== *)
theory Pipe_Props
  imports Pipe
begin

text \<open>The contract of the pipes between one producer and one consumer.\<close>

section \<open>Peek and pop\<close>

lemma pop_as_dequeue: "spsc_pop q = map_option (\<lambda>(r, q'). (r \<noteq> None, q')) (try_dequeue q)"
  unfolding spsc_pop_def try_dequeue_def
  by (cases "first_element True q") (auto simp: bind_eq_Some_iff split: option.splits Option.bind_splits)

lemma peek_ok:
  assumes c: "circle q us vs"
  shows "\<exists>q'. peek q = Some (case body q us of [] \<Rightarrow> None | x # _ \<Rightarrow> Some x, q') \<and> circle q' us vs \<and> body q' us = body q us"
proof -
  obtain b where b: "blocks q (frontBlock q) = Some b" "blk_ok b" using circle_front(5) [OF c] by blast
  have first: "unat (bfront d) < length (bdata d) \<and> bdata d ! unat (bfront d) = Some (hd (elems d)) \<and> elems d \<noteq> []"
    if "blk_ok d" "bfront d \<noteq> btail d" for d :: "'a spsc_block"
    using blk_take(1,4) [OF blk_refresh(2) [OF that(1)], OF _ refl] blk_okD(1) [OF that(1)] blk_refresh(4) [OF that(1)] that(2) by simp
  have hd_case: "(case xs of [] \<Rightarrow> None | x # _ \<Rightarrow> Some x) = Some (hd xs)" if "xs \<noteq> []" for xs :: "'a list"
    using that by (cases xs) simp_all
  show ?thesis
  proof (cases "bfront b = btail b")
    case False
    then obtain b1 where f: "first_element False q = Some (Some (frontBlock q), store_block (frontBlock q) b1 q)"
        "circle (store_block (frontBlock q) b1 q) us vs" "body (store_block (frontBlock q) b1 q) us = body q us" "bfront b1 \<noteq> localTail b1"
      using first_element_front [OF c b(1)] by blast
    have ok: "blk_ok b1" by (rule circle_list(4) [OF f(2), of "frontBlock q"]) simp
    note h = first [OF ok localTail_safe [OF ok f(4)]]
    have "body q us = elems b1 @ concat (map (elems_at (blocks q)) (tl (us @ [tailBlock q])))"
      using body_front(1) [OF c, of b1] f(3) by simp
    then show ?thesis using f h by (intro exI [of _ "store_block (frontBlock q) b1 q"]) (simp add: peek_def hd_case)
  next
    case e: True
    show ?thesis
    proof (cases "frontBlock q = tailBlock q")
      case True
      then have "us = []" using circle_front(1,2) [OF c] by (cases us) auto
      then have "body q us = []" using b e True elems_Nil_iff [OF b(2)] by (simp add: body_def)
      then show ?thesis using first_element_empty [OF c b(1) e] True c by (simp add: peek_def)
    next
      case False
      then obtain us' g d where g: "g = hd (us' @ [tailBlock q])" "bnext b = Some g" "blocks q g = Some d" "blk_ok d"
          "bfront d \<noteq> btail d" "circle (q\<lparr>frontBlock := g\<rparr>) us' (vs @ [frontBlock q])" "body (q\<lparr>frontBlock := g\<rparr>) us' = body q us"
        using next_block [OF c b(1) e] by blast
      have "body q us = elems d @ concat (map (elems_at (blocks q)) (tl (us' @ [tailBlock q])))"
        using body_front(2) [OF g(6), of d] g(3,7) by simp
      then show ?thesis using first_element_empty [OF c b(1) e] False g first [OF g(4,5)] c
        by (intro exI [of _ q]) (simp add: peek_def hd_case)
    qed
  qed
qed

section \<open>The contract\<close>

text \<open>The contents of a queue, as the destructor would find them.\<close>

definition sq_list :: "'a spsc_queue \<Rightarrow> 'a list" where
  "sq_list q = (case delete_queue q of Some (xs, _, _) \<Rightarrow> xs | None \<Rightarrow> [])"

definition spsc_inv :: "nat \<Rightarrow> 'a spsc_queue \<Rightarrow> bool" where
  "spsc_inv m q \<longleftrightarrow> (\<exists>us vs. circle q us vs) \<and> roomy m q"

lemma sq_list_body: "circle q us vs \<Longrightarrow> sq_list q = body q us"
  by (simp add: sq_list_def delete_queue_ok)

primrec spsc_put :: "('a blocks \<Rightarrow> ptr) \<Rightarrow> 'a list \<Rightarrow> 'a spsc_queue \<Rightarrow> ('a list \<times> 'a spsc_queue) option" where
  "spsc_put malloc [] q = Some ([], q)"
| "spsc_put malloc (x # xs) q = do {
     (ok, q1) \<leftarrow> spsc_enqueue malloc x q;
     (ys, q2) \<leftarrow> spsc_put malloc xs q1;
     Some (if ok then x # ys else ys, q2)
   }"

primrec spsc_get :: "nat \<Rightarrow> 'a spsc_queue \<Rightarrow> ('a list \<times> 'a spsc_queue) option" where
  "spsc_get 0 q = Some ([], q)"
| "spsc_get (Suc n) q = do {
     (r, q1) \<leftarrow> try_dequeue q;
     case r of
       None \<Rightarrow> Some ([], q1)
     | Some x \<Rightarrow> do { (xs, q2) \<leftarrow> spsc_get n q1; Some (x # xs, q2) }
   }"

lemma inner_enqueue_inv:
  assumes "spsc_inv m q" and "malloc_ok malloc"
  shows "\<exists>r q'. inner_enqueue malloc canAlloc x q = Some (r, q') \<and> spsc_inv m q' \<and> sq_list q' = sq_list q @ (if r then [x] else []) \<and>
    (\<not> r \<longrightarrow> m \<le> length (sq_list q))"
proof -
  obtain us vs where c: "circle q us vs" and r: "roomy m q" using assms(1) by (auto simp: spsc_inv_def)
  obtain r q' us' vs' where e: "inner_enqueue malloc canAlloc x q = Some (r, q')" "circle q' us' vs'"
      "body q' us' = body q us @ (if r then [x] else [])" "\<not> r \<longrightarrow> vs = [] \<and> (\<exists>b. blocks q (tailBlock q) = Some b \<and> full b)"
    using inner_enqueue_ok [OF c assms(2)] by blast
  have "roomy m q'" by (rule roomy_grows [OF c \<open>roomy m q\<close> inner_enqueue_sizes [OF c assms(2) e(1)]])
  moreover have "m \<le> length (body q us)" if "\<not> r" using e(4) that roomy_full [OF _ \<open>roomy m q\<close>] c by blast
  ultimately show ?thesis using e sq_list_body [OF c] sq_list_body [OF e(2)] by (auto simp: spsc_inv_def)
qed

lemma try_dequeue_inv:
  assumes "spsc_inv m q"
  shows "\<exists>q'. try_dequeue q = Some (case sq_list q of [] \<Rightarrow> None | x # _ \<Rightarrow> Some x, q') \<and> spsc_inv m q' \<and> sq_list q' = tl (sq_list q)"
proof -
  obtain us vs where c: "circle q us vs" and r: "roomy m q" using assms by (auto simp: spsc_inv_def)
  obtain q' us' vs' where d: "try_dequeue q = Some (case body q us of [] \<Rightarrow> None | x # _ \<Rightarrow> Some x, q')" "circle q' us' vs'"
      "body q' us' = tl (body q us)"
    using try_dequeue_ok [OF c] by blast
  have "roomy m q'" using r unfolding roomy_def try_dequeue_sizes [OF d(1)] .
  then show ?thesis using d sq_list_body [OF c] sq_list_body [OF d(2)] by (auto simp: spsc_inv_def)
qed

lemma spsc_put_ok:
  assumes "malloc_ok malloc" and "spsc_inv m q"
  shows "\<exists>a q'. spsc_put malloc xs q = Some (a, q') \<and> spsc_inv m q' \<and> sq_list q' = sq_list q @ a \<and> subseq a xs"
  using assms(2)
proof (induction xs arbitrary: q)
  case (Cons x xs)
  obtain r q1 where e: "spsc_enqueue malloc x q = Some (r, q1)" "spsc_inv m q1" "sq_list q1 = sq_list q @ (if r then [x] else [])"
    using inner_enqueue_inv [OF Cons.prems assms(1), of True x] by (auto simp: spsc_enqueue_def)
  obtain a q' where "spsc_put malloc xs q1 = Some (a, q')" "spsc_inv m q'" "sq_list q' = sq_list q1 @ a" "subseq a xs"
    using Cons.IH [OF e(2)] by blast
  then show ?case using e by (cases r) auto
qed simp

lemma spsc_get_ok:
  assumes "spsc_inv m q"
  shows "\<exists>b q'. spsc_get n q = Some (b, q') \<and> spsc_inv m q' \<and> sq_list q = b @ sq_list q' \<and> length b \<le> n"
  using assms
proof (induction n arbitrary: q)
  case (Suc n)
  obtain q1 where d: "try_dequeue q = Some (case sq_list q of [] \<Rightarrow> None | x # _ \<Rightarrow> Some x, q1)" "spsc_inv m q1" "sq_list q1 = tl (sq_list q)"
    using try_dequeue_inv [OF Suc.prems] by blast
  show ?case
  proof (cases "sq_list q")
    case (Cons x xs)
    obtain b q' where "spsc_get n q1 = Some (b, q')" "spsc_inv m q'" "sq_list q1 = b @ sq_list q'" "length b \<le> n"
      using Suc.IH [OF d(2)] by blast
    then show ?thesis using d Cons by simp
  qed (use d in simp)
qed simp

interpretation sq: fifo_order "\<lambda>q. spsc_inv m q \<and> malloc_ok malloc" sq_list "\<lambda>_. True" "spsc_put malloc" spsc_get for m malloc
  by unfold_locales (use spsc_put_ok spsc_get_ok in blast)+

lemma pipe_new_inv:
  assumes "malloc_ok malloc" and "0 < capacity" "capacity < 2 ^ 31" and "pipe_spsc_new malloc capacity = Some (Created q)"
  shows "spsc_inv (nat capacity) q" and "sq_list q = []"
proof -
  have u: "unat (word_of_int capacity :: size_t) = nat capacity"
    using assms(2,3) by (simp add: unat_eq_nat_uint uint_word_of_int)
  obtain vs where c: "circle q [] vs" "body q [] = []" "roomy (nat capacity) q"
    using ReaderWriterQueue_ok [OF assms(1) _ _ assms(4) [unfolded pipe_spsc_new_def]] assms(2,3)
    unfolding u by fastforce
  then show "spsc_inv (nat capacity) q" by (auto simp: spsc_inv_def)
  show "sq_list q = []" using sq_list_body [OF c(1)] c(2) by simp
qed

lemma inv_circle: "spsc_inv m q \<Longrightarrow> \<exists>us vs. circle q us vs \<and> sq_list q = body q us"
  using sq_list_body by (auto simp: spsc_inv_def)

lemma chain_closed:
  assumes "chain fld h p as q" and "a \<in> set as" and "h a = Some c"
  shows "fld c = q \<or> (\<exists>b \<in> set as. fld c = Some b)"
  using assms
proof (induction as arbitrary: p)
  case (Cons d as)
  then obtain e where e: "h d = Some e" "chain fld h (fld e) as q" by (auto split: option.splits)
  show ?case
  proof (cases "a = d")
    case True
    then show ?thesis using e Cons.prems(3) by (cases as) (auto split: option.splits)
  qed (use Cons e in auto)
qed simp

lemma circle_next: "circle q us vs \<Longrightarrow> blocks q a = Some b \<Longrightarrow> \<exists>c \<in> dom (blocks q). bnext b = Some c"
  using chain_closed [OF circle_list(1), of q us vs a b] circle_list(5) [of q us vs] circleD(1) [of q us vs]
  by (cases us) auto

section \<open>Properties\<close>

text \<open>
  C37. A pipe is an unbounded first-in first-out queue: whatever elements are enqueued and dequeued after its
  creation, over however many blocks, no call is undefined, no assertion fails, the elements come out in the
  order in which they were accepted and none is lost. The count is exact, a look at the first element shows
  it, and deleting the pipe destroys exactly the elements left in it and frees every block once.
\<close>

theorem spsc_is_fifo:
  assumes "malloc_ok malloc" and "0 < capacity" "capacity < 2 ^ 31" and "pipe_spsc_new malloc capacity = Some (Created q)"
  shows "\<exists>ins outs q' rest freed. run_ops (spsc_put malloc) spsc_get ops q = Some (ins, outs, q') \<and> ins = outs @ rest \<and>
    pipe_spsc_count q' = Some (of_nat (length rest)) \<and>
    map_option fst (peek q') = Some (case rest of [] \<Rightarrow> None | x # _ \<Rightarrow> Some x) \<and>
    pipe_spsc_delete q' = Some (rest, freed, Map.empty) \<and> distinct freed \<and> set freed = dom (blocks q')"
proof -
  note q = pipe_new_inv [OF assms]
  obtain ins outs q' where r: "run_ops (spsc_put malloc) spsc_get ops q = Some (ins, outs, q')" "spsc_inv (nat capacity) q'"
      "sq_list q @ ins = outs @ sq_list q'"
    using sq.run_fifo [of "nat capacity" q malloc ops] q(1) assms(1) by (auto simp: list_all_iff)
  obtain us vs where c: "circle q' us vs" "sq_list q' = body q' us" using inv_circle [OF r(2)] by blast
  have "ins = outs @ body q' us" using r(3) q(2) c(2) by simp
  moreover have "map_option fst (peek q') = Some (case body q' us of [] \<Rightarrow> None | x # _ \<Rightarrow> Some x)"
    using peek_ok [OF c(1)] by auto
  ultimately show ?thesis
    using r(1) size_approx_ok [OF c(1)] delete_queue_ok [OF c(1)] circleD(2) [OF c(1)] circle_list(5) [OF c(1)]
    unfolding pipe_spsc_count_def pipe_spsc_delete_def by blast
qed

text \<open>
  C38. A pipe created for a number of elements holds that many without further allocation: at every later time
  an enqueue that may not allocate succeeds if there are fewer elements in the pipe, however they are spread
  over the blocks.
\<close>

theorem spsc_capacity:
  assumes "malloc_ok malloc" and "0 < capacity" "capacity < 2 ^ 31" and "pipe_spsc_new malloc capacity = Some (Created q)"
    and "run_ops (spsc_put malloc) spsc_get ops q = Some (ins, outs, q')" and "length ins < length outs + nat capacity"
  shows "\<exists>q''. pipe_spsc_try_enqueue x q' = Some (True, q'')"
proof -
  note q = pipe_new_inv [OF assms(1-4)]
  have r: "spsc_inv (nat capacity) q'" "ins = outs @ sq_list q'"
    using sq.run_fifo [of "nat capacity" q malloc ops] q assms(1,5) by (auto simp: list_all_iff)
  then have "length (sq_list q') < nat capacity" using assms(6) by simp
  moreover have "malloc_ok (\<lambda>_. NULL)" by (simp add: malloc_ok_def)
  ultimately show ?thesis
    using inner_enqueue_inv [OF r(1), of "\<lambda>_. NULL" False x] unfolding pipe_spsc_try_enqueue_def try_enqueue_def by fastforce
qed

text \<open>
  C39. The data of a pipe stays well formed: at every time after its creation both ends are blocks of the
  pipe, every block is followed by a block, has a power of two of slots with the matching mask, and its
  indices and the copies of them lie within it.
\<close>

theorem spsc_well_formed:
  assumes "malloc_ok malloc" and "0 < capacity" "capacity < 2 ^ 31" and "pipe_spsc_new malloc capacity = Some (Created q)"
    and "run_ops (spsc_put malloc) spsc_get ops q = Some (ins, outs, q')"
  shows "frontBlock q' \<in> dom (blocks q') \<and> tailBlock q' \<in> dom (blocks q') \<and>
    (\<forall>a b. blocks q' a = Some b \<longrightarrow> (\<exists>c \<in> dom (blocks q'). bnext b = Some c) \<and>
       (\<exists>k. 0 < k \<and> k < 64 \<and> length (bdata b) = 2 ^ k \<and> sizeMask b = mask k) \<and>
       unat (bfront b) < length (bdata b) \<and> unat (btail b) < length (bdata b) \<and>
       unat (localFront b) < length (bdata b) \<and> unat (localTail b) < length (bdata b))"
proof -
  have "spsc_inv (nat capacity) q'"
    using sq.run_fifo [of "nat capacity" q malloc ops] pipe_new_inv(1) [OF assms(1-4)] assms(1,5) by (auto simp: list_all_iff)
  then obtain us vs where c: "circle q' us vs" by (auto simp: spsc_inv_def)
  have "frontBlock q' \<in> dom (blocks q')" using circleD(1) [OF c] circle_list(5) [OF c] by (cases us) auto
  moreover have "tailBlock q' \<in> dom (blocks q')" using circle_list(5) [OF c] by simp
  ultimately show ?thesis using circle_next [OF c] circle_list(4) [OF c] unfolding blk_ok_def Let_def by blast
qed


section \<open>Examples\<close>

definition next_free :: "nat blocks \<Rightarrow> ptr" where
  "next_free h = (if h 0 = None then Some 0 else if h 1 = None then Some 1 else NULL)"

lemma next_free_ok: "malloc_ok next_free"
  by (auto simp: malloc_ok_def next_free_def split: if_splits)

definition small_pipe :: "nat spsc_queue" where
  "small_pipe = \<lparr>blocks = [0 \<mapsto> (make_block 2)\<lparr>bnext := Some 0\<rparr>], frontBlock = 0, tailBlock = 0, largestBlockSize = 2\<rparr>"

lemma small_pipe_new: "pipe_spsc_new next_free 1 = Some (Created small_pipe)"
  by (simp add: pipe_spsc_new_def ReaderWriterQueue_def Let_def ceilToPow2_def MAX_BLOCK_SIZE_def next_free_def small_pipe_def)

theorem spsc_is_fifo_witness:
  "\<exists>ins outs q' rest freed. run_ops (spsc_put next_free) spsc_get [Put [5, 6, 7], Get 2] small_pipe = Some (ins, outs, q') \<and>
    ins = outs @ rest \<and> pipe_spsc_count q' = Some (of_nat (length rest)) \<and>
    map_option fst (peek q') = Some (case rest of [] \<Rightarrow> None | x # _ \<Rightarrow> Some x) \<and>
    pipe_spsc_delete q' = Some (rest, freed, Map.empty) \<and> distinct freed \<and> set freed = dom (blocks q')"
  using spsc_is_fifo [OF next_free_ok _ _ small_pipe_new, of "[Put [5, 6, 7], Get 2]"] by simp

theorem spsc_capacity_witness:
  "run_ops (spsc_put next_free) spsc_get [] small_pipe = Some ([], [], small_pipe) \<and>
   (\<exists>q''. pipe_spsc_try_enqueue 5 small_pipe = Some (True, q''))"
  using spsc_capacity [OF next_free_ok _ _ small_pipe_new, of "[]" "[]" "[]" small_pipe 5] by simp

theorem spsc_well_formed_witness:
  "run_ops (spsc_put next_free) spsc_get [] small_pipe = Some ([], [], small_pipe) \<and>
   frontBlock small_pipe \<in> dom (blocks small_pipe) \<and> tailBlock small_pipe \<in> dom (blocks small_pipe)"
  using spsc_well_formed [OF next_free_ok _ _ small_pipe_new, of "[]" "[]" "[]" small_pipe] by simp


end
