(* ===== verification/Device.thy ===== *)
theory Device
  imports Sized_Rings
begin

text \<open>
  Sending and receiving on a device (\<^verbatim>\<open>libmoon/src/device.c\<close>) and the end of a run
  (\<^verbatim>\<open>libmoon/src/lifecycle.cpp\<close>). The driver of the card, which \<^verbatim>\<open>rte_eth_tx_burst\<close> calls, is a parameter:
  call number \<open>n\<close> on a queue has room for \<open>accept n\<close> packets. What the driver promises is that it takes packets
  from the front of the table and, for the liveness theorems, that it has room again and again.
\<close>

type_synonym u16 = "16 word"
type_synonym u64 = "64 word"

section \<open>Packet buffers with the fields used for sending\<close>

text \<open>\<open>no_crc\<close> is the bit \<^verbatim>\<open>PKT_TX_NO_CRC_CSUM\<close> of \<^verbatim>\<open>ol_flags\<close>.\<close>

record tx_mbuf = mbuf +
  data_len :: u16
  udata64 :: u64
  no_crc :: bool

definition rte_pktmbuf_reset :: "tx_mbuf \<Rightarrow> tx_mbuf" where
  "rte_pktmbuf_reset m = m\<lparr>pkt_len := 0, data_len := 0, no_crc := False\<rparr>"

text \<open>A memory pool is the list of its free buffers.\<close>

definition rte_pktmbuf_alloc :: "tx_mbuf list \<Rightarrow> tx_mbuf option \<times> tx_mbuf list" where
  "rte_pktmbuf_alloc pool = (case pool of [] \<Rightarrow> (None, []) | m # ms \<Rightarrow> (Some (rte_pktmbuf_reset m), ms))"

section \<open>Transmission\<close>

record 'p txq =
  tx_calls :: nat
  wire :: "'p list"

definition rte_eth_tx_burst :: "(nat \<Rightarrow> nat) \<Rightarrow> 'p list \<Rightarrow> u16 \<Rightarrow> 'p txq \<Rightarrow> (u16 \<times> 'p txq) option" where
  "rte_eth_tx_burst accept pkts nb q =
     (if unat nb \<le> length pkts then
        let k = min (accept (tx_calls q)) (unat nb)
        in Some (of_nat k, q\<lparr>tx_calls := Suc (tx_calls q), wire := wire q @ take k pkts\<rparr>)
      else None)"

text \<open>The loop of \<^verbatim>\<open>dpdk_send_all_packets\<close>.\<close>

partial_function (option) send_all :: "(nat \<Rightarrow> nat) \<Rightarrow> 'p list \<Rightarrow> u16 \<Rightarrow> u32 \<Rightarrow> 'p txq \<Rightarrow> 'p txq option" where
  "send_all accept pkts num_pkts sent q =
     Option.bind (rte_eth_tx_burst accept (drop (unat sent) pkts) (ucast (ucast num_pkts - sent)) q) (\<lambda>(k, q1).
       let sent1 = sent + ucast k
       in if sent1 \<ge> ucast num_pkts then Some q1 else send_all accept pkts num_pkts sent1 q1)"

declare send_all.simps [code]

definition dpdk_send_all_packets :: "(nat \<Rightarrow> nat) \<Rightarrow> 'p list \<Rightarrow> u16 \<Rightarrow> 'p txq \<Rightarrow> 'p txq option" where
  "dpdk_send_all_packets accept pkts num_pkts q = send_all accept pkts num_pkts 0 q"

partial_function (option) dpdk_send_single_packet :: "(nat \<Rightarrow> nat) \<Rightarrow> 'p \<Rightarrow> 'p txq \<Rightarrow> 'p txq option" where
  "dpdk_send_single_packet accept pkt q =
     Option.bind (rte_eth_tx_burst accept [pkt] 1 q) (\<lambda>(k, q1).
       if k > 0 then Some q1 else dpdk_send_single_packet accept pkt q1)"

declare dpdk_send_single_packet.simps [code]

definition dpdk_try_send_single_packet :: "(nat \<Rightarrow> nat) \<Rightarrow> 'p \<Rightarrow> 'p txq \<Rightarrow> (u16 \<times> 'p txq) option" where
  "dpdk_try_send_single_packet accept pkt q = rte_eth_tx_burst accept [pkt] 1 q"

section \<open>The end of a run\<close>

text \<open>\<open>tsc\<close> is the value of the time stamp counter at the time of the call, \<open>hz\<close> its frequency.\<close>

record lifecycle =
  stop_at :: u64
  signal_at :: u64

definition lifecycle0 :: lifecycle where
  "lifecycle0 = \<lparr>stop_at = - 1, signal_at = - 1\<rparr>"

text \<open>The second signal aborts the program: \<open>None\<close>.\<close>

definition sig_handler :: "u64 \<Rightarrow> lifecycle \<Rightarrow> lifecycle option" where
  "sig_handler tsc l = (if signal_at l \<noteq> - 1 then None else Some (l\<lparr>signal_at := tsc\<rparr>))"

definition is_running :: "u64 \<Rightarrow> u64 \<Rightarrow> u32 \<Rightarrow> lifecycle \<Rightarrow> bool" where
  "is_running hz tsc extra_time l =
     (let extra_time_cycles = ucast extra_time * hz div 1000;
          time = tsc - extra_time_cycles
      in signal_at l > time \<and> stop_at l > time)"

definition set_runtime :: "u64 \<Rightarrow> u64 \<Rightarrow> u32 \<Rightarrow> lifecycle \<Rightarrow> lifecycle" where
  "set_runtime hz tsc run_time l = l\<lparr>stop_at := tsc + ucast run_time * hz div 1000\<rparr>"

section \<open>Reception with software time stamps\<close>

text \<open>
  Round \<open>n\<close> of the loop asks whether the program is still running (\<open>running n\<close>), reads the counter (\<open>tsc n\<close>) and
  receives the packets \<open>rx n\<close>, of which \<^verbatim>\<open>rte_eth_rx_burst\<close> returns at most \<^verbatim>\<open>nb_pkts\<close>.
\<close>

primrec stamp_loop :: "u64 \<Rightarrow> u32 \<Rightarrow> u16 \<Rightarrow> tx_mbuf list \<Rightarrow> tx_mbuf list" where
  "stamp_loop tsc cycles_per_byte prev_pkt_size [] = []"
| "stamp_loop tsc cycles_per_byte prev_pkt_size (m # ms) =
     m\<lparr>udata64 := tsc + ucast (ucast prev_pkt_size * cycles_per_byte)\<rparr> #
     stamp_loop tsc cycles_per_byte (ucast (pkt_len m + 24)) ms"

partial_function (option) receive_loop_software ::
  "(nat \<Rightarrow> bool) \<Rightarrow> (nat \<Rightarrow> u64) \<Rightarrow> (nat \<Rightarrow> tx_mbuf list) \<Rightarrow> u32 \<Rightarrow> u16 \<Rightarrow> nat \<Rightarrow> (u16 \<times> tx_mbuf list) option" where
  "receive_loop_software running tsc rx cycles_per_byte nb_pkts n =
     (if running n then
        let pkts = take (unat nb_pkts) (rx n)
        in if pkts \<noteq> [] then Some (of_nat (length pkts), stamp_loop (tsc n) cycles_per_byte 0 pkts)
           else receive_loop_software running tsc rx cycles_per_byte nb_pkts (Suc n)
      else Some (0, []))"

declare receive_loop_software.simps [code]

definition dpdk_receive_with_timestamps_software ::
  "(nat \<Rightarrow> bool) \<Rightarrow> (nat \<Rightarrow> u64) \<Rightarrow> (nat \<Rightarrow> tx_mbuf list) \<Rightarrow> u32 \<Rightarrow> u16 \<Rightarrow> (u16 \<times> tx_mbuf list) option" where
  "dpdk_receive_with_timestamps_software running tsc rx cycles_per_byte nb_pkts =
     receive_loop_software running tsc rx cycles_per_byte nb_pkts 0"

end
