(* ===== verification/Device_Laws.thy ===== *)
theory Device_Laws
  imports Device Ring_Queue
begin

text \<open>
  The promises of the device functions: everything is sent, in order, as soon as the driver has room again and
  again; a run ends when its time is over; the software time stamps.
\<close>

section \<open>Changes of width\<close>

lemma u16_less: "unat (w :: u16) < 65536"
  using unsigned_less [of w] by simp

lemma unat_u16_u32 [simp]: "unat (ucast (w :: u16) :: u32) = unat w"
  using u16_less [of w] by (simp add: unsigned_ucast_eq take_bit_nat_eq_self)

lemma unat_u32_u64 [simp]: "unat (ucast (w :: u32) :: u64) = unat w"
  using unat_u32 [of w] by (simp add: unsigned_ucast_eq take_bit_nat_eq_self)

lemma unat_u32_u16: "unat (w :: u32) < 2 ^ 16 \<Longrightarrow> unat (ucast w :: u16) = unat w"
  by (simp add: unsigned_ucast_eq take_bit_nat_eq_self)

lemma unat_of_nat_u16: "n < 2 ^ 16 \<Longrightarrow> unat (of_nat n :: u16) = n"
  by (simp add: unsigned_of_nat take_bit_nat_eq_self)

section \<open>Sending everything\<close>

text \<open>The card has room again and again.\<close>

definition drains :: "(nat \<Rightarrow> nat) \<Rightarrow> bool" where
  "drains accept \<longleftrightarrow> (\<forall>n. \<exists>d. 0 < accept (n + d))"

lemma tx_burst_eq:
  fixes accept :: "nat \<Rightarrow> nat" and q :: "'p txq"
  assumes "unat sent \<le> unat (num :: u16)" and "unat num \<le> length pkts"
  defines "k \<equiv> min (accept (tx_calls q)) (unat num - unat sent)"
  shows "rte_eth_tx_burst accept (drop (unat sent) pkts) (ucast (ucast num - (sent :: u32))) q =
     Some (of_nat k, q\<lparr>tx_calls := Suc (tx_calls q), wire := wire q @ take k (drop (unat sent) pkts)\<rparr>)"
    and "unat (sent + ucast (of_nat k :: u16)) = unat sent + k"
proof -
  have "unat (ucast num - sent :: u32) = unat num - unat sent" using unat_minus_small [of sent "ucast num"] assms(1) by simp
  moreover from this have "unat (ucast (ucast num - sent :: u32) :: u16) = unat num - unat sent"
    using u16_less [of num] by (subst unat_u32_u16) auto
  ultimately show "rte_eth_tx_burst accept (drop (unat sent) pkts) (ucast (ucast num - (sent :: u32))) q =
     Some (of_nat k, q\<lparr>tx_calls := Suc (tx_calls q), wire := wire q @ take k (drop (unat sent) pkts)\<rparr>)"
    using assms(2) by (simp add: rte_eth_tx_burst_def k_def Let_def)
  have "k \<le> unat num - unat sent" by (simp add: k_def)
  then have "k < 2 ^ 16" "unat sent + k < 2 ^ 16" using u16_less [of num] assms(1) by simp_all
  then show "unat (sent + ucast (of_nat k :: u16)) = unat sent + k"
    by (subst unat_add_small) (simp_all add: unat_of_nat_u16)
qed

lemma send_all_step:
  fixes accept :: "nat \<Rightarrow> nat" and q :: "'p txq"
  assumes "unat sent \<le> unat num" and "unat num \<le> length pkts"
  defines "k \<equiv> min (accept (tx_calls q)) (unat num - unat sent)"
  defines "q1 \<equiv> q\<lparr>tx_calls := Suc (tx_calls q), wire := wire q @ take k (drop (unat sent) pkts)\<rparr>"
  shows "\<exists>sent1. unat sent1 = unat sent + k \<and> send_all accept pkts num sent q =
    (if unat num \<le> unat sent + k then Some q1 else send_all accept pkts num sent1 q1)"
proof (intro exI conjI)
  show l: "unat (sent + ucast (of_nat k :: u16)) = unat sent + k"
    using tx_burst_eq(2) [OF assms(1,2)] unfolding k_def .
  show "send_all accept pkts num sent q =
      (if unat num \<le> unat sent + k then Some q1 else send_all accept pkts num (sent + ucast (of_nat k :: u16)) q1)"
    using tx_burst_eq(1) [OF assms(1,2), of accept q] l
    by (subst send_all.simps) (simp add: k_def [symmetric] q1_def word_le_nat_alt Let_def)
qed

text \<open>If the card takes at least one packet, the rest of the loop sees fewer packets.\<close>

lemma send_all_progress:
  assumes "unat sent \<le> unat num" and "unat num \<le> length pkts" and "0 < accept (tx_calls q)"
    and rest: "\<And>s1 q1. unat num - unat s1 < unat num - unat sent \<Longrightarrow> unat s1 \<le> unat num \<Longrightarrow>
      \<exists>q'. send_all accept pkts num s1 q1 = Some q' \<and> wire q' = wire q1 @ take (unat num - unat s1) (drop (unat s1) pkts)"
  shows "\<exists>q'. send_all accept pkts num sent q = Some q' \<and> wire q' = wire q @ take (unat num - unat sent) (drop (unat sent) pkts)"
proof -
  let ?k = "min (accept (tx_calls q)) (unat num - unat sent)"
  let ?q1 = "q\<lparr>tx_calls := Suc (tx_calls q), wire := wire q @ take ?k (drop (unat sent) pkts)\<rparr>"
  obtain s1 where s1: "unat s1 = unat sent + ?k" "send_all accept pkts num sent q =
      (if unat num \<le> unat sent + ?k then Some ?q1 else send_all accept pkts num s1 ?q1)"
    using send_all_step [OF assms(1,2), of accept q] by blast
  show ?thesis
  proof (cases "unat num \<le> unat sent + ?k")
    case True
    then have "?k = unat num - unat sent" by simp
    moreover have "send_all accept pkts num sent q = Some ?q1" using s1(2) True by (simp only: if_True)
    ultimately show ?thesis by simp
  next
    case False
    then have "unat num - unat s1 < unat num - unat sent" "unat s1 \<le> unat num" using s1(1) assms(3) by simp_all
    from rest [OF this, of ?q1] obtain q' where "send_all accept pkts num s1 ?q1 = Some q'"
      "wire q' = wire ?q1 @ take (unat num - unat s1) (drop (unat s1) pkts)" by blast
    moreover have "?k + (unat num - unat s1) = unat num - unat sent" using s1(1) False by simp
    then have "take (unat num - unat sent) (drop (unat sent) pkts) =
        take ?k (drop (unat sent) pkts) @ take (unat num - unat s1) (drop (unat s1) pkts)"
      using take_add [of ?k "unat num - unat s1" "drop (unat sent) pkts"] by (simp only: s1(1) drop_drop add.commute)
    moreover have "send_all accept pkts num sent q = send_all accept pkts num s1 ?q1" using s1(2) False by (simp only: if_False)
    ultimately show ?thesis by simp
  qed
qed

lemma send_all_drains:
  assumes "drains accept" and "unat num \<le> length pkts"
  shows "unat sent \<le> unat num \<Longrightarrow>
    \<exists>q'. send_all accept pkts num sent q = Some q' \<and> wire q' = wire q @ take (unat num - unat sent) (drop (unat sent) pkts)"
proof (induction "unat num - unat sent" arbitrary: sent q rule: less_induct)
  case less
  have progress: "\<exists>q'. send_all accept pkts num sent q = Some q' \<and> wire q' = wire q @ take (unat num - unat sent) (drop (unat sent) pkts)"
    if "0 < accept (tx_calls q)" for q
    using send_all_progress [OF less.prems assms(2) that less.hyps] .
  obtain d where "0 < accept (tx_calls q + d)" using assms(1) by (auto simp: drains_def)
  then show ?case
  proof (induction d arbitrary: q)
    case (Suc d)
    show ?case
    proof (cases "accept (tx_calls q) = 0")
      case True
      let ?q1 = "q\<lparr>tx_calls := Suc (tx_calls q)\<rparr>"
      obtain s1 where "unat s1 = unat sent" "send_all accept pkts num sent q =
          (if unat num \<le> unat sent then Some ?q1 else send_all accept pkts num s1 ?q1)"
        using send_all_step [OF less.prems assms(2), of accept q] True by auto
      moreover from this(1) have "s1 = sent" by (simp add: word_unat_eq_iff)
      ultimately show ?thesis using Suc.IH [of ?q1] Suc.prems less.prems by (cases "unat num \<le> unat sent") auto
    qed (use progress in simp)
  qed (use progress in simp)
qed

lemma dpdk_send_all_packets_ok:
  assumes "drains accept" and "length pkts < 2 ^ 16"
  shows "\<exists>q'. dpdk_send_all_packets accept pkts (of_nat (length pkts)) q = Some q' \<and> wire q' = wire q @ pkts"
  using send_all_drains [OF assms(1), of "of_nat (length pkts)" pkts 0 q] assms(2)
  by (simp add: dpdk_send_all_packets_def unat_of_nat_u16)

text \<open>
  C31. \<^verbatim>\<open>dpdk_send_all_packets\<close> returns as soon as the card has had room often enough, and has then sent
  every packet once and in order, however the card splits the bursts.
\<close>

theorem send_all_complete:
  assumes "drains accept" and "length ps < 2 ^ 16"
  shows "\<exists>q'. dpdk_send_all_packets accept ps (of_nat (length ps)) q = Some q' \<and> wire q' = wire q @ ps"
  using dpdk_send_all_packets_ok [OF assms] .

theorem send_all_complete_witness:
  "\<exists>q'. dpdk_send_all_packets (\<lambda>n. n mod 3) [10, 11, 12, 13, 14 :: nat] 5 \<lparr>tx_calls = 0, wire = []\<rparr> = Some q' \<and>
     wire q' = [10, 11, 12, 13, 14]"
proof -
  have "(n + (2 * n + 1)) mod 3 = 1" for n :: nat by presburger
  then have "drains (\<lambda>n. n mod 3)" unfolding drains_def by (metis zero_less_one)
  from send_all_complete [OF this, of "[10, 11, 12, 13, 14 :: nat]" "\<lparr>tx_calls = 0, wire = []\<rparr>"] show ?thesis by simp
qed

lemma tx_single:
  assumes "0 < accept (tx_calls q)"
  shows "rte_eth_tx_burst accept [p] 1 q = Some (1, q\<lparr>tx_calls := Suc (tx_calls q), wire := wire q @ [p]\<rparr>)"
proof -
  have "min (accept (tx_calls q)) 1 = 1" using assms by simp
  then show ?thesis by (simp add: rte_eth_tx_burst_def Let_def)
qed

lemma send_single_ok:
  assumes "drains accept"
  shows "\<exists>q'. dpdk_send_single_packet accept p q = Some q' \<and> wire q' = wire q @ [p]"
proof -
  obtain d where "0 < accept (tx_calls q + d)" using assms by (auto simp: drains_def)
  then show ?thesis
  proof (induction d arbitrary: q)
    case 0
    then show ?case by (subst dpdk_send_single_packet.simps) (simp add: tx_single)
  next
    case (Suc d)
    show ?case
    proof (cases "accept (tx_calls q) = 0")
      case True
      then show ?thesis using Suc.IH [of "q\<lparr>tx_calls := Suc (tx_calls q)\<rparr>"] Suc.prems
        by (subst dpdk_send_single_packet.simps) (simp add: rte_eth_tx_burst_def)
    next
      case False
      then show ?thesis by (subst dpdk_send_single_packet.simps) (simp add: tx_single)
    qed
  qed
qed

section \<open>The end of a run\<close>

text \<open>
  After \<^verbatim>\<open>set_runtime(ms)\<close> at time \<open>t\<close> the program runs, as long as no signal arrives, until exactly
  \<open>ms * hz / 1000\<close> ticks later, and for \<open>extra\<close> milliseconds more for callers that ask for extra time; the numbers
  must not exceed 64 bits.
\<close>

theorem set_runtime_exact:
  assumes "unat ms * unat hz < 2 ^ 64" and "unat t + unat ms * unat hz div 1000 < 2 ^ 64 - 1"
    and "signal_at l = - 1" and "unat extra * unat hz < 2 ^ 64" and "unat extra * unat hz div 1000 \<le> unat now"
  shows "is_running hz now extra (set_runtime hz t ms l) \<longleftrightarrow>
    unat now < unat t + unat ms * unat hz div 1000 + unat extra * unat hz div 1000"
proof -
  have m: "unat (ucast w * hz div 1000 :: u64) = unat w * unat hz div 1000" if "unat w * unat hz < 2 ^ 64" for w :: u32
    using that by (simp add: unat_div unat_word_ariths)
  have s: "unat (t + ucast ms * hz div 1000) = unat t + unat ms * unat hz div 1000"
    using assms(2) m [OF assms(1)] by (simp add: unat_word_ariths(1) [of t])
  have e: "unat (now - ucast extra * hz div 1000) = unat now - unat extra * unat hz div 1000"
    using assms(5) m [OF assms(4)] by (simp add: unat_sub word_le_nat_alt)
  have "unat (- 1 :: u64) = 2 ^ 64 - 1" by (simp add: unsigned_minus_1_eq_mask mask_eq_exp_minus_1)
  then have "is_running hz now extra (set_runtime hz t ms l) \<longleftrightarrow>
      unat now - unat extra * unat hz div 1000 < 2 ^ 64 - 1 \<and>
      unat now - unat extra * unat hz div 1000 < unat t + unat ms * unat hz div 1000"
    unfolding is_running_def set_runtime_def Let_def word_less_nat_alt e using assms(3) s by simp
  then show ?thesis using assms(2,5) by linarith
qed

theorem set_runtime_exact_witness:
  "is_running 2000000000 6000000000 0 (set_runtime 2000000000 5000000000 1000 lifecycle0)"
  using set_runtime_exact [of 1000 2000000000 5000000000 lifecycle0 0 6000000000] by (simp add: lifecycle0_def)

section \<open>Software time stamps\<close>

text \<open>
  The time stamps that \<^verbatim>\<open>dpdk_receive_with_timestamps_software\<close> gives to a batch do not add up the
  lengths of the packets before, but take only the last one: they can go back within a batch.
\<close>

theorem stamps_not_monotonic:
  "map_option (\<lambda>(n, ms). map udata64 ms)
     (dpdk_receive_with_timestamps_software (\<lambda>_. True) (\<lambda>_. 1000)
        (\<lambda>_. [\<lparr>m_id = 1, pkt_len = 1500, data_len = 1500, udata64 = 0, no_crc = False\<rparr>,
              \<lparr>m_id = 2, pkt_len = 60, data_len = 60, udata64 = 0, no_crc = False\<rparr>,
              \<lparr>m_id = 3, pkt_len = 60, data_len = 60, udata64 = 0, no_crc = False\<rparr>]) 2 64) =
   Some [1000, 4048, 1168]"
  by (simp add: dpdk_receive_with_timestamps_software_def receive_loop_software.simps)

end
