(* ===== verification/Crc_Limiter.thy ===== *)
theory Crc_Limiter
  imports Device_Laws
begin

text \<open>
  \<^verbatim>\<open>MoonGen/src/crc-rate-limiter.c\<close>: packets are spaced by filling the gaps between them with packets that
  have a bad checksum and that the receiver drops. The thread local variable \<^verbatim>\<open>leftover_delay\<close>, the memory pool,
  the array of packets to be sent, the counters and the queue of the card are the state.
\<close>

record limiter =
  leftover_delay :: u64
  pool :: "tx_mbuf list"
  pkts :: "tx_mbuf list"
  num_bad_pkts :: u32
  num_bad_bytes :: u32
  freed :: "tx_mbuf list"
  queue :: "tx_mbuf txq"

definition RTE_MAX_ETHPORTS :: nat where "RTE_MAX_ETHPORTS = 32"

record bad_stats =
  bad_pkts_sent :: "u64 list"
  bad_bytes_sent :: "u64 list"

definition moongen_get_bad_pkts_sent :: "bad_stats \<Rightarrow> byte \<Rightarrow> u64 option" where
  "moongen_get_bad_pkts_sent g port_id =
     (if unat port_id < length (bad_pkts_sent g) then Some (bad_pkts_sent g ! unat port_id) else None)"

definition moongen_get_bad_bytes_sent :: "bad_stats \<Rightarrow> byte \<Rightarrow> u64 option" where
  "moongen_get_bad_bytes_sent g port_id =
     (if unat port_id < length (bad_bytes_sent g) then Some (bad_bytes_sent g ! unat port_id) else None)"

section \<open>One delay packet\<close>

definition packet_size :: "u64 \<Rightarrow> u64" where
  "packet_size delay = (if delay < 1538 then delay else if delay > 2000 then 1538 else delay div 2)"

text \<open>A pool without a free buffer makes the function write through a null pointer: \<open>None\<close>.\<close>

definition get_delay_pkt_bad_crc :: "u32 \<Rightarrow> u32 \<Rightarrow> limiter \<Rightarrow> (tx_mbuf option \<times> u32 \<times> limiter) option" where
  "get_delay_pkt_bad_crc rem_delay min_pkt_size s =
     (let delay = ucast rem_delay + leftover_delay s; s = s\<lparr>leftover_delay := 0\<rparr>
      in if delay < ucast min_pkt_size then Some (None, 0, s\<lparr>leftover_delay := delay\<rparr>)
         else
           let delay = packet_size delay;
               rem_delay = (if delay > ucast rem_delay then 0 else ucast (ucast rem_delay - delay))
           in case rte_pktmbuf_alloc (pool s) of
                (None, _) \<Rightarrow> None
              | (Some pkt, ms) \<Rightarrow>
                  Some (Some (pkt\<lparr>data_len := ucast (delay - 20), pkt_len := ucast (delay - 20), no_crc := True\<rparr>),
                        rem_delay, s\<lparr>pool := ms\<rparr>))"

section \<open>The array of packets\<close>

definition BUF_SIZE :: nat where "BUF_SIZE = 128"

definition put_pkt :: "tx_mbuf \<Rightarrow> limiter \<Rightarrow> limiter option" where
  "put_pkt p s = (if length (pkts s) < BUF_SIZE then Some (s\<lparr>pkts := pkts s @ [p]\<rparr>) else None)"

definition send_batch :: "(nat \<Rightarrow> nat) \<Rightarrow> limiter \<Rightarrow> limiter option" where
  "send_batch accept s =
     do { q \<leftarrow> dpdk_send_all_packets accept (pkts s) (of_nat (length (pkts s))) (queue s);
          Some (s\<lparr>pkts := [], queue := q\<rparr>) }"

section \<open>The gap in front of a packet\<close>

definition count_bad :: "u32 \<Rightarrow> tx_mbuf \<Rightarrow> limiter \<Rightarrow> limiter" where
  "count_bad extra p s =
     s\<lparr>num_bad_pkts := num_bad_pkts s + 1, num_bad_bytes := num_bad_bytes s + (pkt_len p + extra)\<rparr>"

definition delay_step :: "(nat \<Rightarrow> nat) \<Rightarrow> u32 \<Rightarrow> u32 \<Rightarrow> u32 \<Rightarrow> limiter \<Rightarrow> (u32 \<times> limiter) option" where
  "delay_step accept extra min_pkt_size delay s =
     do { (p, delay1, s1) \<leftarrow> get_delay_pkt_bad_crc delay min_pkt_size s;
          s2 \<leftarrow> (case p of None \<Rightarrow> Some s1 | Some p \<Rightarrow> put_pkt p (count_bad extra p s1));
          s3 \<leftarrow> (if length (pkts s2) \<ge> BUF_SIZE then send_batch accept s2 else Some s2);
          Some (delay1, s3) }"

partial_function (option) delay_loop :: "(nat \<Rightarrow> nat) \<Rightarrow> u32 \<Rightarrow> u32 \<Rightarrow> u32 \<Rightarrow> limiter \<Rightarrow> limiter option" where
  "delay_loop accept extra min_pkt_size delay s =
     (if delay > 0
      then Option.bind (delay_step accept extra min_pkt_size delay s)
             (\<lambda>(delay1, s1). delay_loop accept extra min_pkt_size delay1 s1)
      else Some s)"

declare delay_loop.simps [code]

section \<open>Sending packets with gaps\<close>

primrec send_loop :: "(nat \<Rightarrow> nat) \<Rightarrow> u32 \<Rightarrow> tx_mbuf list \<Rightarrow> limiter \<Rightarrow> limiter option" where
  "send_loop accept min_pkt_size [] s = Some s"
| "send_loop accept min_pkt_size (p # ps) s =
     do { s1 \<leftarrow> delay_loop accept 24 min_pkt_size (ucast (udata64 p)) s;
          s2 \<leftarrow> put_pkt p s1;
          s3 \<leftarrow> (if length (pkts s2) \<ge> BUF_SIZE \<or> ps = [] then send_batch accept s2 else Some s2);
          send_loop accept min_pkt_size ps s3 }"

definition add_stats :: "byte \<Rightarrow> limiter \<Rightarrow> bad_stats \<Rightarrow> bad_stats option" where
  "add_stats port_id s g =
     (let i = unat port_id
      in if i < length (bad_pkts_sent g) \<and> i < length (bad_bytes_sent g)
         then Some \<lparr>bad_pkts_sent = (bad_pkts_sent g)[i := bad_pkts_sent g ! i + ucast (num_bad_pkts s)],
                    bad_bytes_sent = (bad_bytes_sent g)[i := bad_bytes_sent g ! i + ucast (num_bad_bytes s)]\<rparr>
         else None)"

definition moongen_send_all_packets_with_delay_bad_crc ::
  "(nat \<Rightarrow> nat) \<Rightarrow> byte \<Rightarrow> tx_mbuf list \<Rightarrow> u16 \<Rightarrow> u32 \<Rightarrow> limiter \<Rightarrow> bad_stats \<Rightarrow> (limiter \<times> bad_stats) option" where
  "moongen_send_all_packets_with_delay_bad_crc accept port_id load_pkts num_pkts min_pkt_size s g =
     (if unat num_pkts \<le> length load_pkts then
        do { s1 \<leftarrow> send_loop accept min_pkt_size (take (unat num_pkts) load_pkts)
                     (s\<lparr>pkts := [], num_bad_pkts := 0, num_bad_bytes := 0\<rparr>);
             g1 \<leftarrow> add_stats port_id s1 g;
             Some (s1, g1) }
      else None)"

section \<open>Sending packets with gaps and losses\<close>

text \<open>\<open>keep i\<close> is the outcome of the comparison of random number \<open>i\<close> with the loss rate.\<close>

primrec loss_loop :: "(nat \<Rightarrow> nat) \<Rightarrow> (nat \<Rightarrow> bool) \<Rightarrow> u32 \<Rightarrow> nat \<Rightarrow> tx_mbuf list \<Rightarrow> limiter \<Rightarrow> limiter option" where
  "loss_loop accept keep min_pkt_size i [] s = Some s"
| "loss_loop accept keep min_pkt_size i (p # ps) s =
     do { s1 \<leftarrow> delay_loop accept 0 min_pkt_size (if udata64 p > 0x0fffffff then 0 else ucast (udata64 p)) s;
          s2 \<leftarrow> (if keep i then put_pkt p s1 else Some (s1\<lparr>freed := freed s1 @ [p]\<rparr>));
          s3 \<leftarrow> (if length (pkts s2) \<ge> BUF_SIZE \<or> ps = [] then send_batch accept s2 else Some s2);
          loss_loop accept keep min_pkt_size (Suc i) ps s3 }"

definition moongen_send_all_packets_with_delay_bad_crc_loss ::
  "(nat \<Rightarrow> nat) \<Rightarrow> (nat \<Rightarrow> bool) \<Rightarrow> byte \<Rightarrow> tx_mbuf list \<Rightarrow> u16 \<Rightarrow> u32 \<Rightarrow> limiter \<Rightarrow> bad_stats \<Rightarrow>
   (limiter \<times> bad_stats) option" where
  "moongen_send_all_packets_with_delay_bad_crc_loss accept keep port_id load_pkts num_pkts min_pkt_size s g =
     (if unat num_pkts \<le> length load_pkts then
        do { s1 \<leftarrow> loss_loop accept keep min_pkt_size 0 (take (unat num_pkts) load_pkts)
                     (s\<lparr>pkts := [], num_bad_pkts := 0, num_bad_bytes := 0\<rparr>);
             g1 \<leftarrow> add_stats port_id s1 g;
             Some (s1, g1) }
      else None)"

end
