(* ===== verification/Crc_Laws.thy ===== *)
theory Crc_Laws
  imports Crc_Limiter
begin

text \<open>
  The gaps that \<^verbatim>\<open>crc-rate-limiter.c\<close> emulates: a reference definition over natural numbers, the proof
  that the code implements it, and how far the emulated gaps are from the requested ones.
\<close>

section \<open>Gaps over natural numbers\<close>

definition chunk :: "nat \<Rightarrow> nat" where
  "chunk t = (if t < 1538 then t else if 2000 < t then 1538 else t div 2)"

lemma chunk_bounds: "0 < t \<Longrightarrow> 0 < chunk t" "chunk t \<le> t" "chunk t \<le> 1538"
  by (auto simp: chunk_def)

lemma chunk_min: "m \<le> t \<Longrightarrow> m \<le> 769 \<Longrightarrow> m \<le> chunk t"
  by (auto simp: chunk_def)

text \<open>
  The sizes on the wire of the packets that fill a gap of \<open>r\<close> byte times, if \<open>l\<close> are left over from earlier
  gaps, and what is left over for the following ones.
\<close>

function gap :: "nat \<Rightarrow> nat \<Rightarrow> nat \<Rightarrow> nat list \<times> nat" where
  "gap m r l =
     (if r = 0 then ([], l)
      else if r + l < m then ([], r + l)
      else let (ds, l') = gap m (r - chunk (r + l)) 0 in (chunk (r + l) # ds, l'))"
  by pat_completeness auto
termination by (relation "measure (\<lambda>(m, r, l). r)") (auto simp: chunk_bounds)

declare gap.simps [simp del]

lemma gap_0 [simp]: "gap m 0 l = ([], l)"
  by (subst gap.simps) simp

lemma gap_short: "0 < r \<Longrightarrow> r + l < m \<Longrightarrow> gap m r l = ([], r + l)"
  by (subst gap.simps) simp

lemma gap_step:
  assumes "0 < r" and "m \<le> r + l"
  shows "gap m r l = (chunk (r + l) # fst (gap m (r - chunk (r + l)) 0), snd (gap m (r - chunk (r + l)) 0))"
  using assms by (subst gap.simps) (simp add: case_prod_beta)

lemma gap_cases:
  fixes r l m :: nat
  obtains (zero) "r = 0" | (short) "0 < r" "r + l < m" | (step) "0 < r" "m \<le> r + l"
  by fastforce

lemma gap_induct [case_names gap]:
  assumes "\<And>m r l. (0 < r \<Longrightarrow> m \<le> r + l \<Longrightarrow> P m (r - chunk (r + l)) 0) \<Longrightarrow> P m r l"
  shows "P m r (l :: nat)"
  by (rule gap.induct) (rule assms, simp)

lemma gap_exact:
  assumes "l = 0 \<or> r + l < 1538"
  shows "sum_list (fst (gap m r l)) + snd (gap m r l) = r + l"
  using assms
proof (induction m r l rule: gap_induct)
  case (gap m r l)
  show ?case
  proof (cases rule: gap_cases [where r = r and l = l and m = m])
    case step
    let ?d = "chunk (r + l)"
    have "?d + (r - ?d) = r + l" using gap.prems chunk_bounds(2) [of r] by (auto simp: chunk_def)
    then show ?thesis using gap.IH [OF step] by (simp add: gap_step [OF step])
  qed (simp_all add: gap_short)
qed

lemma gap_bounds:
  "r \<le> sum_list (fst (gap m r l)) + snd (gap m r l)" "sum_list (fst (gap m r l)) + snd (gap m r l) \<le> r + l"
proof -
  have "r \<le> sum_list (fst (gap m r l)) + snd (gap m r l) \<and> sum_list (fst (gap m r l)) + snd (gap m r l) \<le> r + l"
  proof (cases rule: gap_cases [where r = r and l = l and m = m])
    case step
    then show ?thesis
      using gap_exact [of 0 "r - chunk (r + l)" m] chunk_bounds(2) [of "r + l"] by (simp add: gap_step add.assoc) linarith
  qed (simp_all add: gap_short)
  then show "r \<le> sum_list (fst (gap m r l)) + snd (gap m r l)" "sum_list (fst (gap m r l)) + snd (gap m r l) \<le> r + l"
    by simp_all
qed

lemma gap_rest: "snd (gap m r l) = l \<or> snd (gap m r l) = 0 \<or> snd (gap m r l) < m"
proof (induction m r l rule: gap_induct)
  case (gap m r l)
  show ?case
  proof (cases rule: gap_cases [where r = r and l = l and m = m])
    case step
    then show ?thesis using gap.IH [OF step] by (auto simp: gap_step)
  qed (simp_all add: gap_short)
qed

lemma gap_sizes:
  assumes "m \<le> 769"
  shows "list_all (\<lambda>d. m \<le> d \<and> d \<le> 1538) (fst (gap m r l))"
  using assms
proof (induction m r l rule: gap_induct)
  case (gap m r l)
  show ?case
  proof (cases rule: gap_cases [where r = r and l = l and m = m])
    case step
    then show ?thesis
      using gap.IH [OF step gap.prems] chunk_min [of m "r + l"] chunk_bounds(3) [of "r + l"] gap.prems by (simp add: gap_step)
  qed (simp_all add: gap_short)
qed

section \<open>The code produces these gaps\<close>

definition bad_pkt :: "tx_mbuf \<Rightarrow> nat \<Rightarrow> tx_mbuf" where
  "bad_pkt m d = (rte_pktmbuf_reset m)\<lparr>data_len := ucast (of_nat d - 20 :: u64), pkt_len := ucast (of_nat d - 20 :: u64), no_crc := True\<rparr>"

lemma no_crc_bad_pkt [simp]: "no_crc (bad_pkt m d)"
  by (simp add: bad_pkt_def)

lemma unat_packet_size: "unat (packet_size d) = chunk (unat d)"
  by (simp add: packet_size_def chunk_def word_less_nat_alt unat_div)

lemma unat_total:
  assumes "unat (l :: u64) < 2 ^ 32"
  shows "unat (ucast (r :: u32) + l) = unat r + unat l"
proof -
  have "unat (ucast r :: u64) + unat l < 2 ^ LENGTH(64)" using assms unat_u32 [of r] by simp
  then show ?thesis by (simp add: unat_word_ariths)
qed

lemma get_delay_short:
  assumes "unat (leftover_delay s) < 2 ^ 32" and "unat delay + unat (leftover_delay s) < unat m"
  shows "\<exists>l. get_delay_pkt_bad_crc delay m s = Some (None, 0, s\<lparr>leftover_delay := l\<rparr>) \<and>
    unat l = unat delay + unat (leftover_delay s)"
  using assms unat_total [OF assms(1), of delay]
  by (intro exI [of _ "ucast delay + leftover_delay s"]) (simp add: get_delay_pkt_bad_crc_def Let_def word_less_nat_alt)

lemma get_delay_step:
  assumes "unat (leftover_delay s) < 2 ^ 32" and "unat m \<le> unat delay + unat (leftover_delay s)" and "pool s = b # bs"
  defines "d \<equiv> chunk (unat delay + unat (leftover_delay s))"
  shows "\<exists>delay1. get_delay_pkt_bad_crc delay m s = Some (Some (bad_pkt b d), delay1, s\<lparr>leftover_delay := 0, pool := bs\<rparr>) \<and>
    unat delay1 = unat delay - d"
proof -
  let ?w = "packet_size (ucast delay + leftover_delay s)"
  have w: "unat ?w = d" unfolding unat_packet_size unat_total [OF assms(1)] d_def ..
  then have wd: "?w = of_nat d" by (simp flip: w)
  let ?d1 = "if ?w > ucast delay then 0 else ucast (ucast delay - ?w) :: u32"
  have "unat ?d1 = unat delay - d"
  proof (cases "d \<le> unat delay")
    case True
    then have "unat (ucast delay - ?w :: u64) = unat delay - d" using w by (simp add: unat_sub word_le_nat_alt)
    moreover have "unat delay - d < 2 ^ 32" using unat_u32 [of delay] by linarith
    ultimately show ?thesis using True w by (simp add: word_less_nat_alt unsigned_ucast_eq take_bit_nat_eq_self)
  qed (simp add: word_less_nat_alt w)
  moreover have "get_delay_pkt_bad_crc delay m s = Some (Some (bad_pkt b d), ?d1, s\<lparr>leftover_delay := 0, pool := bs\<rparr>)"
    using assms(2,3) unat_total [OF assms(1), of delay]
    by (simp add: get_delay_pkt_bad_crc_def Let_def word_less_nat_alt rte_pktmbuf_alloc_def bad_pkt_def wd)
  ultimately show ?thesis by blast
qed

text \<open>What has been sent and what waits in the array, and how the state changes when \<open>ps\<close> are put behind it.\<close>

definition out :: "limiter \<Rightarrow> tx_mbuf list" where
  "out s = wire (queue s) @ pkts s"

definition fills :: "u32 \<Rightarrow> limiter \<Rightarrow> tx_mbuf list \<Rightarrow> nat \<Rightarrow> limiter \<Rightarrow> bool" where
  "fills extra s ps l s' \<longleftrightarrow> length (pkts s') < BUF_SIZE \<and> out s' = out s @ ps \<and> unat (leftover_delay s') = l \<and>
     pool s' = drop (length ps) (pool s) \<and> num_bad_pkts s' = num_bad_pkts s + of_nat (length ps) \<and>
     num_bad_bytes s' = num_bad_bytes s + (\<Sum>p\<leftarrow>ps. pkt_len p + extra) \<and> freed s' = freed s"

lemma fills_trans: "fills extra s ps l s1 \<Longrightarrow> fills extra s1 qs l' s2 \<Longrightarrow> fills extra s (ps @ qs) l' s2"
  by (auto simp: fills_def add_ac)

lemma send_batch_ok:
  assumes "drains accept" and "length (pkts s) \<le> BUF_SIZE"
  shows "\<exists>q. send_batch accept s = Some (s\<lparr>pkts := [], queue := q\<rparr>) \<and> wire q = out s"
  using dpdk_send_all_packets_ok [OF assms(1), of "pkts s" "queue s"] assms(2)
  by (auto simp: send_batch_def out_def BUF_SIZE_def)

text \<open>Sending the array when it is full, or for the last packet.\<close>

lemma maybe_send_ok:
  assumes "drains accept" and "length (pkts s) \<le> BUF_SIZE"
  shows "\<exists>s'. (if length (pkts s) \<ge> BUF_SIZE \<or> b then send_batch accept s else Some s) = Some s' \<and>
    length (pkts s') < BUF_SIZE \<and> out s' = out s \<and> (b \<longrightarrow> pkts s' = []) \<and> leftover_delay s' = leftover_delay s \<and>
    pool s' = pool s \<and> num_bad_pkts s' = num_bad_pkts s \<and> num_bad_bytes s' = num_bad_bytes s \<and> freed s' = freed s"
proof (cases "length (pkts s) \<ge> BUF_SIZE \<or> b")
  case True
  obtain q where "send_batch accept s = Some (s\<lparr>pkts := [], queue := q\<rparr>)" "wire q = out s"
    using send_batch_ok [OF assms] by blast
  then show ?thesis using True by (auto simp: out_def BUF_SIZE_def)
qed auto

lemma delay_step_short:
  assumes "length (pkts s) < BUF_SIZE" and "unat (leftover_delay s) < 2 ^ 32"
    and "unat delay + unat (leftover_delay s) < unat m"
  shows "\<exists>s'. delay_step accept extra m delay s = Some (0, s') \<and> fills extra s [] (unat delay + unat (leftover_delay s)) s'"
  using get_delay_short [OF assms(2,3)] assms(1) by (auto simp: delay_step_def fills_def out_def)

lemma delay_step_step:
  assumes "drains accept" and "length (pkts s) < BUF_SIZE" and "unat (leftover_delay s) < 2 ^ 32"
    and "unat m \<le> unat delay + unat (leftover_delay s)" and "pool s = b # bs"
  defines "d \<equiv> chunk (unat delay + unat (leftover_delay s))"
  shows "\<exists>delay1 s'. delay_step accept extra m delay s = Some (delay1, s') \<and> unat delay1 = unat delay - d \<and>
    fills extra s [bad_pkt b d] 0 s'"
proof -
  let ?s1 = "count_bad extra (bad_pkt b d) (s\<lparr>leftover_delay := 0, pool := bs\<rparr>)"
  let ?s2 = "?s1\<lparr>pkts := pkts s @ [bad_pkt b d]\<rparr>"
  obtain delay1 where g: "get_delay_pkt_bad_crc delay m s = Some (Some (bad_pkt b d), delay1, s\<lparr>leftover_delay := 0, pool := bs\<rparr>)"
    "unat delay1 = unat delay - d" using get_delay_step [OF assms(3-5)] unfolding d_def by blast
  have p: "put_pkt (bad_pkt b d) ?s1 = Some ?s2" using assms(2) by (simp add: put_pkt_def count_bad_def)
  have "length (pkts ?s2) \<le> BUF_SIZE" using assms(2) by simp
  from maybe_send_ok [OF assms(1) this, of False] obtain s' where
    "(if length (pkts ?s2) \<ge> BUF_SIZE then send_batch accept ?s2 else Some ?s2) = Some s'" and
    s': "length (pkts s') < BUF_SIZE \<and> out s' = out ?s2 \<and> leftover_delay s' = leftover_delay ?s2 \<and>
      pool s' = pool ?s2 \<and> num_bad_pkts s' = num_bad_pkts ?s2 \<and> num_bad_bytes s' = num_bad_bytes ?s2 \<and> freed s' = freed ?s2"
    by auto
  then have "delay_step accept extra m delay s = Some (delay1, s')" by (simp add: delay_step_def g p)
  moreover have "fills extra s [bad_pkt b d] 0 s'"
    using s' assms(5) by (simp add: fills_def out_def count_bad_def)
  ultimately show ?thesis using g(2) by blast
qed

lemma delay_loop_ok:
  assumes "drains accept" and "length (pkts s) < BUF_SIZE" and "unat (leftover_delay s) < 2 ^ 32"
    and "gap (unat m) (unat delay) (unat (leftover_delay s)) = (ds, l)" and "length ds \<le> length (pool s)"
  shows "\<exists>s'. delay_loop accept extra m delay s = Some s' \<and> fills extra s (map2 bad_pkt (pool s) ds) l s'"
  using assms(2-)
proof (induction "unat delay" arbitrary: delay s ds rule: less_induct)
  case less
  let ?l = "unat (leftover_delay s)"
  show ?case
  proof (cases rule: gap_cases [where r = "unat delay" and l = ?l and m = "unat m"])
    case zero
    then show ?thesis using less.prems by (subst delay_loop.simps) (auto simp: fills_def unat_eq_0)
  next
    case short
    then obtain s' where "delay_step accept extra m delay s = Some (0, s')" "fills extra s [] (unat delay + ?l) s'"
      using delay_step_short [OF less.prems(1,2)] by blast
    then show ?thesis using short less.prems(3)
      by (subst delay_loop.simps) (auto simp: gap_short word_less_nat_alt delay_loop.simps [of _ _ _ 0])
  next
    case step
    let ?d = "chunk (unat delay + ?l)" and ?g = "gap (unat m) (unat delay - chunk (unat delay + ?l)) 0"
    have ds: "ds = ?d # fst ?g" and l: "l = snd ?g" using less.prems(3) by (simp_all add: gap_step [OF step])
    then obtain b bs where b: "pool s = b # bs" using less.prems(4) by (cases "pool s") auto
    obtain delay1 s1 where s1: "delay_step accept extra m delay s = Some (delay1, s1)" "unat delay1 = unat delay - ?d"
        "fills extra s [bad_pkt b ?d] 0 s1"
      using delay_step_step [OF assms(1) less.prems(1,2) step(2) b] by blast
    then have pre: "length (pkts s1) < BUF_SIZE" "unat (leftover_delay s1) = 0" "pool s1 = bs"
      using b by (simp_all add: fills_def)
    have "\<exists>s'. delay_loop accept extra m delay1 s1 = Some s' \<and> fills extra s1 (map2 bad_pkt (pool s1) (fst ?g)) l s'"
      using less.prems(4) s1(2) pre step(1) chunk_bounds(1) [of "unat delay + ?l"]
      by (intro less.hyps) (auto simp: ds l b)
    then show ?thesis using s1(1,3) step(1) fills_trans [OF s1(3)] pre(3)
      by (subst delay_loop.simps) (force simp: ds b word_less_nat_alt)
  qed
qed

section \<open>Gaps in front of several packets\<close>

primrec gaps :: "nat \<Rightarrow> nat \<Rightarrow> nat list \<Rightarrow> nat list list \<times> nat" where
  "gaps m l [] = ([], l)"
| "gaps m l (r # rs) = (fst (gap m r l) # fst (gaps m (snd (gap m r l)) rs), snd (gaps m (snd (gap m r l)) rs))"

primrec weave :: "tx_mbuf list \<Rightarrow> (nat \<Rightarrow> bool) \<Rightarrow> nat \<Rightarrow> nat list list \<Rightarrow> tx_mbuf list \<Rightarrow> tx_mbuf list" where
  "weave ms keep i [] ps = []"
| "weave ms keep i (ds # dss) ps =
     map2 bad_pkt ms ds @ (if keep i then [hd ps] else []) @ weave (drop (length ds) ms) keep (Suc i) dss (tl ps)"

definition sends :: "u32 \<Rightarrow> limiter \<Rightarrow> tx_mbuf list \<Rightarrow> tx_mbuf list \<Rightarrow> nat \<Rightarrow> limiter \<Rightarrow> bool" where
  "sends extra s ps fs l s' \<longleftrightarrow> length (pkts s') < BUF_SIZE \<and> out s' = out s @ ps \<and> unat (leftover_delay s') = l \<and>
     pool s' = drop (length (filter no_crc ps)) (pool s) \<and>
     num_bad_pkts s' = num_bad_pkts s + of_nat (length (filter no_crc ps)) \<and>
     num_bad_bytes s' = num_bad_bytes s + (\<Sum>p\<leftarrow>filter no_crc ps. pkt_len p + extra) \<and> freed s' = freed s @ fs"

lemma sends_trans: "sends extra s ps fs l s1 \<Longrightarrow> sends extra s1 qs gs l' s2 \<Longrightarrow> sends extra s (ps @ qs) (fs @ gs) l' s2"
  by (auto simp: sends_def add_ac)

lemma filter_bad_pkts: "filter no_crc (map2 bad_pkt ms ds) = map2 bad_pkt ms ds"
  by (rule filter_True) (auto dest: set_zip_leftD)

lemma filter_good_pkts: "filter (\<lambda>p. \<not> no_crc p) (map2 bad_pkt ms ds) = []"
  by (rule filter_False) (auto dest: set_zip_leftD)

lemma fills_sends: "fills extra s (map2 bad_pkt ms ds) l s' \<Longrightarrow> sends extra s (map2 bad_pkt ms ds) [] l s'"
  by (simp add: fills_def sends_def filter_bad_pkts)

text \<open>The end of one round of either loop: the packet, if it is kept, and the array if it is full.\<close>

lemma round_end_ok:
  assumes "drains accept" and "length (pkts s) < BUF_SIZE" and "\<not> no_crc p"
  shows "\<exists>s2 s'. (if k then put_pkt p s else Some (s\<lparr>freed := freed s @ [p]\<rparr>)) = Some s2 \<and>
    (if length (pkts s2) \<ge> BUF_SIZE \<or> b then send_batch accept s2 else Some s2) = Some s' \<and>
    sends extra s (if k then [p] else []) (if k then [] else [p]) (unat (leftover_delay s)) s' \<and> (b \<longrightarrow> pkts s' = [])"
proof -
  let ?s2 = "if k then s\<lparr>pkts := pkts s @ [p]\<rparr> else s\<lparr>freed := freed s @ [p]\<rparr>"
  have "length (pkts ?s2) \<le> BUF_SIZE" using assms(2) by simp
  from maybe_send_ok [OF assms(1) this, of b] obtain s' where
    s': "(if length (pkts ?s2) \<ge> BUF_SIZE \<or> b then send_batch accept ?s2 else Some ?s2) = Some s'" "length (pkts s') < BUF_SIZE"
    "out s' = out ?s2" "b \<longrightarrow> pkts s' = []" "leftover_delay s' = leftover_delay ?s2"
    "pool s' = pool ?s2" "num_bad_pkts s' = num_bad_pkts ?s2" "num_bad_bytes s' = num_bad_bytes ?s2" "freed s' = freed ?s2"
    by blast
  have "sends extra s (if k then [p] else []) (if k then [] else [p]) (unat (leftover_delay s)) s'"
    using s'(2,3,5-9) assms(3) by (simp add: sends_def out_def)
  moreover have "(if k then put_pkt p s else Some (s\<lparr>freed := freed s @ [p]\<rparr>)) = Some ?s2"
    using assms(2) by (simp add: put_pkt_def)
  ultimately show ?thesis using s'(1,4) by blast
qed

lemma round_ok:
  assumes "drains accept" and "length (pkts s) < BUF_SIZE" and "unat (leftover_delay s) < 2 ^ 32" and "\<not> no_crc p"
    and "length (fst (gap (unat m) (unat delay) (unat (leftover_delay s)))) \<le> length (pool s)"
  defines "g \<equiv> gap (unat m) (unat delay) (unat (leftover_delay s))"
  shows "\<exists>s1 s2 s3. delay_loop accept extra m delay s = Some s1 \<and>
    (if k then put_pkt p s1 else Some (s1\<lparr>freed := freed s1 @ [p]\<rparr>)) = Some s2 \<and>
    (if length (pkts s2) \<ge> BUF_SIZE \<or> b then send_batch accept s2 else Some s2) = Some s3 \<and>
    sends extra s (map2 bad_pkt (pool s) (fst g) @ (if k then [p] else [])) (if k then [] else [p]) (snd g) s3 \<and>
    (b \<longrightarrow> pkts s3 = []) \<and> unat (leftover_delay s3) < 2 ^ 32 \<and> pool s3 = drop (length (fst g)) (pool s)"
proof -
  obtain s1 where s1: "delay_loop accept extra m delay s = Some s1" "fills extra s (map2 bad_pkt (pool s) (fst g)) (snd g) s1"
    using delay_loop_ok [OF assms(1-3) _ assms(5)] unfolding g_def by (metis prod.collapse)
  then have l: "length (pkts s1) < BUF_SIZE" "unat (leftover_delay s1) = snd g" by (auto simp: fills_def)
  obtain s2 s3 where s3: "(if k then put_pkt p s1 else Some (s1\<lparr>freed := freed s1 @ [p]\<rparr>)) = Some s2"
      "(if length (pkts s2) \<ge> BUF_SIZE \<or> b then send_batch accept s2 else Some s2) = Some s3"
      "sends extra s1 (if k then [p] else []) (if k then [] else [p]) (snd g) s3" "b \<longrightarrow> pkts s3 = []"
    using round_end_ok [OF assms(1) l(1) assms(4), of k b extra] unfolding l(2) by blast
  have t: "sends extra s (map2 bad_pkt (pool s) (fst g) @ (if k then [p] else [])) (if k then [] else [p]) (snd g) s3"
    using sends_trans [OF fills_sends [OF s1(2)] s3(3)] by simp
  have "snd g < 2 ^ 32" using gap_rest [of "unat m" "unat delay" "unat (leftover_delay s)"] assms(3) unat_u32 [of m]
    unfolding g_def by auto
  moreover have "pool s3 = drop (length (fst g)) (pool s)"
    using t assms(4,5) by (simp add: sends_def filter_bad_pkts g_def)
  ultimately show ?thesis using s1(1) s3 t by (auto simp: sends_def)
qed

definition delay_of :: "tx_mbuf \<Rightarrow> nat" where
  "delay_of p = unat (ucast (udata64 p) :: u32)"

lemma send_loop_ok:
  assumes "drains accept"
  shows "length (pkts s) < BUF_SIZE \<Longrightarrow> unat (leftover_delay s) < 2 ^ 32 \<Longrightarrow> list_all (\<lambda>p. \<not> no_crc p) ps \<Longrightarrow>
    gaps (unat m) (unat (leftover_delay s)) (map delay_of ps) = (dss, l) \<Longrightarrow>
    sum_list (map length dss) \<le> length (pool s) \<Longrightarrow>
    \<exists>s'. send_loop accept m ps s = Some s' \<and> sends 24 s (weave (pool s) (\<lambda>_. True) i dss ps) [] l s' \<and> (ps \<noteq> [] \<longrightarrow> pkts s' = [])"
proof (induction ps arbitrary: s i dss)
  case Nil
  then show ?case by (auto simp: sends_def)
next
  case (Cons p ps)
  let ?g = "gap (unat m) (delay_of p) (unat (leftover_delay s))"
  obtain dss' where dss: "dss = fst ?g # dss'" "gaps (unat m) (snd ?g) (map delay_of ps) = (dss', l)"
    using Cons.prems(4) by (auto simp: prod_eq_iff)
  have "length (fst ?g) \<le> length (pool s)" using Cons.prems(5) dss(1) by simp
  then obtain s1 s2 s3 where s3: "delay_loop accept 24 m (ucast (udata64 p)) s = Some s1" "put_pkt p s1 = Some s2"
      "(if length (pkts s2) \<ge> BUF_SIZE \<or> ps = [] then send_batch accept s2 else Some s2) = Some s3"
      "sends 24 s (map2 bad_pkt (pool s) (fst ?g) @ [p]) [] (snd ?g) s3" "ps = [] \<longrightarrow> pkts s3 = []"
      "unat (leftover_delay s3) < 2 ^ 32" "pool s3 = drop (length (fst ?g)) (pool s)"
    using round_ok [OF assms Cons.prems(1,2), of p m "ucast (udata64 p)" 24 True "ps = []"] Cons.prems(3)
    by (auto simp: delay_of_def)
  moreover have "length (pkts s3) < BUF_SIZE" "unat (leftover_delay s3) = snd ?g" using s3(4) by (auto simp: sends_def)
  moreover have "sum_list (map length dss') \<le> length (pool s3)" using Cons.prems(5) dss(1) s3(7) by simp
  ultimately obtain s' where "send_loop accept m ps s3 = Some s'" "sends 24 s3 (weave (pool s3) (\<lambda>_. True) (Suc i) dss' ps) [] l s'"
      "ps \<noteq> [] \<longrightarrow> pkts s' = []"
    using Cons.IH [of s3 dss' "Suc i"] Cons.prems(3) dss(2) by auto
  then show ?case using s3 sends_trans [OF s3(4)] by (cases ps) (force simp: dss(1))+
qed

definition loss_delay_of :: "tx_mbuf \<Rightarrow> nat" where
  "loss_delay_of p = (if udata64 p > 0x0fffffff then 0 else delay_of p)"

primrec lost_pkts :: "(nat \<Rightarrow> bool) \<Rightarrow> nat \<Rightarrow> tx_mbuf list \<Rightarrow> tx_mbuf list" where
  "lost_pkts keep i [] = []"
| "lost_pkts keep i (p # ps) = (if keep i then [] else [p]) @ lost_pkts keep (Suc i) ps"

lemma loss_loop_ok:
  assumes "drains accept"
  shows "length (pkts s) < BUF_SIZE \<Longrightarrow> unat (leftover_delay s) < 2 ^ 32 \<Longrightarrow> list_all (\<lambda>p. \<not> no_crc p) ps \<Longrightarrow>
    gaps (unat m) (unat (leftover_delay s)) (map loss_delay_of ps) = (dss, l) \<Longrightarrow>
    sum_list (map length dss) \<le> length (pool s) \<Longrightarrow>
    \<exists>s'. loss_loop accept keep m i ps s = Some s' \<and> sends 0 s (weave (pool s) keep i dss ps) (lost_pkts keep i ps) l s' \<and>
      (ps \<noteq> [] \<longrightarrow> pkts s' = [])"
proof (induction ps arbitrary: s i dss)
  case Nil
  then show ?case by (auto simp: sends_def)
next
  case (Cons p ps)
  let ?g = "gap (unat m) (loss_delay_of p) (unat (leftover_delay s))"
  let ?delay = "if udata64 p > 0x0fffffff then 0 else ucast (udata64 p) :: u32"
  have d: "unat ?delay = loss_delay_of p" by (simp add: loss_delay_of_def delay_of_def)
  obtain dss' where dss: "dss = fst ?g # dss'" "gaps (unat m) (snd ?g) (map loss_delay_of ps) = (dss', l)"
    using Cons.prems(4) by (auto simp: prod_eq_iff)
  have "length (fst ?g) \<le> length (pool s)" using Cons.prems(5) dss(1) by simp
  then obtain s1 s2 s3 where s3: "delay_loop accept 0 m ?delay s = Some s1"
      "(if keep i then put_pkt p s1 else Some (s1\<lparr>freed := freed s1 @ [p]\<rparr>)) = Some s2"
      "(if length (pkts s2) \<ge> BUF_SIZE \<or> ps = [] then send_batch accept s2 else Some s2) = Some s3"
      "sends 0 s (map2 bad_pkt (pool s) (fst ?g) @ (if keep i then [p] else [])) (if keep i then [] else [p]) (snd ?g) s3"
      "ps = [] \<longrightarrow> pkts s3 = []" "unat (leftover_delay s3) < 2 ^ 32" "pool s3 = drop (length (fst ?g)) (pool s)"
    using round_ok [OF assms Cons.prems(1,2), of p m ?delay 0 "keep i" "ps = []"] Cons.prems(3) unfolding d by auto
  moreover have "length (pkts s3) < BUF_SIZE" "unat (leftover_delay s3) = snd ?g" using s3(4) by (auto simp: sends_def)
  moreover have "sum_list (map length dss') \<le> length (pool s3)" using Cons.prems(5) dss(1) s3(7) by simp
  ultimately obtain s' where "loss_loop accept keep m (Suc i) ps s3 = Some s'"
      "sends 0 s3 (weave (pool s3) keep (Suc i) dss' ps) (lost_pkts keep (Suc i) ps) l s'" "ps \<noteq> [] \<longrightarrow> pkts s' = []"
    using Cons.IH [of s3 dss' "Suc i"] Cons.prems(3) dss(2) by auto
  moreover from sends_trans [OF s3(4) this(2)]
  have "sends 0 s (weave (pool s) keep i dss (p # ps)) (lost_pkts keep i (p # ps)) l s'" by (simp add: dss(1) s3(7) split: if_splits)
  ultimately show ?case using s3(1-3,5) by (cases ps) auto
qed

end
