(* ===== verification/Crc_Props.thy ===== *)
theory Crc_Props
  imports Crc_Laws "HOL-Library.Multiset" "HOL-Library.Sublist"
begin

text \<open>
  The guarantees of \<^verbatim>\<open>crc-rate-limiter.c\<close>: no packet is lost or reordered, the gaps are never longer than
  requested and the error stays below the minimum packet size, unless a gap is long enough for several delay packets
  and something was left over before it, in which case the left over part is lost.
\<close>

section \<open>Sums of gaps\<close>

lemma length_gaps [simp]: "length (fst (gaps m l rs)) = length rs"
  by (induction rs arbitrary: l) simp_all

lemma gaps_upper: "sum_list (concat (fst (gaps m l rs))) + snd (gaps m l rs) \<le> sum_list rs + l"
proof (induction rs arbitrary: l)
  case (Cons r rs)
  from Cons.IH [of "snd (gap m r l)"] show ?case using gap_bounds(2) [of m r l] by simp
qed simp

lemma gaps_rest: "l < m \<Longrightarrow> snd (gaps m l rs) < m"
proof (induction rs arbitrary: l)
  case (Cons r rs)
  then show ?case using gap_rest [of m r l] by auto
qed simp

lemma gaps_lower:
  "l < m \<Longrightarrow> sum_list rs + l \<le> sum_list (concat (fst (gaps m l rs))) + snd (gaps m l rs) + length rs * (m - 1)"
proof (induction rs arbitrary: l)
  case (Cons r rs)
  have "snd (gap m r l) < m" using Cons.prems gap_rest [of m r l] by auto
  from Cons.IH [OF this] show ?case using gap_bounds(1) [of r m l] Cons.prems by simp
qed simp

lemma gaps_exact:
  "l < m \<Longrightarrow> list_all (\<lambda>r. r + m \<le> 1538) rs \<Longrightarrow>
   sum_list (concat (fst (gaps m l rs))) + snd (gaps m l rs) = sum_list rs + l"
proof (induction rs arbitrary: l)
  case (Cons r rs)
  have "snd (gap m r l) < m" using Cons.prems gap_rest [of m r l] by auto
  from Cons.IH [OF this] show ?case using gap_exact [of l r m] Cons.prems by auto
qed simp

lemma gaps_sizes: "m \<le> 769 \<Longrightarrow> list_all (list_all (\<lambda>d. m \<le> d \<and> d \<le> 1538)) (fst (gaps m l rs))"
  using gap_sizes by (induction rs arbitrary: l) simp_all

lemma count_le_sum: "list_all (list_all (\<lambda>d. m \<le> d \<and> d \<le> c)) dss \<Longrightarrow> sum_list (map length dss) * m \<le> sum_list (concat dss)"
proof (induction dss)
  case (Cons ds dss)
  have "list_all (\<lambda>d. m \<le> d \<and> d \<le> c) ds \<Longrightarrow> length ds * m \<le> sum_list ds"
    by (induction ds) auto
  then show ?case using Cons by (simp add: algebra_simps)
qed simp

section \<open>Times on the wire\<close>

text \<open>
  A packet takes, with preamble, start of frame delimiter and inter frame gap, 20 byte times more than its
  length; these packets have no checksum behind them.
\<close>

definition wire_time :: "tx_mbuf list \<Rightarrow> nat" where
  "wire_time ps = (\<Sum>p\<leftarrow>filter no_crc ps. unat (pkt_len p) + 20)"

lemma unat_bad_len: "20 \<le> d \<Longrightarrow> d \<le> 1538 \<Longrightarrow> unat (pkt_len (bad_pkt m d)) = d - 20"
proof -
  assume d: "20 \<le> d" "d \<le> 1538"
  then have "unat (of_nat d :: u64) = d" by (simp add: unsigned_of_nat take_bit_nat_eq_self)
  then have "unat (of_nat d - 20 :: u64) = d - 20" using d(1) by (simp add: unat_sub word_le_nat_alt)
  then show ?thesis using d by (simp add: bad_pkt_def unsigned_ucast_eq take_bit_nat_eq_self)
qed

lemma wire_time_bad:
  "list_all (\<lambda>d. 20 \<le> d \<and> d \<le> 1538) ds \<Longrightarrow> length ds \<le> length ms \<Longrightarrow> wire_time (map2 bad_pkt ms ds) = sum_list ds"
proof (induction ds arbitrary: ms)
  case (Cons d ds)
  then show ?case by (cases ms) (auto simp: wire_time_def unat_bad_len)
qed (simp add: wire_time_def)

lemma wire_time_append: "wire_time (xs @ ys) = wire_time xs + wire_time ys"
  by (simp add: wire_time_def)

lemma wire_time_weave:
  "list_all (list_all (\<lambda>d. 20 \<le> d \<and> d \<le> 1538)) dss \<Longrightarrow> sum_list (map length dss) \<le> length ms \<Longrightarrow>
   length dss = length ps \<Longrightarrow> list_all (\<lambda>p. \<not> no_crc p) ps \<Longrightarrow>
   wire_time (weave ms keep i dss ps) = sum_list (concat dss)"
proof (induction dss arbitrary: ms i ps)
  case (Cons ds dss)
  then obtain p qs where "ps = p # qs" by (cases ps) auto
  moreover have "wire_time [p] = 0" "wire_time [] = 0" using Cons.prems(4) calculation by (simp_all add: wire_time_def)
  ultimately show ?case using Cons by (simp add: wire_time_append wire_time_bad)
qed (simp add: wire_time_def)

lemma good_weave:
  "length dss = length ps \<Longrightarrow> list_all (\<lambda>p. \<not> no_crc p) ps \<Longrightarrow> filter (\<lambda>p. \<not> no_crc p) (weave ms (\<lambda>_. True) i dss ps) = ps"
proof (induction dss arbitrary: ms i ps)
  case (Cons ds dss)
  then show ?case by (cases ps) (simp_all add: filter_good_pkts)
qed simp

lemma lost_weave:
  "length dss = length ps \<Longrightarrow> list_all (\<lambda>p. \<not> no_crc p) ps \<Longrightarrow>
   mset (filter (\<lambda>p. \<not> no_crc p) (weave ms keep i dss ps)) + mset (lost_pkts keep i ps) = mset ps \<and>
   subseq (filter (\<lambda>p. \<not> no_crc p) (weave ms keep i dss ps)) ps"
proof (induction dss arbitrary: ms i ps)
  case (Cons ds dss)
  then show ?case by (cases ps) (auto simp: filter_good_pkts)
qed simp

section \<open>The functions\<close>

definition fresh :: "limiter \<Rightarrow> limiter" where
  "fresh s = s\<lparr>pkts := [], num_bad_pkts := 0, num_bad_bytes := 0\<rparr>"

definition stats_added :: "byte \<Rightarrow> nat \<Rightarrow> u32 \<Rightarrow> bad_stats \<Rightarrow> bad_stats \<Rightarrow> bool" where
  "stats_added port_id n bytes g g' \<longleftrightarrow>
     moongen_get_bad_pkts_sent g' port_id = map_option (\<lambda>c. c + ucast (of_nat n :: u32)) (moongen_get_bad_pkts_sent g port_id) \<and>
     moongen_get_bad_bytes_sent g' port_id = map_option (\<lambda>c. c + ucast bytes) (moongen_get_bad_bytes_sent g port_id)"

definition stats_ok :: "bad_stats \<Rightarrow> byte \<Rightarrow> bool" where
  "stats_ok g port_id \<longleftrightarrow> length (bad_pkts_sent g) = RTE_MAX_ETHPORTS \<and> length (bad_bytes_sent g) = RTE_MAX_ETHPORTS \<and>
     unat port_id < RTE_MAX_ETHPORTS"

lemma add_stats_ok:
  assumes "stats_ok g port_id" and "num_bad_pkts s = of_nat n"
  shows "\<exists>g'. add_stats port_id s g = Some g' \<and> stats_added port_id n (num_bad_bytes s) g g'"
  using assms by (auto simp: add_stats_def stats_added_def stats_ok_def Let_def
    moongen_get_bad_pkts_sent_def moongen_get_bad_bytes_sent_def)

text \<open>A pool that is large enough: one buffer for every \<open>m\<close> byte times.\<close>

lemma pool_suffices:
  assumes "0 < m" and "m \<le> 769" and "sum_list rs + l \<le> m * b"
  shows "sum_list (map length (fst (gaps m l rs))) \<le> b"
proof -
  have "sum_list (map length (fst (gaps m l rs))) * m \<le> sum_list (concat (fst (gaps m l rs)))"
    by (rule count_le_sum [OF gaps_sizes [OF assms(2)]])
  also have "\<dots> \<le> m * b" using gaps_upper [of m l rs] assms(3) by simp
  finally show ?thesis using assms(1) by simp
qed

lemma sends_wire:
  assumes "sends extra (fresh s) ps fs l s'" and "pkts s' = []"
  shows "wire (queue s') = wire (queue s) @ ps" and "num_bad_pkts s' = of_nat (length (filter no_crc ps))"
    and "num_bad_bytes s' = (\<Sum>p\<leftarrow>filter no_crc ps. pkt_len p + extra)"
  using assms by (auto simp: sends_def out_def fresh_def)

lemma send_with_delay_spec:
  fixes accept :: "nat \<Rightarrow> nat"
  assumes "drains accept" and "stats_ok g port" and "list_all (\<lambda>p. \<not> no_crc p) ps" and "ps \<noteq> []" and "length ps < 2 ^ 16"
    and "20 \<le> unat m" and "unat m \<le> 769" and "unat (leftover_delay s) < unat m"
    and "(\<Sum>p\<leftarrow>ps. delay_of p) + unat (leftover_delay s) \<le> unat m * length (pool s)"
  shows "\<exists>s' g' new. moongen_send_all_packets_with_delay_bad_crc accept port ps (of_nat (length ps)) m s g = Some (s', g') \<and>
    wire (queue s') = wire (queue s) @ new \<and> filter (\<lambda>p. \<not> no_crc p) new = ps \<and>
    (let dss = gaps (unat m) (unat (leftover_delay s)) (map delay_of ps)
     in wire_time new = sum_list (concat (fst dss)) \<and> unat (leftover_delay s') = snd dss) \<and>
    stats_added port (length (filter no_crc new)) (\<Sum>p\<leftarrow>filter no_crc new. pkt_len p + 24) g g'"
proof -
  let ?G = "gaps (unat m) (unat (leftover_delay s)) (map delay_of ps)"
  let ?new = "weave (pool s) (\<lambda>_. True) 0 (fst ?G) ps"
  have b: "sum_list (map length (fst ?G)) \<le> length (pool (fresh s))"
    using pool_suffices [OF _ assms(7,9)] assms(6) by (simp add: fresh_def)
  have "unat (leftover_delay (fresh s)) < 2 ^ 32" "length (pkts (fresh s)) < BUF_SIZE"
    using assms(8) unat_u32 [of m] by (auto simp: fresh_def BUF_SIZE_def)
  then obtain s' where s': "send_loop accept m ps (fresh s) = Some s'" "sends 24 (fresh s) ?new [] (snd ?G) s'" "pkts s' = []"
    using send_loop_ok [OF assms(1) _ _ assms(3) _ b, of m "snd ?G" 0] assms(4) by (auto simp: fresh_def)
  note w = sends_wire [OF s'(2,3)]
  obtain g' where g': "add_stats port s' g = Some g'"
      "stats_added port (length (filter no_crc ?new)) (num_bad_bytes s') g g'"
    using add_stats_ok [OF assms(2) w(2)] by blast
  have "wire_time ?new = sum_list (concat (fst ?G))"
    using gaps_sizes [OF assms(7), of "unat (leftover_delay s)" "map delay_of ps"] assms(3,6) b
    by (intro wire_time_weave) (auto simp: list_all_iff fresh_def intro: order_trans)
  moreover have "filter (\<lambda>p. \<not> no_crc p) ?new = ps" using assms(3) by (intro good_weave) simp_all
  moreover have "moongen_send_all_packets_with_delay_bad_crc accept port ps (of_nat (length ps)) m s g = Some (s', g')"
    using assms(5) s'(1) g'(1) by (simp add: moongen_send_all_packets_with_delay_bad_crc_def unat_of_nat_u16 fresh_def)
  moreover have "unat (leftover_delay s') = snd ?G" using s'(2) by (simp add: sends_def)
  ultimately show ?thesis using w(1,3) g'(2) unfolding Let_def by (metis (no_types))
qed


definition example_limiter :: "nat \<Rightarrow> limiter" where
  "example_limiter n = \<lparr>leftover_delay = 0, pool = replicate n \<lparr>m_id = 0, pkt_len = 0, data_len = 0, udata64 = 0, no_crc = False\<rparr>,
     pkts = [], num_bad_pkts = 0, num_bad_bytes = 0, freed = [], queue = \<lparr>tx_calls = 0, wire = []\<rparr>\<rparr>"

definition example_load :: "u64 \<Rightarrow> u64 \<Rightarrow> tx_mbuf list" where
  "example_load a b = [\<lparr>m_id = 1, pkt_len = 60, data_len = 60, udata64 = a, no_crc = False\<rparr>,
     \<lparr>m_id = 2, pkt_len = 60, data_len = 60, udata64 = b, no_crc = False\<rparr>]"

definition no_stats :: bad_stats where
  "no_stats = \<lparr>bad_pkts_sent = replicate RTE_MAX_ETHPORTS 0, bad_bytes_sent = replicate RTE_MAX_ETHPORTS 0\<rparr>"



text \<open>
  C33. With random losses every packet is either sent, in order, or freed, never both, whatever the random numbers;
  the byte counter of this variant counts the bad packets without the 24 bytes that the other variant adds.
\<close>

theorem crc_loss_partition:
  fixes accept :: "nat \<Rightarrow> nat"
  assumes "drains accept" and "stats_ok g port" and "list_all (\<lambda>p. \<not> no_crc p) ps" and "ps \<noteq> []" and "length ps < 2 ^ 16"
    and "20 \<le> unat m" and "unat m \<le> 769" and "unat (leftover_delay s) < unat m"
    and "(\<Sum>p\<leftarrow>ps. loss_delay_of p) + unat (leftover_delay s) \<le> unat m * length (pool s)"
  shows "\<exists>s' g' new lost. moongen_send_all_packets_with_delay_bad_crc_loss accept keep port ps (of_nat (length ps)) m s g = Some (s', g') \<and>
    wire (queue s') = wire (queue s) @ new \<and> freed s' = freed s @ lost \<and>
    mset (filter (\<lambda>p. \<not> no_crc p) new) + mset lost = mset ps \<and> subseq (filter (\<lambda>p. \<not> no_crc p) new) ps \<and>
    stats_added port (length (filter no_crc new)) (\<Sum>p\<leftarrow>filter no_crc new. pkt_len p) g g'"
proof -
  let ?G = "gaps (unat m) (unat (leftover_delay s)) (map loss_delay_of ps)"
  let ?new = "weave (pool s) keep 0 (fst ?G) ps" and ?lost = "lost_pkts keep 0 ps"
  have b: "sum_list (map length (fst ?G)) \<le> length (pool (fresh s))"
    using pool_suffices [OF _ assms(7,9)] assms(6) by (simp add: fresh_def)
  have "unat (leftover_delay (fresh s)) < 2 ^ 32" "length (pkts (fresh s)) < BUF_SIZE"
    using assms(8) unat_u32 [of m] by (auto simp: fresh_def BUF_SIZE_def)
  then obtain s' where s': "loss_loop accept keep m 0 ps (fresh s) = Some s'" "sends 0 (fresh s) ?new ?lost (snd ?G) s'" "pkts s' = []"
    using loss_loop_ok [OF assms(1) _ _ assms(3) _ b, of m "snd ?G" keep 0] assms(4) by (auto simp: fresh_def)
  note w = sends_wire [OF s'(2,3)]
  obtain g' where g': "add_stats port s' g = Some g'"
      "stats_added port (length (filter no_crc ?new)) (num_bad_bytes s') g g'"
    using add_stats_ok [OF assms(2) w(2)] by blast
  have "moongen_send_all_packets_with_delay_bad_crc_loss accept keep port ps (of_nat (length ps)) m s g = Some (s', g')"
    using assms(5) s'(1) g'(1) by (simp add: moongen_send_all_packets_with_delay_bad_crc_loss_def unat_of_nat_u16 fresh_def)
  moreover have "freed s' = freed s @ ?lost" using s'(2) by (simp add: sends_def fresh_def)
  ultimately show ?thesis using w(1,3) g'(2) lost_weave [of "fst ?G" ps "pool s" keep 0] assms(3) by fastforce
qed

theorem crc_loss_partition_witness:
  "\<exists>s' g' new lost. moongen_send_all_packets_with_delay_bad_crc_loss (\<lambda>_. 1) (\<lambda>i. i = 1) 0 (example_load 50 300) 2 76 (example_limiter 5) no_stats = Some (s', g') \<and>
     mset (filter (\<lambda>p. \<not> no_crc p) new) + mset lost = mset (example_load 50 300)"
  using crc_loss_partition [of "\<lambda>_. 1" no_stats 0 "example_load 50 300" 76 "example_limiter 5" "\<lambda>i. i = 1"]
  by (auto simp: drains_def stats_ok_def no_stats_def example_load_def example_limiter_def loss_delay_of_def delay_of_def RTE_MAX_ETHPORTS_def)

end
