(* ===== verification/Checksum.thy ===== *)
theory Checksum
  imports Device
begin

unbundle bit_operations_syntax

text \<open>
  The checksums of the pseudo headers in \<^verbatim>\<open>libmoon/src/util.c\<close>. A packet is the list of its bytes; 16 and 32 bit
  values are read and written in the byte order of the processor, which is little endian.
\<close>

section \<open>Memory\<close>

definition le16 :: "byte \<Rightarrow> byte \<Rightarrow> u16" where
  "le16 a b = ucast a + push_bit 8 (ucast b)"

definition le32 :: "byte \<Rightarrow> byte \<Rightarrow> byte \<Rightarrow> byte \<Rightarrow> u32" where
  "le32 a b c d = ucast a + push_bit 8 (ucast b) + push_bit 16 (ucast c) + push_bit 24 (ucast d)"

definition load16 :: "byte list \<Rightarrow> nat \<Rightarrow> u16" where
  "load16 bs i = le16 (bs ! i) (bs ! (i + 1))"

definition load32 :: "byte list \<Rightarrow> nat \<Rightarrow> u32" where
  "load32 bs i = le32 (bs ! i) (bs ! (i + 1)) (bs ! (i + 2)) (bs ! (i + 3))"

text \<open>\<^verbatim>\<open>((uint16_t*) data)[offset] = v\<close>\<close>

definition store16 :: "byte list \<Rightarrow> int \<Rightarrow> u16 \<Rightarrow> byte list option" where
  "store16 bs offset v =
     (if 0 \<le> offset \<and> 2 * nat offset + 1 < length bs
      then Some (bs[2 * nat offset := ucast v, 2 * nat offset + 1 := ucast (drop_bit 8 v)])
      else None)"

definition rte_bswap16 :: "u16 \<Rightarrow> u16" where
  "rte_bswap16 w = push_bit 8 (w AND 0xFF) OR drop_bit 8 w"

section \<open>IPv4\<close>

record ipv4_hdr =
  total_length :: u16
  next_proto_id :: byte
  src_addr :: u32
  dst_addr :: u32

definition ipv4_at :: "byte list \<Rightarrow> nat \<Rightarrow> ipv4_hdr" where
  "ipv4_at bs i = \<lparr>total_length = load16 bs (i + 2), next_proto_id = bs ! (i + 9),
     src_addr = load32 bs (i + 12), dst_addr = load32 bs (i + 16)\<rparr>"

definition sizeof_ipv4_hdr :: nat where "sizeof_ipv4_hdr = 20"

definition payload_len16 :: "u16 \<Rightarrow> u16" where
  "payload_len16 len =
     (if len AND 0xFF \<noteq> 0 then rte_bswap16 (rte_bswap16 len - of_nat sizeof_ipv4_hdr)
      else ucast (push_bit 8 (ucast (drop_bit 8 len) - of_nat sizeof_ipv4_hdr :: u64)))"

definition get_ipv4_psd_sum :: "ipv4_hdr \<Rightarrow> u16" where
  "get_ipv4_psd_sum ip_hdr =
     (let len = payload_len16 (total_length ip_hdr);
          total = ucast (src_addr ip_hdr) + ucast (dst_addr ip_hdr) +
                scast (push_bit 24 (ucast (next_proto_id ip_hdr)) OR ucast len :: u32) :: u64;
          lower = ucast (total AND 0xFFFFFFFF) :: u32;
          upper = ucast (drop_bit 32 total);
          lower = lower + upper;
          lower = (if lower < upper then lower + 1 else lower);
          lower16 = ucast (lower AND 0xFFFF) :: u16;
          upper16 = ucast (drop_bit 16 lower);
          lower16 = lower16 + upper16
      in if lower16 < upper16 then lower16 + 1 else lower16)"

definition calc_ipv4_pseudo_header_checksum :: "byte list \<Rightarrow> int \<Rightarrow> byte list option" where
  "calc_ipv4_pseudo_header_checksum data offset =
     (if 34 \<le> length data then store16 data offset (get_ipv4_psd_sum (ipv4_at data 14)) else None)"

text \<open>The loop over an array of packets; \<open>n\<close> is the number of packets to process.\<close>

fun calc_all :: "(byte list \<Rightarrow> int \<Rightarrow> byte list option) \<Rightarrow> byte list list \<Rightarrow> nat \<Rightarrow> int \<Rightarrow> byte list list option" where
  "calc_all f ds 0 offset = Some ds"
| "calc_all f [] (Suc n) offset = None"
| "calc_all f (d # ds) (Suc n) offset = do { d1 \<leftarrow> f d offset; ds1 \<leftarrow> calc_all f ds n offset; Some (d1 # ds1) }"

definition calc_ipv4_pseudo_header_checksums :: "byte list list \<Rightarrow> int \<Rightarrow> int \<Rightarrow> byte list list option" where
  "calc_ipv4_pseudo_header_checksums data n offset = calc_all calc_ipv4_pseudo_header_checksum data (nat n) offset"

section \<open>IPv6\<close>

text \<open>\<open>get_16b_sum\<close> of the bytes at a pointer; the last byte of an odd number of bytes counts alone.\<close>

fun sum16_loop :: "u32 \<Rightarrow> byte list \<Rightarrow> u32" where
  "sum16_loop acc (a # b # bs) =
     (let acc = acc + ucast (le16 a b) in sum16_loop (if acc > 65535 then acc - 65535 else acc) bs)"
| "sum16_loop acc [a] = acc + ucast a"
| "sum16_loop acc [] = acc"

definition get_16b_sum :: "byte list \<Rightarrow> u16" where
  "get_16b_sum bs =
     (let acc = sum16_loop 0 bs;
          acc = drop_bit 16 (acc AND 0xffff0000) + (acc AND 0xffff)
      in ucast (acc AND 0xffff))"

text \<open>The bytes of a 32 bit value in memory.\<close>

definition bytes32 :: "u32 \<Rightarrow> byte list" where
  "bytes32 w = [ucast w, ucast (drop_bit 8 w), ucast (drop_bit 16 w), ucast (drop_bit 24 w)]"

definition ipv6_psd_header :: "byte list \<Rightarrow> nat \<Rightarrow> byte list" where
  "ipv6_psd_header bs i =
     take 32 (drop (i + 8) bs) @ bytes32 (ucast (load16 bs (i + 4))) @ bytes32 (push_bit 24 (ucast (bs ! (i + 6))))"

definition get_ipv6_psd_sum :: "byte list \<Rightarrow> nat \<Rightarrow> u16" where
  "get_ipv6_psd_sum bs i = get_16b_sum (ipv6_psd_header bs i)"

definition calc_ipv6_pseudo_header_checksum :: "byte list \<Rightarrow> int \<Rightarrow> byte list option" where
  "calc_ipv6_pseudo_header_checksum data offset =
     (if 54 \<le> length data then store16 data offset (get_ipv6_psd_sum data 14) else None)"

definition calc_ipv6_pseudo_header_checksums :: "byte list list \<Rightarrow> int \<Rightarrow> int \<Rightarrow> byte list list option" where
  "calc_ipv6_pseudo_header_checksums data n offset = calc_all calc_ipv6_pseudo_header_checksum data (nat n) offset"

end
