(* ===== verification/Checksum_Laws.thy ===== *)
theory Checksum_Laws
  imports Checksum Device_Laws
begin

unbundle bit_operations_syntax

text \<open>
  The checksums are ones' complement sums of the pseudo headers, read and written in network byte order, whatever
  shortcut the code takes.
\<close>

section \<open>Ones' complement sums\<close>

text \<open>The value in 16 bits of a sum with end-around carry: zero is only the sum of zeros.\<close>

definition oc16 :: "nat \<Rightarrow> nat" where
  "oc16 s = (if s = 0 then 0 else (s - 1) mod 65535 + 1)"

lemma mod_pred:
  fixes n :: nat
  assumes "0 < r" and "0 < s" and "0 < n" and "r mod n = s mod n"
  shows "(r - 1) mod n = (s - 1) mod n"
proof -
  have "(r + (n - 1)) mod n = (s + (n - 1)) mod n" using assms(4) by (rule mod_add_cong) simp
  moreover have "r + (n - 1) = (r - 1) + n" "s + (n - 1) = (s - 1) + n" using assms(1-3) by simp_all
  ultimately show ?thesis by simp
qed

lemma oc16_le: "oc16 s \<le> 65535"
  using mod_less_divisor [of 65535 "s - 1"] by (simp add: oc16_def del: mod_less_divisor)

lemma oc16_mod: "oc16 s mod 65535 = s mod 65535"
  by (cases "s = 0") (simp_all add: oc16_def mod_Suc_eq)

lemma oc16I:
  assumes "r \<le> 65535" and "r mod 65535 = s mod 65535" and "r = 0 \<longleftrightarrow> s = 0"
  shows "r = oc16 s"
proof (cases "s = 0")
  case False
  then have "0 < r" using assms(3) by simp
  have "(r - 1) mod 65535 = (s - 1) mod 65535" using assms(2) False \<open>0 < r\<close> by (intro mod_pred) simp_all
  then show ?thesis using assms(1) False \<open>0 < r\<close> by (simp add: oc16_def)
qed (use assms in \<open>simp add: oc16_def\<close>)

fun be_sum :: "byte list \<Rightarrow> nat" where
  "be_sum (a # b # bs) = 256 * unat a + unat b + be_sum bs"
| "be_sum [a] = 256 * unat a"
| "be_sum [] = 0"

fun le_sum :: "byte list \<Rightarrow> nat" where
  "le_sum (a # b # bs) = unat a + 256 * unat b + le_sum bs"
| "le_sum [a] = unat a"
| "le_sum [] = 0"

text \<open>Exchanging the bytes multiplies by 256, up to end-around carries.\<close>

lemma le_be_sum: "le_sum bs mod 65535 = 256 * be_sum bs mod 65535"
proof (induction bs rule: be_sum.induct)
  case (1 a b bs)
  have "256 * be_sum (a # b # bs) = (unat a + 256 * unat b + 256 * be_sum bs) + unat a * 65535" by simp
  then have "256 * be_sum (a # b # bs) mod 65535 = (unat a + 256 * unat b + 256 * be_sum bs) mod 65535"
    by (simp only: mod_mult_self1)
  also have "\<dots> = (unat a + 256 * unat b + le_sum bs) mod 65535" by (rule mod_add_cong) (simp_all add: 1)
  finally show ?case by simp
next
  case (2 a)
  have "256 * be_sum [a] = unat a + unat a * 65535" by simp
  then show ?case by (simp only: mod_mult_self1 le_sum.simps)
qed simp

lemma be_sum_0: "be_sum bs = 0 \<longleftrightarrow> le_sum bs = 0"
  by (induction bs rule: be_sum.induct) auto

lemma le_sum_append: "even (length xs) \<Longrightarrow> le_sum (xs @ ys) = le_sum xs + le_sum ys"
  by (induction xs rule: le_sum.induct) auto

lemma swapped_oc16:
  assumes "v = oc16 (le_sum bs)"
  shows "256 * (v mod 256) + v div 256 = oc16 (be_sum bs)"
proof (rule oc16I)
  have dm: "v = 256 * (v div 256) + v mod 256" by simp
  have "v \<le> 65535" using oc16_le [of "le_sum bs"] by (simp only: assms)
  then have "v div 256 < 256" by (intro less_mult_imp_div_less) simp
  moreover have "v mod 256 < 256" by simp
  ultimately show "256 * (v mod 256) + v div 256 \<le> 65535" by linarith
  have "v = 0 \<longleftrightarrow> le_sum bs = 0" unfolding assms by (simp add: oc16_def)
  moreover have "256 * (v mod 256) + v div 256 = 0 \<longleftrightarrow> v = 0" using dm by linarith
  ultimately show "256 * (v mod 256) + v div 256 = 0 \<longleftrightarrow> be_sum bs = 0" unfolding be_sum_0 by simp
  have "256 * v = 256 * (v mod 256) + v div 256 + (v div 256) * 65535" using dm by linarith
  then have "(256 * (v mod 256) + v div 256) mod 65535 = 256 * v mod 65535" by (simp only: mod_mult_self1)
  also have "\<dots> = 256 * (256 * be_sum bs) mod 65535"
    by (rule mod_mult_cong [OF refl]) (simp only: assms oc16_mod le_be_sum)
  also have "256 * (256 * be_sum bs) = be_sum bs + be_sum bs * 65535" by simp
  also have "\<dots> mod 65535 = be_sum bs mod 65535" by (rule mod_mult_self1)
  finally show "(256 * (v mod 256) + v div 256) mod 65535 = be_sum bs mod 65535" .
qed

section \<open>Loads and stores\<close>

lemma byte_less: "unat (b :: byte) < 256"
  using unsigned_less [of b] by simp

lemma unat_le16 [simp]: "unat (le16 a b) = unat a + 256 * unat b"
  using byte_less [of a] byte_less [of b]
  by (simp add: le16_def push_bit_eq_mult unat_word_ariths unsigned_ucast_eq take_bit_nat_eq_self)

lemma unat_le32 [simp]: "unat (le32 a b c d) = unat a + 256 * unat b + 65536 * unat c + 16777216 * unat d"
  using byte_less [of a] byte_less [of b] byte_less [of c] byte_less [of d]
  by (simp add: le32_def push_bit_eq_mult unat_word_ariths unsigned_ucast_eq take_bit_nat_eq_self)

lemma unat_and_ff: "unat ((w :: u16) AND 0xFF) = unat w mod 256"
proof -
  have "w AND 0xFF = take_bit 8 w" by (simp add: take_bit_eq_mask mask_eq_exp_minus_1)
  then show ?thesis by (simp only: unsigned_take_bit_eq) (simp add: take_bit_eq_mod)
qed

lemma unat_bswap16: "unat (rte_bswap16 w) = 256 * (unat w mod 256) + unat w div 256"
proof -
  have "rte_bswap16 w = push_bit 8 (w AND 0xFF) + drop_bit 8 w"
    unfolding rte_bswap16_def by (rule disjunctive_add [symmetric]) (auto simp: bit_simps dest: bit_imp_le_length)
  moreover have "unat (w AND 0xFF) = unat w mod 256"
    by (rule unat_and_ff)
  moreover have "unat w div 256 < 256" using u16_less [of w] by (intro less_mult_imp_div_less) simp
  moreover have "unat w mod 256 < 256" by simp
  ultimately show ?thesis
    by (simp add: push_bit_eq_mult unat_word_ariths unat_drop_bit_eq drop_bit_eq_div del: mod_less_divisor)
qed

lemma unat_drop_bit: "unat (drop_bit k (w :: 'a::len word)) = unat w div 2 ^ k"
  unfolding unat_drop_bit_eq by (rule drop_bit_eq_div)

section \<open>The length of the payload\<close>

lemma div_256_less: "(n :: nat) < 65536 \<Longrightarrow> n div 256 < 256"
  by (intro less_mult_imp_div_less) simp

lemma unat_payload_len16:
  assumes "20 \<le> 256 * unat a + unat b"
  defines "n \<equiv> 256 * unat a + unat b - 20"
  shows "unat (payload_len16 (le16 a b)) = n div 256 + 256 * (n mod 256)"
proof (cases "le16 a b AND 0xFF = 0")
  case True
  then have "unat (le16 a b AND 0xFF) = 0" by simp
  then have a: "unat a = 0" using byte_less [of a] unfolding unat_and_ff by simp
  then have "unat (drop_bit 8 (le16 a b)) = unat b"
    unfolding unat_drop_bit unat_le16 by simp
  then have u: "unat (ucast (drop_bit 8 (le16 a b)) :: u64) = unat b"
    using byte_less [of b] by (simp add: unsigned_ucast_eq take_bit_nat_eq_self)
  define w where "w = ucast (drop_bit 8 (le16 a b)) - (20 :: u64)"
  have "unat w = n" "n < 256" using u assms(1) a byte_less [of b] by (simp_all add: w_def n_def unat_sub word_le_nat_alt)
  then have "unat (ucast (push_bit 8 w) :: u16) = 256 * n"
    by (simp add: unsigned_ucast_eq push_bit_eq_mult unat_word_ariths take_bit_nat_eq_self)
  moreover have "payload_len16 (le16 a b) = ucast (push_bit 8 w)"
    unfolding payload_len16_def sizeof_ipv4_hdr_def w_def using True by (simp del: push_bit_minus)
  ultimately show ?thesis using \<open>n < 256\<close> by simp
next
  case False
  have "unat (rte_bswap16 (le16 a b)) = 256 * unat a + unat b"
    using byte_less [of a] byte_less [of b] by (simp add: unat_bswap16)
  then have "unat (rte_bswap16 (le16 a b) - 20) = n" using assms(1) by (simp add: unat_sub word_le_nat_alt n_def)
  then show ?thesis using False by (simp add: payload_len16_def sizeof_ipv4_hdr_def unat_bswap16)
qed

section \<open>End-around carries\<close>

definition carry_add :: "'a::len word \<Rightarrow> 'a word \<Rightarrow> 'a word" where
  "carry_add a b = (if a + b < b then a + b + 1 else a + b)"

lemma unat_carry_add:
  fixes a b :: "'a::len word"
  shows "unat (carry_add a b) = (if unat a + unat b < 2 ^ LENGTH('a) then unat a + unat b else unat a + unat b + 1 - 2 ^ LENGTH('a))"
proof (cases "unat a + unat b < 2 ^ LENGTH('a)")
  case True
  then have "unat (a + b) = unat a + unat b" by (simp add: unat_word_ariths)
  then show ?thesis using True by (simp add: carry_add_def word_less_nat_alt)
next
  case False
  have ab: "unat a < 2 ^ LENGTH('a)" "unat b < 2 ^ LENGTH('a)" by (simp_all add: unsigned_less)
  have "(unat a + unat b) mod 2 ^ LENGTH('a) = unat a + unat b - 2 ^ LENGTH('a)"
    unfolding le_mod_geq [OF leI [OF False]] using ab by (intro mod_less) linarith
  then have s: "unat (a + b) = unat a + unat b - 2 ^ LENGTH('a)" by (simp add: unat_word_ariths)
  moreover have "unat (a + b + 1) = unat a + unat b - 2 ^ LENGTH('a) + 1"
  proof -
    have "unat a + unat b - 2 ^ LENGTH('a) + 1 < 2 ^ LENGTH('a)" using ab False by linarith
    then show ?thesis unfolding unat_word_ariths(1) [of "a + b"] s by simp
  qed
  moreover have "unat a + unat b - 2 ^ LENGTH('a) < unat b" using ab False by linarith
  ultimately show ?thesis using False by (simp add: carry_add_def word_less_nat_alt Suc_diff_le)
qed

lemma carry_add_cong:
  fixes a b :: "'a::len word"
  assumes "n dvd 2 ^ LENGTH('a) - 1"
  shows "unat (carry_add a b) mod n = (unat a + unat b) mod n" and "unat (carry_add a b) = 0 \<longleftrightarrow> unat a + unat b = 0"
proof -
  let ?N = "2 ^ LENGTH('a) :: nat"
  show "unat (carry_add a b) mod n = (unat a + unat b) mod n"
  proof (cases "unat a + unat b < ?N")
    case False
    then have "unat a + unat b = unat (carry_add a b) + (?N - 1)" by (simp add: unat_carry_add)
    moreover obtain c where "?N - 1 = n * c" using assms by (rule dvdE)
    ultimately have "unat a + unat b = unat (carry_add a b) + n * c" by (simp only:)
    then show ?thesis by simp
  qed (simp add: unat_carry_add)
  have "0 < ?N" by simp
  then show "unat (carry_add a b) = 0 \<longleftrightarrow> unat a + unat b = 0" unfolding unat_carry_add by auto
qed

section \<open>The sum over an IPv4 pseudo header\<close>

lemma unat_ucast_mod: "unat (ucast (w :: 'b::len word) :: 'a::len word) = unat w mod 2 ^ LENGTH('a)"
  unfolding unsigned_ucast_eq by (rule take_bit_eq_mod)

lemma and_ff32: "unat (ucast ((w :: u64) AND 0xFFFFFFFF) :: u32) = unat w mod 2 ^ 32"
proof -
  have "w AND 0xFFFFFFFF = take_bit 32 w" by (simp add: take_bit_eq_mask mask_eq_exp_minus_1)
  then have "unat (w AND 0xFFFFFFFF) = take_bit 32 (unat w)" by (simp only: unsigned_take_bit_eq)
  then show ?thesis unfolding unat_ucast_mod by (simp add: take_bit_eq_mod)
qed

lemma and_ffff: "unat (ucast ((w :: u32) AND 0xFFFF) :: u16) = unat w mod 2 ^ 16"
proof -
  have "w AND 0xFFFF = take_bit 16 w" by (simp add: take_bit_eq_mask mask_eq_exp_minus_1)
  then have "unat (w AND 0xFFFF) = take_bit 16 (unat w)" by (simp only: unsigned_take_bit_eq)
  then show ?thesis unfolding unat_ucast_mod by (simp add: take_bit_eq_mod)
qed

lemma u64_less: "unat (w :: u64) < 2 ^ 32 * 2 ^ 32"
  using unsigned_less [of w] by simp

lemma split_cong:
  fixes s c :: nat
  assumes "0 < c"
  shows "(s mod c + s div c) mod (c - 1) = s mod (c - 1)" and "s mod c + s div c = 0 \<longleftrightarrow> s = 0"
proof -
  have "s = s div c * c + s mod c" by simp
  also have "\<dots> = (s mod c + s div c) + s div c * (c - 1)" using assms by (cases c) (simp_all add: algebra_simps)
  finally show "(s mod c + s div c) mod (c - 1) = s mod (c - 1)" by (metis mod_mult_self1)
  have "s = 0 \<longleftrightarrow> s div c * c + s mod c = 0" by simp
  then show "s mod c + s div c = 0 \<longleftrightarrow> s = 0" using assms by auto
qed

text \<open>Both foldings together.\<close>

lemma fold_oc16:
  fixes total :: u64
  defines "r \<equiv> carry_add (ucast (total AND 0xFFFFFFFF) :: u32) (ucast (drop_bit 32 total))"
  shows "unat (carry_add (ucast (r AND 0xFFFF) :: u16) (ucast (drop_bit 16 r))) = oc16 (unat total)"
proof (rule oc16I)
  let ?q = "carry_add (ucast (r AND 0xFFFF) :: u16) (ucast (drop_bit 16 r))"
  have u64: "unat total div 2 ^ 32 < 2 ^ 32" by (intro less_mult_imp_div_less u64_less)
  have u32: "unat r div 2 ^ 16 < 2 ^ 16" using unat_u32 [of r] by (intro less_mult_imp_div_less) simp
  have hi: "unat (ucast (drop_bit 32 total) :: u32) = unat total div 2 ^ 32"
    unfolding unat_ucast_mod unat_drop_bit using u64 by simp
  have hi16: "unat (ucast (drop_bit 16 r) :: u16) = unat r div 2 ^ 16"
    unfolding unat_ucast_mod unat_drop_bit using u32 by simp
  have d: "65535 dvd (2 ^ LENGTH(32) - 1 :: nat)" "65535 dvd (2 ^ LENGTH(16) - 1 :: nat)" by simp_all
  have r: "unat r mod 65535 = (unat total mod 2 ^ 32 + unat total div 2 ^ 32) mod 65535" "unat r = 0 \<longleftrightarrow> unat total = 0"
    unfolding r_def using carry_add_cong [OF d(1)] split_cong(2) [of "2 ^ 32" "unat total"] by (simp_all only: and_ff32 hi) simp_all
  have q: "unat ?q mod 65535 = (unat r mod 2 ^ 16 + unat r div 2 ^ 16) mod 65535" "unat ?q = 0 \<longleftrightarrow> unat r = 0"
    using carry_add_cong [OF d(2)] split_cong(2) [of "2 ^ 16" "unat r"] by (simp_all only: and_ffff hi16) simp_all
  show "unat ?q \<le> 65535" using u16_less [of ?q] by simp
  show "unat ?q = 0 \<longleftrightarrow> unat total = 0" using q(2) r(2) by simp
  have "unat ?q mod 65535 = unat r mod 65535" using q(1) split_cong(1) [of "2 ^ 16" "unat r"] by simp
  also have "\<dots> = ((unat total mod 2 ^ 32 + unat total div 2 ^ 32) mod (2 ^ 32 - 1)) mod 65535"
    unfolding r(1) by (rule mod_mod_cancel [symmetric]) simp
  also have "\<dots> = unat total mod (2 ^ 32 - 1) mod 65535" using split_cong(1) [of "2 ^ 32" "unat total"] by simp
  also have "\<dots> = unat total mod 65535" by (rule mod_mod_cancel) simp
  finally show "unat ?q mod 65535 = unat total mod 65535" .
qed

lemma unat_proto_len:
  assumes "unat (p :: byte) < 128"
  shows "unat (scast (push_bit 24 (ucast p) OR ucast (len :: u16) :: u32) :: u64) = unat p * 2 ^ 24 + unat len"
proof -
  have "push_bit 24 (ucast p) OR ucast len = push_bit 24 (ucast p :: u32) + ucast len"
    by (rule disjunctive_add [symmetric]) (auto simp: bit_simps dest: bit_imp_le_length)
  moreover have "unat (push_bit 24 (ucast p) + ucast len :: u32) = unat p * 2 ^ 24 + unat len"
    using assms u16_less [of len] by (simp add: push_bit_eq_mult unat_word_ariths unsigned_ucast_eq take_bit_nat_eq_self)
  ultimately have w: "unat (push_bit 24 (ucast p) OR ucast len :: u32) = unat p * 2 ^ 24 + unat len" by simp
  define v where "v = (push_bit 24 (ucast p) OR ucast len :: u32)"
  have "unat v < 2 ^ 31" using w assms u16_less [of len] by (simp add: v_def)
  then have "unat (drop_bit 31 v) = 0" unfolding unat_drop_bit by simp
  then have "drop_bit 31 v = 0" by (simp only: unat_eq_0)
  then have "\<not> bit v 31" by (simp add: bit_iff_odd_drop_bit)
  then have "bit v (min 31 n) = bit v n" for n
    using bit_imp_le_length [of v n] by (cases "n = 31"; cases "n < 31") (auto simp: min_def)
  then have "scast v = (ucast v :: u64)" by (intro bit_word_eqI) (simp add: bit_simps)
  then show ?thesis using w by (simp add: v_def)
qed

lemma unat_psd_total:
  assumes "unat (next_proto_id h) < 128"
  shows "unat (ucast (src_addr h) + ucast (dst_addr h) +
      scast (push_bit 24 (ucast (next_proto_id h)) OR ucast (payload_len16 (total_length h)) :: u32) :: u64) =
    unat (src_addr h) + unat (dst_addr h) + (unat (next_proto_id h) * 2 ^ 24 + unat (payload_len16 (total_length h)))"
proof -
  let ?s = "unat (src_addr h)" and ?d = "unat (dst_addr h)"
    and ?v = "unat (next_proto_id h) * 2 ^ 24 + unat (payload_len16 (total_length h))"
  have "?s < 2 ^ 32" "?d < 2 ^ 32" "?v < 2 ^ 32"
    using unat_u32 [of "src_addr h"] unat_u32 [of "dst_addr h"] assms u16_less [of "payload_len16 (total_length h)"] by auto
  then have "?s + ?d + ?v < 2 ^ LENGTH(64)" by simp
  then show ?thesis by (simp add: unat_word_ariths unat_proto_len [OF assms])
qed

lemma psd_sum_oc16:
  assumes "unat (next_proto_id h) < 128"
  shows "unat (get_ipv4_psd_sum h) =
    oc16 (unat (src_addr h) + unat (dst_addr h) + (unat (next_proto_id h) * 2 ^ 24 + unat (payload_len16 (total_length h))))"
  unfolding get_ipv4_psd_sum_def Let_def carry_add_def [symmetric] fold_oc16 unat_psd_total [OF assms] ..

lemma oc16_cong: "s mod 65535 = t mod 65535 \<Longrightarrow> s = 0 \<longleftrightarrow> t = 0 \<Longrightarrow> oc16 s = oc16 t"
  by (rule oc16I [OF oc16_le]) (simp only: oc16_mod, simp add: oc16_def)

lemma store16_swapped:
  assumes "store16 bs k v = Some bs'" and "unat v = oc16 (le_sum ps)"
  shows "256 * unat (bs' ! (2 * nat k)) + unat (bs' ! (2 * nat k + 1)) = oc16 (be_sum ps)"
    and "length bs' = length bs" and "i \<noteq> 2 * nat k \<Longrightarrow> i \<noteq> 2 * nat k + 1 \<Longrightarrow> bs' ! i = bs ! i"
proof -
  have bs': "bs' = bs[2 * nat k := ucast v, 2 * nat k + 1 := ucast (drop_bit 8 v)]" "2 * nat k + 1 < length bs"
    using assms(1) by (auto simp: store16_def split: if_splits)
  have "unat (ucast v :: byte) = unat v mod 256" "unat (ucast (drop_bit 8 v) :: byte) = unat v div 256"
    using div_256_less [OF u16_less] by (simp_all add: unat_ucast_mod unat_drop_bit)
  then show "256 * unat (bs' ! (2 * nat k)) + unat (bs' ! (2 * nat k + 1)) = oc16 (be_sum ps)"
    using swapped_oc16 [OF assms(2)] bs' by simp
  show "length bs' = length bs" "i \<noteq> 2 * nat k \<Longrightarrow> i \<noteq> 2 * nat k + 1 \<Longrightarrow> bs' ! i = bs ! i" using bs' by simp_all
qed

section \<open>Properties\<close>

text \<open>The pseudo header of an IPv4 packet behind an Ethernet header: addresses, protocol, length of the payload.\<close>

definition ipv4_length :: "byte list \<Rightarrow> nat" where
  "ipv4_length data = 256 * unat (data ! 16) + unat (data ! 17)"

definition pseudo_v4 :: "byte list \<Rightarrow> byte list" where
  "pseudo_v4 data = map ((!) data) [26..<34] @ [0, data ! 23,
     of_nat ((ipv4_length data - 20) div 256), of_nat ((ipv4_length data - 20) mod 256)]"

lemma ipv4_sum_swapped:
  assumes "unat (data ! 23) < 128" and "20 \<le> ipv4_length data"
  shows "unat (get_ipv4_psd_sum (ipv4_at data 14)) = oc16 (le_sum (pseudo_v4 data))"
proof -
  let ?n = "ipv4_length data - 20" and ?h = "ipv4_at data 14" and ?b = "\<lambda>i. unat (data ! i)"
  have "ipv4_length data < 65536" using byte_less [of "data ! 16"] byte_less [of "data ! 17"] by (simp add: ipv4_length_def)
  then have "?n div 256 < 256" by (intro div_256_less) simp
  then have "unat (of_nat (?n div 256) :: byte) = ?n div 256" by (simp add: unsigned_of_nat take_bit_nat_eq_self)
  moreover have "unat (of_nat (?n mod 256) :: byte) = ?n mod 256" by (simp add: unsigned_of_nat take_bit_nat_eq_self)
  ultimately have l: "le_sum (pseudo_v4 data) = ?b 26 + 256 * ?b 27 + (?b 28 + 256 * ?b 29) +
      (?b 30 + 256 * ?b 31) + (?b 32 + 256 * ?b 33) + 256 * ?b 23 + (?n div 256 + 256 * (?n mod 256))"
    by (simp add: pseudo_v4_def)
  have n: "unat (payload_len16 (total_length ?h)) = ?n div 256 + 256 * (?n mod 256)"
    using unat_payload_len16 [of "data ! 16" "data ! 17"] assms(2) by (simp add: ipv4_at_def load16_def ipv4_length_def)
  define t where "t = unat (src_addr ?h) + unat (dst_addr ?h) + (unat (next_proto_id ?h) * 2 ^ 24 + unat (payload_len16 (total_length ?h)))"
  have t: "t = le_sum (pseudo_v4 data) + (?b 28 + 256 * ?b 29 + ?b 32 + 256 * ?b 33 + 256 * ?b 23) * 65535"
    unfolding t_def n l by (simp add: ipv4_at_def load32_def algebra_simps)
  then have "t mod 65535 = le_sum (pseudo_v4 data) mod 65535" by (simp only: mod_mult_self1)
  moreover have "t = 0 \<longleftrightarrow> le_sum (pseudo_v4 data) = 0" using t l by auto
  ultimately have "oc16 t = oc16 (le_sum (pseudo_v4 data))" by (rule oc16_cong)
  then show ?thesis using psd_sum_oc16 [of ?h] assms(1) by (simp add: t_def ipv4_at_def)
qed

text \<open>
  C26. \<^verbatim>\<open>calc_ipv4_pseudo_header_checksum\<close> writes, in network byte order, the ones' complement sum of the 16
  bit words of the pseudo header, and changes nothing else; also with the shortcut for lengths below 256 and with the
  sums of whole 32 bit words in the byte order of the processor.
\<close>

theorem ipv4_checksum_correct:
  assumes "34 \<le> length data" and "unat (data ! 23) < 128" and "20 \<le> ipv4_length data"
    and "0 \<le> k" and "2 * nat k + 1 < length data"
  shows "\<exists>data'. calc_ipv4_pseudo_header_checksum data k = Some data' \<and> length data' = length data \<and>
    256 * unat (data' ! (2 * nat k)) + unat (data' ! (2 * nat k + 1)) = oc16 (be_sum (pseudo_v4 data)) \<and>
    (\<forall>i. i \<noteq> 2 * nat k \<and> i \<noteq> 2 * nat k + 1 \<longrightarrow> data' ! i = data ! i)"
proof -
  obtain data' where d: "store16 data k (get_ipv4_psd_sum (ipv4_at data 14)) = Some data'"
    using assms(4,5) by (simp add: store16_def)
  then show ?thesis
    using assms(1) store16_swapped [OF d ipv4_sum_swapped [OF assms(2,3)]] by (auto simp: calc_ipv4_pseudo_header_checksum_def)
qed

definition example_udp :: "byte list" where
  "example_udp = replicate 14 0 @ [0x45, 0, 0, 46, 0, 0, 0, 0, 64, 17, 0, 0, 10, 0, 0, 1, 10, 0, 0, 2] @
     [0x12, 0x34, 0, 42, 0, 26, 0, 0] @ replicate 18 0"

theorem ipv4_checksum_correct_witness:
  "\<exists>data'. calc_ipv4_pseudo_header_checksum example_udp 20 = Some data' \<and>
     256 * unat (data' ! 40) + unat (data' ! 41) = oc16 (be_sum (pseudo_v4 example_udp))"
proof -
  have "length example_udp = 60" "example_udp ! 23 = 17" "example_udp ! 16 = 0" "example_udp ! 17 = 46"
    by (simp_all add: example_udp_def nth_append)
  then show ?thesis using ipv4_checksum_correct [of example_udp 20] by (auto simp: ipv4_length_def)
qed

text \<open>
  For protocol numbers from 128 on the shifted number is negative as a C integer, and its extension to 64 bits
  disturbs the sum: for protocol 132 from 200.0.0.200 to itself the checksum is one too small.
\<close>

definition example_sctp :: "byte list" where
  "example_sctp = replicate 14 0 @ [0x45, 0, 0, 46, 0, 0, 0, 0, 64, 132, 0, 0, 200, 0, 0, 200, 200, 0, 0, 200] @ replicate 26 0"

theorem ipv4_checksum_proto:
  "unat (get_ipv4_psd_sum (ipv4_at example_sctp 14)) + 1 = oc16 (le_sum (pseudo_v4 example_sctp))"
  by (simp add: example_sctp_def ipv4_at_def load16_def load32_def le16_def le32_def pseudo_v4_def ipv4_length_def nth_append
    get_ipv4_psd_sum_def payload_len16_def sizeof_ipv4_hdr_def Let_def oc16_def)

section \<open>IPv6\<close>

lemma sum16_step:
  fixes a b :: byte and acc :: u32
  assumes "unat acc \<le> 65535"
  defines "t \<equiv> acc + ucast (le16 a b)"
  shows "unat (if t > 65535 then t - 65535 else t) \<le> 65535"
    and "unat (if t > 65535 then t - 65535 else t) mod 65535 = (unat acc + (unat a + 256 * unat b)) mod 65535"
    and "unat (if t > 65535 then t - 65535 else t) = 0 \<longleftrightarrow> unat acc + (unat a + 256 * unat b) = 0"
proof -
  have l: "unat a + 256 * unat b \<le> 65535" using byte_less [of a] byte_less [of b] by simp
  have t: "unat t = unat acc + (unat a + 256 * unat b)"
    unfolding t_def by (subst unat_add_small) (use assms(1) l in simp_all)
  have r: "unat (if t > 65535 then t - 65535 else t) = (if unat t > 65535 then unat t - 65535 else unat t)"
    by (simp add: word_less_nat_alt unat_sub word_le_nat_alt)
  show "unat (if t > 65535 then t - 65535 else t) \<le> 65535"
    unfolding r using t assms(1) l by (simp only: split: if_split) linarith
  show "unat (if t > 65535 then t - 65535 else t) = 0 \<longleftrightarrow> unat acc + (unat a + 256 * unat b) = 0"
    unfolding r t [symmetric] by auto
  show "unat (if t > 65535 then t - 65535 else t) mod 65535 = (unat acc + (unat a + 256 * unat b)) mod 65535"
    unfolding r t [symmetric] by (simp add: le_mod_geq)
qed

lemma sum16_loop_oc16:
  assumes "even (length bs)" and "unat acc \<le> 65535"
  shows "unat (sum16_loop acc bs) \<le> 65535 \<and> unat (sum16_loop acc bs) mod 65535 = (unat acc + le_sum bs) mod 65535 \<and>
    (unat (sum16_loop acc bs) = 0 \<longleftrightarrow> unat acc + le_sum bs = 0)"
  using assms
proof (induction acc bs rule: sum16_loop.induct)
  case (1 acc a b bs)
  let ?t = "acc + ucast (le16 a b)"
  let ?r = "if ?t > 65535 then ?t - 65535 else ?t"
  note step = sum16_step [OF "1.prems"(2), of a b]
  have IH: "unat (sum16_loop ?r bs) \<le> 65535 \<and> unat (sum16_loop ?r bs) mod 65535 = (unat ?r + le_sum bs) mod 65535 \<and>
    (unat (sum16_loop ?r bs) = 0 \<longleftrightarrow> unat ?r + le_sum bs = 0)"
    using "1.IH" [OF refl] "1.prems"(1) step(1) by simp
  moreover have "(unat ?r + le_sum bs) mod 65535 = (unat acc + le_sum (a # b # bs)) mod 65535"
    using mod_add_cong [OF step(2) refl, of "le_sum bs"] by (simp add: add.assoc)
  moreover have "unat ?r + le_sum bs = 0 \<longleftrightarrow> unat acc + le_sum (a # b # bs) = 0" using step(3) by auto
  ultimately show ?case by (simp only: sum16_loop.simps Let_def)
qed auto

lemma and_hi_lo: "unat (w :: u32) \<le> 65535 \<Longrightarrow> unat (ucast (drop_bit 16 (w AND 0xffff0000) + (w AND 0xffff) AND 0xffff) :: u16) = unat w"
proof -
  assume w: "unat w \<le> 65535"
  then have "unat (drop_bit 16 w) = 0" unfolding unat_drop_bit by simp
  then have "drop_bit 16 w = 0" by (simp only: unat_eq_0)
  then have h: "drop_bit 16 (w AND 0xffff0000) = 0" by (simp only: drop_bit_and) simp
  have "take_bit 16 w = w"
    using w by (simp add: word_unat_eq_iff unsigned_take_bit_eq take_bit_nat_eq_self)
  then have "w AND 0xffff = w" by (simp add: take_bit_eq_mask mask_eq_exp_minus_1)
  then show ?thesis using w unfolding h by (simp add: unat_u32_u16)
qed

lemma get_16b_sum_oc16:
  assumes "even (length bs)"
  shows "unat (get_16b_sum bs) = oc16 (le_sum bs)"
proof -
  have l: "unat (sum16_loop 0 bs) \<le> 65535" "unat (sum16_loop 0 bs) mod 65535 = le_sum bs mod 65535"
    "unat (sum16_loop 0 bs) = 0 \<longleftrightarrow> le_sum bs = 0" using sum16_loop_oc16 [OF assms, of 0] by simp_all
  then have "unat (sum16_loop 0 bs) = oc16 (le_sum bs)" by (rule oc16I)
  then show ?thesis unfolding get_16b_sum_def Let_def using and_hi_lo [OF l(1)] by simp
qed

text \<open>The pseudo header of an IPv6 packet: addresses, length of the payload, three zero bytes, next header.\<close>

definition pseudo_v6 :: "byte list \<Rightarrow> byte list" where
  "pseudo_v6 data = take 32 (drop 22 data) @ [0, 0, data ! 18, data ! 19] @ [0, 0, 0, data ! 20]"

lemma bytes_of_load16: "bytes32 (ucast (le16 a b)) = [a, b, 0, 0]"
proof -
  have "ucast (ucast (le16 a b) :: u32) = a"
    by (simp add: word_unat_eq_iff unat_ucast_mod mod_less byte_less)
  moreover have "ucast (drop_bit 8 (ucast (le16 a b) :: u32)) = b"
    using byte_less [of a] byte_less [of b] by (simp add: word_unat_eq_iff unat_ucast_mod unat_drop_bit)
  moreover have "drop_bit 16 (ucast (le16 a b) :: u32) = 0" "drop_bit 24 (ucast (le16 a b) :: u32) = 0"
    using byte_less [of a] byte_less [of b] by (simp_all add: word_unat_eq_iff unat_drop_bit)
  ultimately show ?thesis by (simp add: bytes32_def)
qed

lemma bytes_of_proto: "bytes32 (push_bit 24 (ucast (p :: byte))) = [0, 0, 0, p]"
proof -
  let ?w = "push_bit 24 (ucast p) :: u32"
  have w: "unat ?w = unat p * 16777216"
    using byte_less [of p] by (simp add: push_bit_eq_mult unat_word_ariths unsigned_ucast_eq take_bit_nat_eq_self)
  have "unat p * 16777216 div 256 = unat p * 65536" "unat p * 16777216 div 65536 = unat p * 256"
    "unat p * 16777216 div 16777216 = unat p" by simp_all
  then show ?thesis using byte_less [of p] unfolding bytes32_def
    by (simp add: word_unat_eq_iff unat_ucast_mod unat_drop_bit w)
qed

lemma ipv6_sum_swapped:
  assumes "54 \<le> length data"
  shows "unat (get_ipv6_psd_sum data 14) = oc16 (le_sum (pseudo_v6 data))"
proof -
  have "ipv6_psd_header data 14 = take 32 (drop 22 data) @ [data ! 18, data ! 19, 0, 0] @ [0, 0, 0, data ! 20]"
    unfolding ipv6_psd_header_def load16_def bytes_of_load16 bytes_of_proto by simp
  moreover have "length (take 32 (drop 22 data)) = 32" using assms by simp
  ultimately have "even (length (ipv6_psd_header data 14))" "le_sum (ipv6_psd_header data 14) = le_sum (pseudo_v6 data)"
    by (simp_all add: pseudo_v6_def le_sum_append)
  then show ?thesis using get_16b_sum_oc16 [of "ipv6_psd_header data 14"] by (simp add: get_ipv6_psd_sum_def)
qed

text \<open>
  C32. \<^verbatim>\<open>calc_ipv6_pseudo_header_checksum\<close> writes, in network byte order, the ones' complement sum of the 16
  bit words of the pseudo header, for every next header, and changes nothing else.
\<close>

theorem ipv6_checksum_correct:
  assumes "54 \<le> length data" and "0 \<le> k" and "2 * nat k + 1 < length data"
  shows "\<exists>data'. calc_ipv6_pseudo_header_checksum data k = Some data' \<and> length data' = length data \<and>
    256 * unat (data' ! (2 * nat k)) + unat (data' ! (2 * nat k + 1)) = oc16 (be_sum (pseudo_v6 data)) \<and>
    (\<forall>i. i \<noteq> 2 * nat k \<and> i \<noteq> 2 * nat k + 1 \<longrightarrow> data' ! i = data ! i)"
proof -
  obtain data' where d: "store16 data k (get_ipv6_psd_sum data 14) = Some data'"
    using assms(2,3) by (simp add: store16_def)
  then show ?thesis
    using assms(1) store16_swapped [OF d ipv6_sum_swapped [OF assms(1)]] by (auto simp: calc_ipv6_pseudo_header_checksum_def)
qed

theorem ipv6_checksum_correct_witness:
  "\<exists>data'. calc_ipv6_pseudo_header_checksum (replicate 70 7) 30 = Some data' \<and>
     256 * unat (data' ! 60) + unat (data' ! 61) = oc16 (be_sum (pseudo_v6 (replicate 70 7)))"
  using ipv6_checksum_correct [of "replicate 70 7" 30] by auto

end
