(* ===== verification/Histogram.thy ===== *)
theory Histogram
  imports Complex_Main Device C_Net
begin

text \<open>
  \<^verbatim>\<open>MoonGen/src/histogram.cpp\<close>. The running mean and variance are computed in \<^verbatim>\<open>double\<close>; they are modelled by
  rational numbers, that is, without rounding. \<^verbatim>\<open>std::map\<close> is a list of pairs in the order of its keys.
\<close>

type_synonym double = rat

section \<open>Running mean and variance\<close>

definition online :: "nat \<Rightarrow> double \<Rightarrow> double \<times> double \<Rightarrow> double \<times> double" where
  "online n x = (\<lambda>(mean, m2).
     let delta = x - mean; mean = mean + delta / of_nat n; delta2 = x - mean in (mean, m2 + delta * delta2))"

section \<open>The class Histogram\<close>

record histogram =
  h_count :: u64
  h_m2 :: double
  h_mean :: double
  h_variance :: double
  bucket_size :: int
  bucket_half :: int
  storage :: "(int \<times> u32) list"

text \<open>The constructor; \<open>None\<close> is the exit of the program for an invalid size.\<close>

definition Histogram_new :: "u32 \<Rightarrow> histogram option" where
  "Histogram_new sz =
     (if sz \<le> 0 then None
      else Some \<lparr>h_count = 0, h_m2 = 0, h_mean = 0, h_variance = 0, bucket_size = uint sz,
                 bucket_half = uint sz div 2, storage = []\<rparr>)"

text \<open>\<^verbatim>\<open>++storage[k]\<close>\<close>

fun map_inc :: "int \<Rightarrow> (int \<times> u32) list \<Rightarrow> (int \<times> u32) list" where
  "map_inc k [] = [(k, 1)]"
| "map_inc k ((j, c) # m) =
     (if k < j then (k, 1) # (j, c) # m else if k = j then (j, c + 1) # m else (j, c) # map_inc k m)"

text \<open>Signed 64 bit arithmetic; an overflow is undefined.\<close>

definition int64 :: "int \<Rightarrow> int option" where
  "int64 i = (if - (2 ^ 63) \<le> i \<and> i < 2 ^ 63 then Some i else None)"

definition bucket_of :: "histogram \<Rightarrow> int \<Rightarrow> int option" where
  "bucket_of h new_val =
     do { v \<leftarrow> (if new_val > 0 then int64 (new_val + bucket_half h)
              else if new_val < 0 then int64 (new_val - bucket_half h) else Some new_val);
          Some (c_div v (bucket_size h) * bucket_size h) }"

definition update :: "int \<Rightarrow> histogram \<Rightarrow> (bool \<times> histogram) option" where
  "update new_val h =
     (let ret = \<not> new_val < 0;
          count = h_count h + 1;
          (mean, m2) = online (unat count) (of_int new_val) (h_mean h, h_m2 h)
      in do { k \<leftarrow> bucket_of h new_val;
              Some (ret, h\<lparr>h_count := count, h_mean := mean, h_m2 := m2, storage := map_inc k (storage h)\<rparr>) })"

definition finalize :: "histogram \<Rightarrow> histogram" where
  "finalize h = (if h_count h < 2 then h else h\<lparr>h_variance := h_m2 h / of_nat (unat (h_count h - 1))\<rparr>)"

definition write_to_file :: "histogram \<Rightarrow> string" where
  "write_to_file h = concat (map (\<lambda>(k, c). show_long k @ '','' @ show_long (uint c) @ ''\<newline>'') (storage h))"

definition getCount :: "histogram \<Rightarrow> u64" where "getCount h = h_count h"
definition getMean :: "histogram \<Rightarrow> double" where "getMean h = h_mean h"
definition getVariance :: "histogram \<Rightarrow> double" where "getVariance h = h_variance h"

section \<open>The functions for Lua\<close>

text \<open>The global pointer \<^verbatim>\<open>hist\<close>; using it before the initialisation or after the destruction is undefined.\<close>

datatype hist_ptr = Null | Dangling | Live histogram

definition deref :: "hist_ptr \<Rightarrow> histogram option" where
  "deref p = (case p of Live h \<Rightarrow> Some h | _ \<Rightarrow> None)"

definition hs_initialize :: "u32 \<Rightarrow> hist_ptr \<Rightarrow> hist_ptr option" where
  "hs_initialize sz hist = map_option Live (Histogram_new sz)"

definition hs_destroy :: "hist_ptr \<Rightarrow> hist_ptr option" where
  "hs_destroy hist = (case hist of Null \<Rightarrow> Some Null | Dangling \<Rightarrow> None | Live h \<Rightarrow> Some Dangling)"

definition hs_update :: "int \<Rightarrow> hist_ptr \<Rightarrow> (bool \<times> hist_ptr) option" where
  "hs_update new_val hist = do { h \<leftarrow> deref hist; (b, h1) \<leftarrow> update new_val h; Some (b, Live h1) }"

definition hs_finalize :: "hist_ptr \<Rightarrow> hist_ptr option" where
  "hs_finalize hist = do { h \<leftarrow> deref hist; Some (Live (finalize h)) }"

definition hs_write :: "hist_ptr \<Rightarrow> string option" where "hs_write hist = map_option write_to_file (deref hist)"
definition hs_getCount :: "hist_ptr \<Rightarrow> u64 option" where "hs_getCount hist = map_option getCount (deref hist)"
definition hs_getMean :: "hist_ptr \<Rightarrow> double option" where "hs_getMean hist = map_option getMean (deref hist)"
definition hs_getVariance :: "hist_ptr \<Rightarrow> double option" where "hs_getVariance hist = map_option getVariance (deref hist)"

primrec updates :: "int list \<Rightarrow> histogram \<Rightarrow> histogram option" where
  "updates [] h = Some h"
| "updates (x # xs) h = do { (_, h1) \<leftarrow> update x h; updates xs h1 }"

section \<open>Mean and variance\<close>

text \<open>The mean and the sum of the squared distances from it.\<close>

definition moments :: "double list \<Rightarrow> double \<times> double" where
  "moments xs = (let n = of_nat (length xs); m = sum_list xs / n in (m, \<Sum>x\<leftarrow>xs. (x - m)\<^sup>2))"

lemma squares_shift:
  fixes m :: double
  shows "(\<Sum>x\<leftarrow>xs. (x - m)\<^sup>2) = (\<Sum>x\<leftarrow>xs. x\<^sup>2) - 2 * m * sum_list xs + of_nat (length xs) * m\<^sup>2"
  by (induction xs) (simp_all add: power2_eq_square algebra_simps)

lemma mean_algebra:
  fixes n s q x :: double
  assumes "n \<noteq> 0" and "1 + n \<noteq> 0"
  shows "q - 2 * (s / n) * s + n * (s / n)\<^sup>2 = q - s\<^sup>2 / n"
    and "s / n + (x - s / n) / (1 + n) = (s + x) / (1 + n)"
    and "q - s\<^sup>2 / n + (x - s / n) * (x - (s + x) / (1 + n)) = (q + x\<^sup>2) - (s + x)\<^sup>2 / (1 + n)"
proof -
  show "q - 2 * (s / n) * s + n * (s / n)\<^sup>2 = q - s\<^sup>2 / n"
    using assms by (simp add: field_simps power2_eq_square)
  show m: "s / n + (x - s / n) / (1 + n) = (s + x) / (1 + n)"
    using assms by (simp add: divide_simps) (simp add: algebra_simps)
  show "q - s\<^sup>2 / n + (x - s / n) * (x - (s + x) / (1 + n)) = (q + x\<^sup>2) - (s + x)\<^sup>2 / (1 + n)"
    using assms by (simp add: divide_simps) (simp add: algebra_simps power2_eq_square)
qed

lemma moments_alt:
  assumes "xs \<noteq> []"
  shows "snd (moments xs) = (\<Sum>x\<leftarrow>xs. x\<^sup>2) - (sum_list xs)\<^sup>2 / of_nat (length xs)"
proof -
  have "(of_nat (length xs) :: double) \<noteq> 0" "1 + (of_nat (length xs) :: double) \<noteq> 0"
    using assms by (simp_all flip: of_nat_Suc)
  from mean_algebra(1) [OF this] show ?thesis unfolding moments_def Let_def snd_conv squares_shift .
qed

lemma online_step:
  assumes "xs = [] \<Longrightarrow> p = (0, 0)" and "xs \<noteq> [] \<Longrightarrow> p = moments xs"
  shows "online (Suc (length xs)) x p = moments (xs @ [x])"
proof (cases "xs = []")
  case True
  then show ?thesis using assms(1) by (simp add: online_def moments_def)
next
  case False
  let ?n = "of_nat (length xs) :: double" and ?s = "sum_list xs" and ?q = "\<Sum>x\<leftarrow>xs. x\<^sup>2"
  have n: "?n \<noteq> 0" "1 + ?n \<noteq> 0" using False by (simp_all flip: of_nat_Suc)
  have p: "p = (?s / ?n, ?q - ?s\<^sup>2 / ?n)"
    using assms(2) [OF False] moments_alt [OF False] by (simp add: moments_def Let_def prod_eq_iff)
  have "online (Suc (length xs)) x p = ((?s + x) / (1 + ?n), (?q + x\<^sup>2) - (?s + x)\<^sup>2 / (1 + ?n))"
    by (simp only: p online_def Let_def prod.case of_nat_Suc mean_algebra(2,3) [OF n])
  also have "\<dots> = moments (xs @ [x])"
    using moments_alt [of "xs @ [x]"] by (simp add: prod_eq_iff moments_def Let_def)
  finally show ?thesis .
qed

section \<open>The storage\<close>

definition keys_sorted :: "(int \<times> u32) list \<Rightarrow> bool" where
  "keys_sorted m \<longleftrightarrow> sorted_wrt (<) (map fst m)"

lemma set_map_inc: "fst ` set (map_inc k m) = insert k (fst ` set m)"
  by (induction k m rule: map_inc.induct) auto

lemma keys_sorted_inc: "keys_sorted m \<Longrightarrow> keys_sorted (map_inc k m)"
proof (induction k m rule: map_inc.induct)
  case (2 k j c m)
  then show ?case
    using set_map_inc [of k m] by (auto simp: keys_sorted_def image_iff)
qed (simp add: keys_sorted_def)

lemma map_of_above: "keys_sorted ((j, c) # m) \<Longrightarrow> k \<le> j \<Longrightarrow> map_of m k = None"
  by (fastforce simp: keys_sorted_def map_of_eq_None_iff)

lemma map_of_inc:
  "keys_sorted m \<Longrightarrow> map_of (map_inc k m) = (map_of m)(k \<mapsto> (case map_of m k of None \<Rightarrow> 1 | Some c \<Rightarrow> c + 1))"
proof (induction k m rule: map_inc.induct)
  case (2 k j c m)
  have "keys_sorted m" using "2.prems" by (simp add: keys_sorted_def)
  then show ?case using 2 map_of_above [OF "2.prems", of k] by (auto simp: fun_eq_iff)
qed simp

section \<open>Buckets\<close>

definition bucket :: "int \<Rightarrow> int \<Rightarrow> int" where
  "bucket b x = c_div (x + sgn x * (b div 2)) b * b"

lemma bucket_near:
  assumes "0 < b"
  shows "\<bar>x - bucket b x\<bar> \<le> b div 2" and "b dvd bucket b x"
proof -
  have pos: "\<bar>y - bucket b y\<bar> \<le> b div 2" if "0 < y" for y
  proof -
    let ?z = "y + b div 2"
    have z: "0 < ?z" using that assms by (simp add: add_pos_nonneg)
    then have "bucket b y = ?z - ?z mod b" using that assms by (simp add: bucket_def c_div_def minus_mod_eq_div_mult)
    moreover have "0 \<le> ?z mod b" "?z mod b < b" using assms by simp_all
    moreover have "b \<le> 2 * (b div 2) + 1" by presburger
    ultimately show ?thesis by linarith
  qed
  have "bucket b (- y) = - bucket b y" for y
    by (simp add: bucket_def c_div_def sgn_if)
  then show "\<bar>x - bucket b x\<bar> \<le> b div 2"
    using pos [of x] pos [of "- x"] assms by (cases x "0 :: int" rule: linorder_cases) (simp_all add: bucket_def c_div_def)
  show "b dvd bucket b x" by (simp add: bucket_def)
qed

section \<open>Histograms of sequences\<close>

definition hist_of :: "int \<Rightarrow> int list \<Rightarrow> histogram \<Rightarrow> bool" where
  "hist_of b xs h \<longleftrightarrow> 0 < b \<and> bucket_size h = b \<and> bucket_half h = b div 2 \<and> unat (h_count h) = length xs \<and>
     (xs = [] \<longrightarrow> (h_mean h, h_m2 h) = (0, 0)) \<and> (xs \<noteq> [] \<longrightarrow> (h_mean h, h_m2 h) = moments (map of_int xs)) \<and>
     keys_sorted (storage h) \<and>
     (\<forall>k. map_of (storage h) k = (let n = length (filter (\<lambda>x. bucket b x = k) xs) in if n = 0 then None else Some (of_nat n)))"

lemma hist_of_new: "Histogram_new sz = Some h \<Longrightarrow> hist_of (uint sz) [] h"
proof -
  assume h: "Histogram_new sz = Some h"
  then have "sz \<noteq> 0" by (auto simp: Histogram_new_def)
  then have "0 < uint sz" using uint_ge_0 [of sz] by (simp add: order_less_le uint_0_iff)
  then show ?thesis using h by (auto simp: Histogram_new_def hist_of_def keys_sorted_def split: if_splits)
qed

lemma bucket_of_eq:
  assumes "hist_of b xs h" and "\<bar>x\<bar> + b div 2 < 2 ^ 63"
  shows "bucket_of h x = Some (bucket b x)"
  using assms by (auto simp: hist_of_def bucket_of_def bucket_def int64_def c_div_def)

lemma hist_of_update:
  assumes "hist_of b xs h" and "\<bar>x\<bar> + b div 2 < 2 ^ 63" and "length xs + 1 < 2 ^ 32"
  shows "\<exists>h'. update x h = Some (0 \<le> x, h') \<and> hist_of b (xs @ [x]) h'"
proof -
  note D = assms(1) [unfolded hist_of_def]
  have c: "unat (h_count h + 1) = Suc (length xs)"
    using D assms(3) by (simp add: unat_word_ariths)
  have o: "online (Suc (length xs)) (of_int x) (h_mean h, h_m2 h) = moments (map of_int (xs @ [x]))"
    using online_step [of "map of_int xs" "(h_mean h, h_m2 h)" "of_int x"] D by simp
  let ?h' = "h\<lparr>h_count := h_count h + 1, h_mean := fst (moments (map of_int (xs @ [x]))),
    h_m2 := snd (moments (map of_int (xs @ [x]))), storage := map_inc (bucket b x) (storage h)\<rparr>"
  have "update x h = Some (0 \<le> x, ?h')"
    unfolding update_def Let_def c o bucket_of_eq [OF assms(1,2)] by (simp add: case_prod_beta not_less)
  moreover have "map_of (storage ?h') k =
      (let n = length (filter (\<lambda>y. bucket b y = k) (xs @ [x])) in if n = 0 then None else Some (of_nat n))" for k
    using D map_of_inc [of "storage h" "bucket b x"] by (auto simp: Let_def)
  then have "hist_of b (xs @ [x]) ?h'"
    using D c keys_sorted_inc [of "storage h"] unfolding hist_of_def by simp
  ultimately show ?thesis by blast
qed

lemma hist_of_updates:
  "hist_of b xs h \<Longrightarrow> list_all (\<lambda>x. \<bar>x\<bar> + b div 2 < 2 ^ 63) ys \<Longrightarrow> length (xs @ ys) < 2 ^ 32 \<Longrightarrow>
   \<exists>h'. updates ys h = Some h' \<and> hist_of b (xs @ ys) h'"
proof (induction ys arbitrary: xs h)
  case (Cons y ys)
  then obtain h1 where "update y h = Some (0 \<le> y, h1)" "hist_of b (xs @ [y]) h1"
    using hist_of_update [of b xs h y] by auto
  then show ?case using Cons.IH [of "xs @ [y]" h1] Cons.prems by simp
qed simp



text \<open>
  Every value is counted in a bucket that is a multiple of the bucket size, at most half a bucket size away.
\<close>

theorem bucket_bounds:
  assumes "Histogram_new sz = Some h" and "updates xs h = Some h'" and "list_all (\<lambda>x. \<bar>x\<bar> + uint sz div 2 < 2 ^ 63) (xs @ [x])"
    and "length xs < 2 ^ 32"
  shows "\<exists>k. bucket_of h' x = Some k \<and> uint sz dvd k \<and> \<bar>x - k\<bar> \<le> uint sz div 2"
proof -
  have "hist_of (uint sz) xs h'"
    using hist_of_updates [OF hist_of_new [OF assms(1)], of xs] assms(2-4) by auto
  from bucket_of_eq [OF this, of x] show ?thesis
    using assms(3) bucket_near [of "uint sz" x] \<open>hist_of (uint sz) xs h'\<close> by (auto simp: hist_of_def)
qed

theorem bucket_bounds_witness:
  "\<exists>h k. Histogram_new 10 = Some h \<and> bucket_of h (- 17) = Some k \<and> 10 dvd k \<and> \<bar>- 17 - k\<bar> \<le> 5"
proof -
  obtain h where h: "Histogram_new 10 = Some h" by (simp add: Histogram_new_def)
  from bucket_bounds [OF h, of "[]" h "- 17"] show ?thesis using h by auto
qed

end
