(* ===== verification/Moonsniff.thy ===== *)
theory Moonsniff
  imports Histogram Device_Laws
begin

unbundle bit_operations_syntax

text \<open>
  \<^verbatim>\<open>MoonGen/src/moonsniff.cpp\<close>, the live mode of MoonSniff: the latency of a packet is the difference of the time
  stamps of its two observations, which are matched by the lower 24 bits of its identifier. The calls are modelled
  one after the other; each releases the mutex of its entry before it returns.
\<close>

section \<open>State\<close>

record ms_entry =
  ts :: u64
  ident :: u64

record ms_stats =
  average_latency :: int
  variance_latency :: int
  hits :: u32
  misses :: u32
  inval_ts :: u32

record moonsniff =
  thresh :: int
  ms_count :: u64
  ms_m2 :: double
  ms_mean :: double
  ms_variance :: double
  ms_stats :: ms_stats
  hit_list :: "nat \<Rightarrow> ms_entry"

definition moonsniff0 :: moonsniff where
  "moonsniff0 = \<lparr>thresh = 0, ms_count = 0, ms_m2 = 0, ms_mean = 0, ms_variance = 0,
     ms_stats = \<lparr>average_latency = 0, variance_latency = 0, hits = 0, misses = 0, inval_ts = 0\<rparr>,
     hit_list = (\<lambda>_. \<lparr>ts = 0, ident = 0\<rparr>)\<rparr>"

definition INDEX_MASK :: u32 where "INDEX_MASK = 0x00FFFFFF"

section \<open>Operations\<close>

definition add_entry :: "u32 \<Rightarrow> u64 \<Rightarrow> moonsniff \<Rightarrow> moonsniff" where
  "add_entry identification timestamp s =
     (let index = unat (identification AND INDEX_MASK)
      in s\<lparr>hit_list := (hit_list s)(index := \<lparr>ts = timestamp, ident = ucast identification\<rparr>)\<rparr>)"

text \<open>A latency below the threshold leads to a message only.\<close>

definition record_hit :: "int \<Rightarrow> moonsniff \<Rightarrow> moonsniff" where
  "record_hit diff s =
     (let count = ms_count s + 1;
          (mean, m2) = online (unat count) (of_int diff) (ms_mean s, ms_m2 s)
      in s\<lparr>ms_stats := (ms_stats s)\<lparr>hits := hits (ms_stats s) + 1\<rparr>, ms_count := count, ms_mean := mean, ms_m2 := m2\<rparr>)"

definition test_for :: "u32 \<Rightarrow> u64 \<Rightarrow> moonsniff \<Rightarrow> moonsniff" where
  "test_for identification timestamp s =
     (let index = unat (identification AND INDEX_MASK);
          old_ts = (if ident (hit_list s index) = ucast identification then ts (hit_list s index) else 0);
          s1 = s\<lparr>hit_list := (hit_list s)(index := \<lparr>ts = 0, ident = 0\<rparr>)\<rparr>
      in if old_ts \<noteq> 0 then record_hit (sint (timestamp - old_ts)) s1
         else s1\<lparr>ms_stats := (ms_stats s1)\<lparr>misses := misses (ms_stats s1) + 1\<rparr>\<rparr>)"

text \<open>The conversion from \<^verbatim>\<open>double\<close> discards the fraction; it is undefined for values outside 64 bits.\<close>

definition double_to_int64 :: "double \<Rightarrow> int option" where
  "double_to_int64 x = int64 (if 0 \<le> x then \<lfloor>x\<rfloor> else \<lceil>x\<rceil>)"

definition fetch_stats :: "moonsniff \<Rightarrow> (ms_stats \<times> moonsniff) option" where
  "fetch_stats s =
     (let s1 = (if ms_count s < 2 then s else s\<lparr>ms_variance := ms_m2 s / of_nat (unat (ms_count s - 1))\<rparr>)
      in do { a \<leftarrow> double_to_int64 (ms_mean s1);
              v \<leftarrow> double_to_int64 (ms_variance s1);
              let st = (ms_stats s1)\<lparr>average_latency := a, variance_latency := v\<rparr>;
              Some (st, s1\<lparr>ms_stats := st\<rparr>) })"

definition ms_set_thresh :: "int \<Rightarrow> moonsniff \<Rightarrow> moonsniff" where "ms_set_thresh t s = s\<lparr>thresh := t\<rparr>"
definition ms_add_entry :: "u32 \<Rightarrow> u64 \<Rightarrow> moonsniff \<Rightarrow> moonsniff" where "ms_add_entry = add_entry"
definition ms_test_for :: "u32 \<Rightarrow> u64 \<Rightarrow> moonsniff \<Rightarrow> moonsniff" where "ms_test_for = test_for"
definition ms_fetch_stats :: "moonsniff \<Rightarrow> (ms_stats \<times> moonsniff) option" where "ms_fetch_stats = fetch_stats"

section \<open>What is measured\<close>

datatype sniffed = Pre u32 u64 | Post u32 u64

fun sniff :: "sniffed \<Rightarrow> moonsniff \<Rightarrow> moonsniff" where
  "sniff (Pre i t) s = ms_add_entry i t s"
| "sniff (Post i t) s = ms_test_for i t s"

text \<open>
  The specification: the packets seen before the device and not yet behind it, at most one for each value of the lower
  24 bits; the latencies and the number of unmatched packets.
\<close>

record matcher =
  pending :: "nat \<rightharpoonup> u32 \<times> u64"
  latencies :: "int list"
  unmatched :: nat

definition ms_slot :: "u32 \<Rightarrow> nat" where
  "ms_slot i = unat i mod 2 ^ 24"

fun matches :: "sniffed \<Rightarrow> matcher \<Rightarrow> matcher" where
  "matches (Pre i t) m = m\<lparr>pending := (pending m)(ms_slot i \<mapsto> (i, t))\<rparr>"
| "matches (Post i t) m =
     (let m1 = m\<lparr>pending := (pending m)(ms_slot i := None)\<rparr>
      in case pending m (ms_slot i) of
           Some (j, t0) \<Rightarrow> if j = i \<and> t0 \<noteq> 0 then m1\<lparr>latencies := latencies m @ [sint (t - t0)]\<rparr> else m1\<lparr>unmatched := Suc (unmatched m)\<rparr>
         | None \<Rightarrow> m1\<lparr>unmatched := Suc (unmatched m)\<rparr>)"

definition entry_of :: "(u32 \<times> u64) option \<Rightarrow> ms_entry" where
  "entry_of p = (case p of None \<Rightarrow> \<lparr>ts = 0, ident = 0\<rparr> | Some (i, t) \<Rightarrow> \<lparr>ts = t, ident = ucast i\<rparr>)"

definition measures :: "matcher \<Rightarrow> moonsniff \<Rightarrow> bool" where
  "measures m s \<longleftrightarrow> hit_list s = (\<lambda>k. entry_of (pending m k)) \<and>
     unat (ms_count s) = length (latencies m) \<and> unat (hits (ms_stats s)) = length (latencies m) \<and>
     unat (misses (ms_stats s)) = unmatched m \<and>
     (latencies m = [] \<longrightarrow> (ms_mean s, ms_m2 s) = (0, 0)) \<and>
     (latencies m \<noteq> [] \<longrightarrow> (ms_mean s, ms_m2 s) = moments (map of_int (latencies m)))"

lemma index_ms_slot: "unat (i AND INDEX_MASK) = ms_slot i"
proof -
  have "i AND INDEX_MASK = take_bit 24 i" by (simp add: INDEX_MASK_def take_bit_eq_mask mask_eq_exp_minus_1)
  then show ?thesis by (simp only: unsigned_take_bit_eq ms_slot_def) (simp add: take_bit_eq_mod)
qed

lemma ucast_u32_eq [simp]: "(ucast (i :: u32) :: u64) = ucast j \<longleftrightarrow> i = j"
  by (metis unat_u32_u64 word_unat_eq_iff)

lemma measures_hit:
  assumes "measures m s" and "length (latencies m) + unmatched m + 1 < 2 ^ 32"
  shows "measures (m\<lparr>latencies := latencies m @ [d]\<rparr>) (record_hit d s)"
proof -
  note M = assms(1) [unfolded measures_def]
  have c: "unat (ms_count s + 1) = Suc (length (latencies m))" using M assms(2) by (simp add: unat_word_ariths)
  have h: "unat (hits (ms_stats s) + 1) = Suc (length (latencies m))" using M assms(2) by (simp add: unat_word_ariths)
  have "online (Suc (length (latencies m))) (of_int d) (ms_mean s, ms_m2 s) = moments (map of_int (latencies m @ [d]))"
    using online_step [of "map of_int (latencies m)" "(ms_mean s, ms_m2 s)" "of_int d"] M by simp
  then show ?thesis using M c h by (simp add: measures_def record_hit_def Let_def case_prod_beta)
qed

lemma measures_pending:
  "measures m s \<Longrightarrow> measures (m\<lparr>pending := (pending m)(k := p)\<rparr>) (s\<lparr>hit_list := (hit_list s)(k := entry_of p)\<rparr>)"
  by (auto simp: measures_def fun_eq_iff)

lemma measures_miss:
  assumes "measures m s" and "length (latencies m) + unmatched m + 1 < 2 ^ 32"
  shows "measures (m\<lparr>unmatched := Suc (unmatched m)\<rparr>) (s\<lparr>ms_stats := (ms_stats s)\<lparr>misses := misses (ms_stats s) + 1\<rparr>\<rparr>)"
  using assms by (simp add: measures_def unat_word_ariths)

lemma sniff_measures:
  assumes "measures m s" and "length (latencies m) + unmatched m + 1 < 2 ^ 32"
  shows "measures (matches e m) (sniff e s)"
proof (cases e)
  case (Pre i t)
  then show ?thesis using measures_pending [OF assms(1), of "ms_slot i" "Some (i, t)"]
    by (simp add: ms_add_entry_def add_entry_def index_ms_slot entry_of_def)
next
  case (Post i t)
  let ?s1 = "s\<lparr>hit_list := (hit_list s)(ms_slot i := \<lparr>ts = 0, ident = 0\<rparr>)\<rparr>"
  let ?m1 = "m\<lparr>pending := (pending m)(ms_slot i := None)\<rparr>"
  have one: "measures ?m1 ?s1" using measures_pending [OF assms(1), of "ms_slot i" None] by (simp add: entry_of_def)
  have l: "length (latencies ?m1) + unmatched ?m1 + 1 < 2 ^ 32" using assms(2) by simp
  have e: "hit_list s (ms_slot i) = entry_of (pending m (ms_slot i))" using assms(1) by (simp add: measures_def)
  show ?thesis
    using measures_hit [OF one l, of "sint (t - ts (hit_list s (ms_slot i)))"] measures_miss [OF one l]
    unfolding Post by (auto simp: ms_test_for_def test_for_def Let_def index_ms_slot e entry_of_def split: option.splits)
qed

definition matcher0 :: matcher where
  "matcher0 = \<lparr>pending = (\<lambda>_. None), latencies = [], unmatched = 0\<rparr>"

lemma measures0: "measures matcher0 moonsniff0"
  by (simp add: measures_def matcher0_def moonsniff0_def entry_of_def)

lemma matches_length: "length (latencies (matches e m)) + unmatched (matches e m) \<le> length (latencies m) + unmatched m + 1"
  by (cases e) (auto simp: Let_def split: option.splits)

lemma fold_measures:
  "measures m s \<Longrightarrow> length (latencies m) + unmatched m + length es < 2 ^ 32 \<Longrightarrow> measures (fold matches es m) (fold sniff es s)"
proof (induction es arbitrary: m s)
  case (Cons e es)
  then show ?case using sniff_measures [of m s e] matches_length [of e m] by simp
qed simp



text \<open>
  A latency below the threshold is announced as ignored but still counted, and never as an invalid time
  stamp: with the default threshold 0 a latency of -50 gives the mean -50.
\<close>

theorem moonsniff_threshold:
  "(let s = fold sniff [Pre 1 100, Post 1 50] moonsniff0 in (ms_mean s < of_int (thresh s), hits (ms_stats s), inval_ts (ms_stats s))) = (True, 1, 0)"
  by (simp add: ms_add_entry_def add_entry_def ms_test_for_def test_for_def record_hit_def online_def Let_def moonsniff0_def
    INDEX_MASK_def)

end
