(* ===== verification/Rate_Limiter.thy ===== *)
theory Rate_Limiter
  imports Histogram Device_Laws Ring_Fifo
begin

text \<open>
  \<^verbatim>\<open>MoonGen/src/software-rate-limiter.cpp\<close>: a thread takes packets from a ring and sends them at computed
  times. The environment gives the successive values of the time stamp counter, the answers of \<^verbatim>\<open>is_running\<close> and of the
  stop flag, the room in the queue of the card, and the random delays. The wire records with every packet the last value
  of the counter read before it was sent. Floating point numbers are rational numbers, without rounding.
\<close>

section \<open>Environment and state\<close>

record rl_env =
  tsc :: "nat \<Rightarrow> u64"
  running :: "nat \<Rightarrow> bool"
  stop :: "nat \<Rightarrow> bool"
  room_for :: "nat \<Rightarrow> nat"
  exponential :: "nat \<Rightarrow> int \<Rightarrow> double"

record rl_state =
  rl_ring :: "tx_mbuf rte_ring"
  reads :: nat
  asked :: nat
  stops :: nat
  draws :: nat
  rl_queue :: "(u64 \<times> tx_mbuf) txq"
  ctl_count :: u64

definition batch_size :: nat where "batch_size = 64"

definition is_running0 :: "rl_env \<Rightarrow> rl_state \<Rightarrow> bool \<times> rl_state" where
  "is_running0 env s = (running env (asked s), s\<lparr>asked := Suc (asked s)\<rparr>)"

text \<open>\<^verbatim>\<open>limiter_control::running\<close>; the stop flag is only read if the program is running.\<close>

definition ctl_running :: "rl_env \<Rightarrow> rl_state \<Rightarrow> bool \<times> rl_state" where
  "ctl_running env s =
     (let (r, s1) = is_running0 env s
      in if r then (\<not> stop env (stops s1), s1\<lparr>stops := Suc (stops s1)\<rparr>) else (False, s1))"

definition count_packets :: "u64 \<Rightarrow> rl_state \<Rightarrow> rl_state" where
  "count_packets n s = s\<lparr>ctl_count := ctl_count s + n\<rparr>"

definition get_tsc_cycles :: "rl_env \<Rightarrow> rl_state \<Rightarrow> u64 \<times> rl_state" where
  "get_tsc_cycles env s = (tsc env (reads s), s\<lparr>reads := Suc (reads s)\<rparr>)"

text \<open>\<^verbatim>\<open>while ((cur = rte_get_tsc_cycles()) < next_send);\<close>\<close>

partial_function (option) wait_until :: "rl_env \<Rightarrow> u64 \<Rightarrow> rl_state \<Rightarrow> (u64 \<times> rl_state) option" where
  "wait_until env next_send s =
     (let (cur, s1) = get_tsc_cycles env s
      in if cur < next_send then wait_until env next_send s1 else Some (cur, s1))"

declare wait_until.simps [code]

text \<open>
  \<^verbatim>\<open>while (rte_eth_tx_burst(device, queue, bufs + i, 1) == 0) { if (!ctl->running()) return; }\<close>; \<open>Inl\<close> is
  the return from the main loop.
\<close>

partial_function (option) tx_one :: "rl_env \<Rightarrow> u64 \<times> tx_mbuf \<Rightarrow> rl_state \<Rightarrow> (rl_state + rl_state) option" where
  "tx_one env p s =
     Option.bind (rte_eth_tx_burst (room_for env) [p] 1 (rl_queue s)) (\<lambda>(k, q).
       let s1 = s\<lparr>rl_queue := q\<rparr>
       in if k = 0 then
            (let (r, s2) = ctl_running env s1 in if \<not> r then Some (Inl s2) else tx_one env p s2)
          else Some (Inr s1))"

declare tx_one.simps [code]

section \<open>Constant bit rate\<close>

text \<open>The conversion of a floating point number to \<^verbatim>\<open>uint64_t\<close>, undefined outside of the range.\<close>

definition to_u64 :: "double \<Rightarrow> u64 option" where
  "to_u64 x = (if - 1 < x \<and> x < 2 ^ 64 then Some (word_of_int (if 0 \<le> x then \<lfloor>x\<rfloor> else 0)) else None)"

definition cbr_cycles :: "u32 \<Rightarrow> u64 \<Rightarrow> u64 option" where
  "cbr_cycles target tsc_hz = to_u64 (of_nat (unat target) / (1000000000 / of_nat (unat tsc_hz)))"

primrec cbr_batch :: "rl_env \<Rightarrow> u64 \<Rightarrow> tx_mbuf list \<Rightarrow> u64 \<Rightarrow> rl_state \<Rightarrow> (rl_state + u64 \<times> rl_state) option" where
  "cbr_batch env id_cycles [] next_send s = Some (Inr (next_send, s))"
| "cbr_batch env id_cycles (p # ps) next_send s =
     do { (cur, s1) \<leftarrow> wait_until env next_send s;
          r \<leftarrow> tx_one env (cur, p) s1;
          (case r of Inl s2 \<Rightarrow> Some (Inl s2) | Inr s2 \<Rightarrow> cbr_batch env id_cycles ps (next_send + id_cycles) s2) }"

text \<open>\<open>if (((int64_t) cur - (int64_t) next_send) > (int64_t) tsc_hz / 100) next_send = cur;\<close>\<close>

definition restart :: "u64 \<Rightarrow> u64 \<Rightarrow> u64 \<Rightarrow> u64 option" where
  "restart tsc_hz cur next_send =
     do { d \<leftarrow> int64 (sint cur - sint next_send);
          Some (if d > c_div (sint tsc_hz) 100 then cur else next_send) }"

partial_function (option) cbr_loop :: "rl_env \<Rightarrow> tx_mbuf list \<Rightarrow> u64 \<Rightarrow> u64 \<Rightarrow> u64 \<Rightarrow> rl_state \<Rightarrow> rl_state option" where
  "cbr_loop env bufs tsc_hz id_cycles next_send s =
     (let (r, s1) = is_running0 env s
      in if \<not> r then Some s1
         else Option.bind (ring_dequeue (rl_ring s1) bufs (int batch_size)) (\<lambda>(n, bufs1, ring1).
           let (cur, s2) = get_tsc_cycles env (s1\<lparr>rl_ring := ring1\<rparr>)
           in Option.bind (restart tsc_hz cur next_send) (\<lambda>ns.
             if n \<noteq> 0 then
               Option.bind (cbr_batch env id_cycles (take (unat n) bufs1) ns s2) (\<lambda>res.
                 case res of Inl s3 \<Rightarrow> Some s3
                 | Inr (ns1, s3) \<Rightarrow> cbr_loop env bufs1 tsc_hz id_cycles ns1 (count_packets (ucast n) s3))
             else
               (let (r, s3) = ctl_running env s2
                in if \<not> r then Some s3 else cbr_loop env bufs1 tsc_hz id_cycles ns s3))))"

declare cbr_loop.simps [code]

definition main_loop_cbr :: "rl_env \<Rightarrow> u64 \<Rightarrow> tx_mbuf list \<Rightarrow> u32 \<Rightarrow> rl_state \<Rightarrow> rl_state option" where
  "main_loop_cbr env tsc_hz bufs target s =
     do { id_cycles \<leftarrow> cbr_cycles target tsc_hz; cbr_loop env bufs tsc_hz id_cycles 0 s }"

section \<open>Arbitrary times\<close>

text \<open>The batch size is halved until a batch is complete.\<close>

function dequeue_halving :: "tx_mbuf list \<Rightarrow> nat \<Rightarrow> tx_mbuf rte_ring \<Rightarrow> (u32 \<times> nat \<times> tx_mbuf list \<times> tx_mbuf rte_ring) option" where
  "dequeue_halving bufs cur_batch_size ring =
     do { (n, bufs1, ring1) \<leftarrow> ring_dequeue ring bufs (int cur_batch_size);
          if n = 0 \<and> cur_batch_size > 1 then dequeue_halving bufs1 (cur_batch_size div 2) ring1
          else Some (n, cur_batch_size, bufs1, ring1) }"
  by pat_completeness auto
termination by (relation "measure (\<lambda>(_, n, _). n)") auto

declare dequeue_halving.simps [simp del]

definition gap_cycles :: "double \<Rightarrow> u64 \<Rightarrow> tx_mbuf \<Rightarrow> u64 option" where
  "gap_cycles link_bps tsc_hz p =
     (if link_bps = 0 then None else to_u64 (of_nat (unat (udata64 p * 8)) / link_bps * of_nat (unat tsc_hz)))"

primrec gap_batch :: "rl_env \<Rightarrow> double \<Rightarrow> u64 \<Rightarrow> tx_mbuf list \<Rightarrow> u64 \<Rightarrow> rl_state \<Rightarrow> (rl_state + u64 \<times> rl_state) option" where
  "gap_batch env link_bps tsc_hz [] next_send s = Some (Inr (next_send, s))"
| "gap_batch env link_bps tsc_hz (p # ps) next_send s =
     do { id_cycles \<leftarrow> gap_cycles link_bps tsc_hz p;
          (cur, s1) \<leftarrow> wait_until env (next_send + id_cycles) s;
          r \<leftarrow> tx_one env (cur, p) s1;
          (case r of Inl s2 \<Rightarrow> Some (Inl s2) | Inr s2 \<Rightarrow> gap_batch env link_bps tsc_hz ps (next_send + id_cycles) s2) }"

partial_function (option) gap_loop :: "rl_env \<Rightarrow> tx_mbuf list \<Rightarrow> double \<Rightarrow> u64 \<Rightarrow> u64 \<Rightarrow> rl_state \<Rightarrow> rl_state option" where
  "gap_loop env bufs link_bps tsc_hz next_send s =
     (let (r, s1) = is_running0 env s
      in if \<not> r then Some s1
         else Option.bind (dequeue_halving bufs batch_size (rl_ring s1)) (\<lambda>(n, k, bufs1, ring1).
           let s2 = s1\<lparr>rl_ring := ring1\<rparr>
           in if n \<noteq> 0 then
                Option.bind (gap_batch env link_bps tsc_hz (take k bufs1) next_send s2) (\<lambda>res.
                  case res of Inl s3 \<Rightarrow> Some s3
                  | Inr (ns1, s3) \<Rightarrow> gap_loop env bufs1 link_bps tsc_hz ns1 (count_packets (ucast n) s3))
              else
                (let (r, s3) = ctl_running env s2
                 in if \<not> r then Some s3 else gap_loop env bufs1 link_bps tsc_hz next_send s3)))"

declare gap_loop.simps [code]

definition rl_main_loop :: "rl_env \<Rightarrow> u64 \<Rightarrow> tx_mbuf list \<Rightarrow> u32 \<Rightarrow> rl_state \<Rightarrow> rl_state option" where
  "rl_main_loop env tsc_hz bufs link_speed s =
     (let link_bps = of_nat (unat link_speed) * 1000000; (cur, s1) = get_tsc_cycles env s
      in gap_loop env bufs link_bps tsc_hz cur s1)"

section \<open>Poisson process\<close>

text \<open>The time of a packet on the wire in cycles; a link speed below 1000 divides by zero.\<close>

definition packet_cycles :: "u64 \<Rightarrow> u32 \<Rightarrow> tx_mbuf \<Rightarrow> u64 option" where
  "packet_cycles tsc_hz link_speed p =
     (if link_speed div 1000 = 0 then None
      else let pkt_time = ucast ((pkt_len p + 24) * 8 div (link_speed div 1000)) :: u64
           in to_u64 (of_nat (unat pkt_time) * (of_nat (unat tsc_hz) / 1000000000)))"

definition average_gap :: "u64 \<Rightarrow> u32 \<Rightarrow> u64 \<Rightarrow> int option" where
  "average_gap tsc_hz target pkt_time =
     (let x = of_nat (unat tsc_hz) / (1000000000 / of_nat (unat target)) - of_nat (unat pkt_time) :: double
      in int64 (if 0 \<le> x then \<lfloor>x\<rfloor> else \<lceil>x\<rceil>))"

primrec poisson_batch ::
  "rl_env \<Rightarrow> u64 \<Rightarrow> u32 \<Rightarrow> u32 \<Rightarrow> tx_mbuf list \<Rightarrow> u64 \<Rightarrow> rl_state \<Rightarrow> (rl_state + u64 \<times> rl_state) option" where
  "poisson_batch env tsc_hz target link_speed [] next_send s = Some (Inr (next_send, s))"
| "poisson_batch env tsc_hz target link_speed (p # ps) next_send s =
     do { pkt_time \<leftarrow> packet_cycles tsc_hz link_speed p;
          avg \<leftarrow> average_gap tsc_hz target pkt_time;
          (cur, s1) \<leftarrow> wait_until env next_send s;
          let (delay, s2) = (if avg \<le> 0 then (0, s1) else (exponential env (draws s1) avg, s1\<lparr>draws := Suc (draws s1)\<rparr>));
          ns \<leftarrow> to_u64 (of_nat (unat next_send) + (of_nat (unat pkt_time) + delay));
          r \<leftarrow> tx_one env (cur, p) s2;
          (case r of Inl s3 \<Rightarrow> Some (Inl s3) | Inr s3 \<Rightarrow> poisson_batch env tsc_hz target link_speed ps ns s3) }"

partial_function (option) poisson_loop ::
  "rl_env \<Rightarrow> tx_mbuf list \<Rightarrow> u64 \<Rightarrow> u32 \<Rightarrow> u32 \<Rightarrow> u64 \<Rightarrow> rl_state \<Rightarrow> rl_state option" where
  "poisson_loop env bufs tsc_hz target link_speed next_send s =
     (let (r, s1) = is_running0 env s
      in if \<not> r then Some s1
         else Option.bind (ring_dequeue (rl_ring s1) bufs (int batch_size)) (\<lambda>(n, bufs1, ring1).
           let (cur, s2) = get_tsc_cycles env (s1\<lparr>rl_ring := ring1\<rparr>)
           in Option.bind (restart tsc_hz cur next_send) (\<lambda>ns.
             if n \<noteq> 0 then
               Option.bind (poisson_batch env tsc_hz target link_speed (take (unat n) bufs1) ns s2) (\<lambda>res.
                 case res of Inl s3 \<Rightarrow> Some s3
                 | Inr (ns1, s3) \<Rightarrow> poisson_loop env bufs1 tsc_hz target link_speed ns1 (count_packets (ucast n) s3))
             else
               (let (r, s3) = ctl_running env s2
                in if \<not> r then Some s3 else poisson_loop env bufs1 tsc_hz target link_speed ns s3))))"

declare poisson_loop.simps [code]

definition main_loop_poisson :: "rl_env \<Rightarrow> u64 \<Rightarrow> tx_mbuf list \<Rightarrow> u32 \<Rightarrow> u32 \<Rightarrow> rl_state \<Rightarrow> rl_state option" where
  "main_loop_poisson env tsc_hz bufs target link_speed s = poisson_loop env bufs tsc_hz target link_speed 0 s"

section \<open>Waiting and sending\<close>

text \<open>The counter reaches every value again and again, as a free running counter does.\<close>

definition ticking :: "(nat \<Rightarrow> u64) \<Rightarrow> bool" where
  "ticking f \<longleftrightarrow> (\<forall>v n. \<exists>d. v \<le> f (n + d))"

lemma wait_until_ok:
  assumes "ticking (tsc env)"
  shows "\<exists>cur n. wait_until env v s = Some (cur, s\<lparr>reads := n\<rparr>) \<and> v \<le> cur"
proof -
  obtain d where "v \<le> tsc env (reads s + d)" using assms by (auto simp: ticking_def)
  then show ?thesis
  proof (induction d arbitrary: s)
    case 0
    then show ?case by (subst wait_until.simps) (auto simp: get_tsc_cycles_def)
  next
    case (Suc d)
    from Suc.IH [of "s\<lparr>reads := Suc (reads s)\<rparr>"] Suc.prems show ?case
      by (subst wait_until.simps) (auto simp: get_tsc_cycles_def not_less)
  qed
qed

text \<open>How the state changes when the packets \<open>ps\<close>, with their times, are sent.\<close>

definition sent_on :: "rl_state \<Rightarrow> (u64 \<times> tx_mbuf) list \<Rightarrow> rl_state \<Rightarrow> bool" where
  "sent_on s ps s' \<longleftrightarrow> rl_ring s' = rl_ring s \<and> wire (rl_queue s') = wire (rl_queue s) @ ps \<and> ctl_count s' = ctl_count s"

lemma sent_on_trans: "sent_on s ps s1 \<Longrightarrow> sent_on s1 qs s2 \<Longrightarrow> sent_on s (ps @ qs) s2"
  by (simp add: sent_on_def)

lemma sent_on_reads [simp]: "sent_on s [] (s\<lparr>reads := n\<rparr>)"
  by (simp add: sent_on_def)

lemma sent_on_ctl: "ctl_running env s = (r, s1) \<Longrightarrow> sent_on s [] s1"
  by (auto simp: ctl_running_def is_running0_def sent_on_def split: if_splits)

lemma tx_full:
  assumes "accept (tx_calls q) = 0"
  shows "rte_eth_tx_burst accept [p] 1 q = Some (0, q\<lparr>tx_calls := Suc (tx_calls q)\<rparr>)"
  using assms by (simp add: rte_eth_tx_burst_def)

lemma tx_one_ok:
  assumes "drains (room_for env)"
  shows "(\<exists>s'. tx_one env p s = Some (Inl s') \<and> sent_on s [] s') \<or> (\<exists>s'. tx_one env p s = Some (Inr s') \<and> sent_on s [p] s')"
proof -
  obtain d where "0 < room_for env (tx_calls (rl_queue s) + d)" using assms by (auto simp: drains_def)
  then show ?thesis
  proof (induction d arbitrary: s)
    case 0
    then show ?case by (subst (2) tx_one.simps) (simp add: tx_single sent_on_def)
  next
    case (Suc d)
    show ?case
    proof (cases "room_for env (tx_calls (rl_queue s)) = 0")
      case True
      let ?q = "(rl_queue s)\<lparr>tx_calls := Suc (tx_calls (rl_queue s))\<rparr>"
      obtain r s2 where r: "ctl_running env (s\<lparr>rl_queue := ?q\<rparr>) = (r, s2)" by fastforce
      then have s2: "sent_on (s\<lparr>rl_queue := ?q\<rparr>) [] s2" "rl_queue s2 = ?q"
        by (auto simp: ctl_running_def is_running0_def sent_on_def split: if_splits)
      then have "sent_on s ps s' \<longleftrightarrow> sent_on s2 ps s'" for ps s' by (auto simp: sent_on_def)
      moreover have "tx_one env p s = (if \<not> r then Some (Inl s2) else tx_one env p s2)"
        by (subst tx_one.simps) (simp add: tx_full True r)
      ultimately show ?thesis using Suc.IH [of s2] Suc.prems s2 by (cases r) (auto simp: sent_on_def)
    next
      case False
      then show ?thesis by (subst (2) tx_one.simps) (simp add: tx_single sent_on_def)
    qed
  qed
qed

text \<open>The packets are sent in order, none before its time.\<close>

definition on_time :: "u64 \<Rightarrow> u64 \<Rightarrow> (u64 \<times> tx_mbuf) list \<Rightarrow> bool" where
  "on_time start gap_len ps \<longleftrightarrow> (\<forall>j < length ps. start + of_nat j * gap_len \<le> fst (ps ! j))"

lemma on_time_Cons: "start \<le> t \<Longrightarrow> on_time (start + c) c ps \<Longrightarrow> on_time start c ((t, p) # ps)"
  by (auto simp: on_time_def nth_Cons algebra_simps split: nat.splits)

lemma cbr_batch_ok:
  assumes "ticking (tsc env)" and "drains (room_for env)"
  shows "(\<exists>s' ts. cbr_batch env c ps v s = Some (Inl s') \<and> sent_on s ts s' \<and> on_time v c ts \<and>
      map snd ts = take (length ts) ps \<and> length ts < length ps) \<or>
    (\<exists>s' ts. cbr_batch env c ps v s = Some (Inr (v + of_nat (length ps) * c, s')) \<and> sent_on s ts s' \<and> on_time v c ts \<and> map snd ts = ps)"
proof (induction ps arbitrary: v s)
  case Nil
  then show ?case by (auto simp: sent_on_def on_time_def)
next
  case (Cons p ps)
  obtain cur n where w: "wait_until env v s = Some (cur, s\<lparr>reads := n\<rparr>)" "v \<le> cur"
    using wait_until_ok [OF assms(1)] by blast
  from tx_one_ok [OF assms(2), of "(cur, p)" "s\<lparr>reads := n\<rparr>"] show ?case
  proof (elim disjE exE conjE)
    fix s1 assume "tx_one env (cur, p) (s\<lparr>reads := n\<rparr>) = Some (Inl s1)" "sent_on (s\<lparr>reads := n\<rparr>) [] s1"
    then show ?thesis using w by (auto simp: sent_on_def on_time_def intro!: exI [of _ "[]"])
  next
    fix s1 assume t: "tx_one env (cur, p) (s\<lparr>reads := n\<rparr>) = Some (Inr s1)" "sent_on (s\<lparr>reads := n\<rparr>) [(cur, p)] s1"
    have step: "cbr_batch env c (p # ps) v s = cbr_batch env c ps (v + c) s1" using w(1) t(1) by simp
    have s1: "sent_on s ((cur, p) # ts) s'" if "sent_on s1 ts s'" for ts s'
      using sent_on_trans [OF sent_on_trans [OF sent_on_reads [of s n] t(2)] that] by simp
    from Cons.IH [of "v + c" s1] show ?thesis
      unfolding step using s1 on_time_Cons [OF w(2)] by (fastforce simp: algebra_simps)
  qed
qed

end
