(* ===== verification/Rate_Laws.thy ===== *)
theory Rate_Laws
  imports Rate_Limiter Ps_Ring
begin

text \<open>
  What the three loops of the software rate limiter have in common: they send the packets of the ring in order, never
  one before its time. The locale \<open>paced_batch\<close> states how a batch is sent, \<open>limiter_loop\<close> how batches are taken from the
  ring; each main loop is an instance.
\<close>

section \<open>Batches\<close>

locale paced_batch =
  fixes env :: rl_env
    and batch :: "tx_mbuf list \<Rightarrow> u64 \<Rightarrow> rl_state \<Rightarrow> (rl_state + u64 \<times> rl_state) option"
    and due :: "tx_mbuf \<Rightarrow> u64 \<Rightarrow> u64 option"
    and advance :: "tx_mbuf \<Rightarrow> u64 \<Rightarrow> rl_state \<Rightarrow> (u64 \<times> rl_state) option"
  assumes batch_Nil: "batch [] v s = Some (Inr (v, s))"
    and batch_Cons: "batch (p # ps) v s =
      do { w \<leftarrow> due p v; (cur, s1) \<leftarrow> wait_until env w s; (v1, s2) \<leftarrow> advance p v s1; r \<leftarrow> tx_one env (cur, p) s2;
           (case r of Inl s3 \<Rightarrow> Some (Inl s3) | Inr s3 \<Rightarrow> batch ps v1 s3) }"
    and advance_sends: "advance p v s = Some (v1, s1) \<Longrightarrow> sent_on s [] s1"

definition batch_result :: "tx_mbuf list \<Rightarrow> rl_state \<Rightarrow> rl_state + u64 \<times> rl_state \<Rightarrow> (u64 \<times> tx_mbuf) list \<Rightarrow> bool" where
  "batch_result ps s res ts \<longleftrightarrow> map snd ts = take (length ts) ps \<and>
     (case res of Inl s1 \<Rightarrow> sent_on s ts s1 \<and> length ts < length ps | Inr (v, s1) \<Rightarrow> sent_on s ts s1 \<and> length ts = length ps)"

lemma wait_until_result:
  assumes "wait_until env v s = Some y"
  shows "sent_on s [] (snd y) \<and> v \<le> fst y"
proof (rule wait_until.raw_induct [OF _ assms, where P = "\<lambda>env v s y. sent_on s [] (snd y) \<and> v \<le> fst y"])
  fix f env v s y
  assume IH: "\<And>env v s y. f env v s = Some y \<Longrightarrow> sent_on s [] (snd y) \<and> v \<le> fst y"
    and eq: "(let (cur, s1) = get_tsc_cycles env s in if cur < v then f env v s1 else Some (cur, s1)) = Some y"
  show "sent_on s [] (snd y) \<and> v \<le> fst y"
  proof (cases "tsc env (reads s) < v")
    case True
    then have "sent_on (s\<lparr>reads := Suc (reads s)\<rparr>) [] (snd y) \<and> v \<le> fst y"
      using IH eq by (simp add: get_tsc_cycles_def)
    then show ?thesis by (simp add: sent_on_def)
  next
    case False
    then have "y = (tsc env (reads s), s\<lparr>reads := Suc (reads s)\<rparr>)" using eq by (simp add: get_tsc_cycles_def)
    then show ?thesis using False by (simp add: sent_on_def)
  qed
qed

definition tx_result :: "u64 \<times> tx_mbuf \<Rightarrow> rl_state \<Rightarrow> rl_state + rl_state \<Rightarrow> bool" where
  "tx_result p s r \<longleftrightarrow> (case r of Inl s1 \<Rightarrow> sent_on s [] s1 | Inr s1 \<Rightarrow> sent_on s [p] s1)"

lemma tx_one_result:
  assumes "tx_one env p s = Some r"
  shows "tx_result p s r"
proof (rule tx_one.raw_induct [OF _ assms, where P = "\<lambda>env p s r. tx_result p s r"])
  fix f env p s r
  assume IH: "\<And>env p s r. f env p s = Some r \<Longrightarrow> tx_result p s r"
    and eq: "Option.bind (rte_eth_tx_burst (room_for env) [p] 1 (rl_queue s)) (\<lambda>(k, q).
       let s1 = s\<lparr>rl_queue := q\<rparr>
       in if k = 0 then (let (r, s2) = ctl_running env s1 in if \<not> r then Some (Inl s2) else f env p s2)
          else Some (Inr s1)) = Some r"
  show "tx_result p s r"
  proof (cases "room_for env (tx_calls (rl_queue s)) = 0")
    case True
    let ?q = "(rl_queue s)\<lparr>tx_calls := Suc (tx_calls (rl_queue s))\<rparr>"
    obtain b s2 where b: "ctl_running env (s\<lparr>rl_queue := ?q\<rparr>) = (b, s2)" by fastforce
    then have "sent_on (s\<lparr>rl_queue := ?q\<rparr>) [] s2" by (rule sent_on_ctl)
    then have same: "sent_on s ps s' \<longleftrightarrow> sent_on s2 ps s'" for ps s' by (auto simp: sent_on_def)
    have "(if \<not> b then Some (Inl s2) else f env p s2) = Some r" using eq by (simp add: tx_full True b)
    then show ?thesis using IH [of env p s2 r] unfolding tx_result_def same by (cases b) (auto simp: sent_on_def)
  next
    case False
    then show ?thesis using eq by (auto simp: tx_single tx_result_def sent_on_def)
  qed
qed

context paced_batch
begin

lemma batch_sends: "batch ps v s = Some res \<Longrightarrow> \<exists>ts. batch_result ps s res ts"
proof (induction ps arbitrary: v s)
  case Nil
  then show ?case by (auto simp: batch_Nil batch_result_def sent_on_def)
next
  case (Cons p ps)
  then obtain w cur s1 v1 s2 r where steps: "wait_until env w s = Some (cur, s1)" "advance p v s1 = Some (v1, s2)"
      "tx_one env (cur, p) s2 = Some r" "(case r of Inl s3 \<Rightarrow> Some (Inl s3) | Inr s3 \<Rightarrow> batch ps v1 s3) = Some res"
    by (auto simp: batch_Cons bind_eq_Some_iff)
  have s2: "sent_on s [] s2"
    using wait_until_result [OF steps(1)] advance_sends [OF steps(2)] by (simp add: sent_on_def)
  show ?case
  proof (cases r)
    case (Inl s3)
    then have "res = Inl s3" "sent_on s [] s3" using steps(4) tx_one_result [OF steps(3), unfolded tx_result_def] s2 by (auto simp: sent_on_def)
    then show ?thesis by (auto simp: batch_result_def intro!: exI [of _ "[]"])
  next
    case (Inr s3)
    then obtain ts where ts: "batch_result ps s3 res ts" using Cons.IH [of v1 s3] steps(4) by auto
    have "sent_on s [(cur, p)] s3" using Inr tx_one_result [OF steps(3), unfolded tx_result_def] s2 by (simp add: sent_on_def)
    then have "batch_result (p # ps) s res ((cur, p) # ts)"
      using ts by (auto simp: batch_result_def sent_on_def split: sum.splits)
    then show ?thesis ..
  qed
qed

end

interpretation cbr: paced_batch env "cbr_batch env c" "\<lambda>p v. Some v" "\<lambda>p v s. Some (v + c, s)" for env c
  by unfold_locales (auto simp: sent_on_def)

interpretation gaps: paced_batch env "gap_batch env bps hz" "\<lambda>p v. map_option ((+) v) (gap_cycles bps hz p)"
  "\<lambda>p v s. map_option (\<lambda>c. (v + c, s)) (gap_cycles bps hz p)" for env bps hz
proof unfold_locales
  fix p ps v s
  show "gap_batch env bps hz (p # ps) v s =
      do { w \<leftarrow> map_option ((+) v) (gap_cycles bps hz p); (cur, s1) \<leftarrow> wait_until env w s;
           (v1, s2) \<leftarrow> map_option (\<lambda>c. (v + c, s1)) (gap_cycles bps hz p); r \<leftarrow> tx_one env (cur, p) s2;
           (case r of Inl s3 \<Rightarrow> Some (Inl s3) | Inr s3 \<Rightarrow> gap_batch env bps hz ps v1 s3) }"
    by (cases "gap_cycles bps hz p") simp_all
qed (auto simp: sent_on_def)

definition poisson_due :: "u64 \<Rightarrow> u32 \<Rightarrow> u32 \<Rightarrow> tx_mbuf \<Rightarrow> u64 \<Rightarrow> u64 option" where
  "poisson_due hz target speed p v = do { t \<leftarrow> packet_cycles hz speed p; a \<leftarrow> average_gap hz target t; Some v }"

definition poisson_advance :: "rl_env \<Rightarrow> u64 \<Rightarrow> u32 \<Rightarrow> u32 \<Rightarrow> tx_mbuf \<Rightarrow> u64 \<Rightarrow> rl_state \<Rightarrow> (u64 \<times> rl_state) option" where
  "poisson_advance env hz target speed p v s =
     do { t \<leftarrow> packet_cycles hz speed p; a \<leftarrow> average_gap hz target t;
          let (d, s1) = (if a \<le> 0 then (0, s) else (exponential env (draws s) a, s\<lparr>draws := Suc (draws s)\<rparr>));
          ns \<leftarrow> to_u64 (of_nat (unat v) + (of_nat (unat t) + d)); Some (ns, s1) }"

interpretation poisson: paced_batch env "poisson_batch env hz target speed" "poisson_due hz target speed"
  "poisson_advance env hz target speed" for env hz target speed
proof unfold_locales
  fix p ps v s
  show "poisson_batch env hz target speed (p # ps) v s =
      do { w \<leftarrow> poisson_due hz target speed p v; (cur, s1) \<leftarrow> wait_until env w s;
           (v1, s2) \<leftarrow> poisson_advance env hz target speed p v s1; r \<leftarrow> tx_one env (cur, p) s2;
           (case r of Inl s3 \<Rightarrow> Some (Inl s3) | Inr s3 \<Rightarrow> poisson_batch env hz target speed ps v1 s3) }"
  proof (cases "packet_cycles hz speed p")
    case (Some t)
    then show ?thesis
      by (cases "average_gap hz target t") (simp_all add: poisson_due_def poisson_advance_def Let_def split_def)
  qed (simp add: poisson_due_def)
qed (auto simp: poisson_advance_def bind_eq_Some_iff sent_on_def split: if_splits)

section \<open>Loops\<close>

text \<open>
  One round of a main loop: \<open>deq\<close> takes packets from the ring, \<open>prep\<close> adjusts the time of the next packet. Of the
  buffers returned by \<open>deq\<close> the batch is sent.
\<close>

definition round_body ::
  "rl_env \<Rightarrow> (tx_mbuf list \<Rightarrow> tx_mbuf rte_ring \<Rightarrow> (u32 \<times> nat \<times> tx_mbuf list \<times> tx_mbuf rte_ring) option) \<Rightarrow>
   (u64 \<Rightarrow> rl_state \<Rightarrow> (u64 \<times> rl_state) option) \<Rightarrow>
   (tx_mbuf list \<Rightarrow> u64 \<Rightarrow> rl_state \<Rightarrow> (rl_state + u64 \<times> rl_state) option) \<Rightarrow>
   (tx_mbuf list \<Rightarrow> u64 \<Rightarrow> rl_state \<Rightarrow> rl_state option) \<Rightarrow> tx_mbuf list \<Rightarrow> u64 \<Rightarrow> rl_state \<Rightarrow> rl_state option" where
  "round_body env deq prep batch loop bufs v s =
     (let (r, s1) = is_running0 env s
      in if \<not> r then Some s1
         else Option.bind (deq bufs (rl_ring s1)) (\<lambda>(n, k, bufs1, ring1).
           Option.bind (prep v (s1\<lparr>rl_ring := ring1\<rparr>)) (\<lambda>(v1, s2).
             if n \<noteq> 0 then
               Option.bind (batch (take k bufs1) v1 s2) (\<lambda>res.
                 case res of Inl s3 \<Rightarrow> Some s3 | Inr (v2, s3) \<Rightarrow> loop bufs1 v2 (count_packets (ucast n) s3))
             else (let (r, s3) = ctl_running env s2 in if \<not> r then Some s3 else loop bufs1 v1 s3))))"

locale limiter_loop = paced_batch env batch due advance
  for env :: rl_env and batch due advance +
  fixes loop :: "tx_mbuf list \<Rightarrow> u64 \<Rightarrow> rl_state \<Rightarrow> rl_state option"
    and deq :: "tx_mbuf list \<Rightarrow> tx_mbuf rte_ring \<Rightarrow> (u32 \<times> nat \<times> tx_mbuf list \<times> tx_mbuf rte_ring) option"
    and prep :: "u64 \<Rightarrow> rl_state \<Rightarrow> (u64 \<times> rl_state) option"
  assumes loop_induct: "(\<And>f bufs v s y. (\<And>bufs v s y. f bufs v s = Some y \<Longrightarrow> P bufs v s y) \<Longrightarrow>
        round_body env deq prep batch f bufs v s = Some y \<Longrightarrow> P bufs v s y) \<Longrightarrow> loop bufs v s = Some y \<Longrightarrow> P bufs v s y"
    and deq_fifo: "ring_ok k ring \<Longrightarrow> batch_size \<le> length bufs \<Longrightarrow> deq bufs ring = Some (n, m, bufs1, ring1) \<Longrightarrow>
        ring_ok k ring1 \<and> length bufs1 = length bufs \<and>
        (if n = 0 then contents ring = contents ring1
         else contents ring = take m bufs1 @ contents ring1 \<and> unat n = m \<and> m \<le> batch_size \<and> m \<le> length bufs1)"
    and prep_sends: "prep v s = Some (v1, s1) \<Longrightarrow> sent_on s [] s1"

text \<open>
  What a loop has done when it returns: \<open>taken\<close> are the packets removed from the ring, \<open>ts\<close> those sent, \<open>m\<close> those
  counted.
\<close>

definition limiter_result :: "rl_state \<Rightarrow> rl_state \<Rightarrow> tx_mbuf list \<Rightarrow> (u64 \<times> tx_mbuf) list \<Rightarrow> nat \<Rightarrow> bool" where
  "limiter_result s s' taken ts m \<longleftrightarrow> wire (rl_queue s') = wire (rl_queue s) @ ts \<and>
     contents (rl_ring s) = taken @ contents (rl_ring s') \<and> map snd ts = take (length ts) taken \<and>
     length taken \<le> length ts + batch_size \<and> ctl_count s' = ctl_count s + of_nat m \<and> m \<le> length ts \<and> length ts < m + batch_size"

lemma limiter_result_refl:
  "sent_on s [] s' \<Longrightarrow> limiter_result s s' [] [] 0"
  by (simp add: limiter_result_def sent_on_def batch_size_def)

lemma limiter_result_stop:
  assumes "sent_on s ts s'" and "map snd ts = take (length ts) ps" and "length ts < length ps" and "length ps \<le> batch_size"
    and "contents r = ps @ contents (rl_ring s)"
  shows "limiter_result (s\<lparr>rl_ring := r\<rparr>) s' ps ts 0"
  using assms by (simp add: limiter_result_def sent_on_def)

lemma limiter_result_trans:
  assumes "sent_on s ts s1" and "map snd ts = ps" and "contents r = ps @ contents (rl_ring s)" and "unat n = length ps"
    and "limiter_result (count_packets (ucast (n :: u32)) s1) s' taken us m"
  shows "limiter_result (s\<lparr>rl_ring := r\<rparr>) s' (ps @ taken) (ts @ us) (length ps + m)"
proof -
  have l: "length ts = length ps" using assms(2) by (metis length_map)
  have "(ucast n :: u64) = of_nat (length ps)"
    using assms(4) by (metis unat_u32_u64 of_nat_unat)
  then show ?thesis using assms l by (auto simp: limiter_result_def sent_on_def count_packets_def)
qed

lemma limiter_result_skip:
  assumes "sent_on s [] s1" and "contents r = contents (rl_ring s)" and "limiter_result s1 s' taken us m"
  shows "limiter_result (s\<lparr>rl_ring := r\<rparr>) s' taken us m"
  using assms by (simp add: limiter_result_def sent_on_def)

context limiter_loop
begin

definition fifo_done :: "nat \<Rightarrow> tx_mbuf list \<Rightarrow> rl_state \<Rightarrow> rl_state \<Rightarrow> bool" where
  "fifo_done k bufs s y \<longleftrightarrow> (ring_ok k (rl_ring s) \<and> batch_size \<le> length bufs \<longrightarrow> (\<exists>taken ts m. limiter_result s y taken ts m))"

lemma idle_good:
  assumes IH: "\<And>bufs v s y. f bufs v s = Some y \<Longrightarrow> fifo_done k bufs s y"
    and "ring_ok k (rl_ring s2)" and "batch_size \<le> length bufs1" and "contents r = contents (rl_ring s2)"
    and rest: "(let (r, s3) = ctl_running env s2 in if \<not> r then Some s3 else f bufs1 v1 s3) = Some y"
  shows "\<exists>taken ts m. limiter_result (s2\<lparr>rl_ring := r\<rparr>) y taken ts m"
proof -
  obtain b s3 where b: "ctl_running env s2 = (b, s3)" by fastforce
  then have s3: "sent_on s2 [] s3" by (rule sent_on_ctl)
  have "\<exists>taken ts m. limiter_result s3 y taken ts m"
  proof (cases b)
    case True
    then have "f bufs1 v1 s3 = Some y" using rest b by simp
    from IH [OF this] show ?thesis using assms(2,3) s3 by (auto simp: fifo_done_def sent_on_def)
  next
    case False
    then have "y = s3" using rest b by simp
    then show ?thesis using limiter_result_refl [of s3 s3] by (auto simp: sent_on_def)
  qed
  then show ?thesis using limiter_result_skip [OF s3 assms(4)] by blast
qed

lemma batch_good:
  fixes n :: u32
  assumes IH: "\<And>bufs v s y. f bufs v s = Some y \<Longrightarrow> fifo_done k bufs s y"
    and "ring_ok k (rl_ring s2)" and "batch_size \<le> length bufs1"
    and c: "contents r = ps @ contents (rl_ring s2)" "unat n = length ps" "length ps \<le> batch_size"
    and rest: "Option.bind (batch ps v1 s2) (\<lambda>res.
      case res of Inl s3 \<Rightarrow> Some s3 | Inr (v2, s3) \<Rightarrow> f bufs1 v2 (count_packets (ucast n) s3)) = Some y"
  shows "\<exists>taken ts m. limiter_result (s2\<lparr>rl_ring := r\<rparr>) y taken ts m"
proof -
  obtain res where res: "batch ps v1 s2 = Some res"
    "(case res of Inl s3 \<Rightarrow> Some s3 | Inr (v2, s3) \<Rightarrow> f bufs1 v2 (count_packets (ucast n) s3)) = Some y"
    using rest by (auto simp: bind_eq_Some_iff)
  obtain ts where ts: "batch_result ps s2 res ts" using batch_sends [OF res(1)] by blast
  show ?thesis
  proof (cases res)
    case (Inl s3)
    then show ?thesis using limiter_result_stop [of s2 ts s3 ps r] ts res(2) c by (auto simp: batch_result_def)
  next
    case (Inr p)
    then obtain v2 s3 where s3: "res = Inr (v2, s3)" "f bufs1 v2 (count_packets (ucast n) s3) = Some y"
      using res(2) by (cases p) auto
    have t: "sent_on s2 ts s3" "map snd ts = ps" using ts s3(1) by (auto simp: batch_result_def)
    have "ring_ok k (rl_ring (count_packets (ucast n) s3))"
      using t(1) assms(2) by (auto simp: sent_on_def count_packets_def)
    then obtain taken us m where "limiter_result (count_packets (ucast n) s3) y taken us m"
      using IH [OF s3(2)] assms(3) unfolding fifo_done_def by blast
    from limiter_result_trans [OF t c(1,2) this] show ?thesis by blast
  qed
qed

lemma round_good:
  assumes IH: "\<And>bufs v s y. f bufs v s = Some y \<Longrightarrow> fifo_done k bufs s y"
    and eq: "round_body env deq prep batch f bufs v s = Some y" and ok: "ring_ok k (rl_ring s)" "batch_size \<le> length bufs"
  shows "\<exists>taken ts m. limiter_result s y taken ts m"
proof (cases "running env (asked s)")
  case False
  then have "y = s\<lparr>asked := Suc (asked s)\<rparr>" using eq by (simp add: round_body_def is_running0_def)
  then show ?thesis using limiter_result_refl [of s y] by (auto simp: sent_on_def)
next
  case True
  let ?s1 = "s\<lparr>asked := Suc (asked s)\<rparr>"
  obtain n m bufs1 ring1 v1 s2 where d: "deq bufs (rl_ring s) = Some (n, m, bufs1, ring1)"
      and p: "prep v (?s1\<lparr>rl_ring := ring1\<rparr>) = Some (v1, s2)"
      and rest: "(if n \<noteq> 0 then
               Option.bind (batch (take m bufs1) v1 s2) (\<lambda>res.
                 case res of Inl s3 \<Rightarrow> Some s3 | Inr (v2, s3) \<Rightarrow> f bufs1 v2 (count_packets (ucast n) s3))
             else (let (r, s3) = ctl_running env s2 in if \<not> r then Some s3 else f bufs1 v1 s3)) = Some y"
    using eq True by (auto simp: round_body_def is_running0_def bind_eq_Some_iff)
  note q = deq_fifo [OF ok d]
  have s2: "rl_ring s2 = ring1" "wire (rl_queue s2) = wire (rl_queue s)" "ctl_count s2 = ctl_count s"
    using prep_sends [OF p] by (simp_all add: sent_on_def)
  have "ring_ok k (rl_ring s2)" "batch_size \<le> length bufs1" using q s2(1) ok(2) by simp_all
  then have "\<exists>taken ts m. limiter_result (s2\<lparr>rl_ring := rl_ring s\<rparr>) y taken ts m"
  proof (cases "n = 0")
    case True
    then show ?thesis using \<open>ring_ok k (rl_ring s2)\<close> \<open>batch_size \<le> length bufs1\<close> rest q s2(1)
      by (intro idle_good [OF IH, where ?bufs1.0 = bufs1 and ?v1.0 = v1]) auto
  next
    case False
    then show ?thesis using \<open>ring_ok k (rl_ring s2)\<close> \<open>batch_size \<le> length bufs1\<close> rest q s2(1)
      by (intro batch_good [OF IH, where ?bufs1.0 = bufs1 and ?v1.0 = v1 and n = n and ps = "take m bufs1"]) auto
  qed
  then show ?thesis using s2 by (simp add: limiter_result_def)
qed

lemma loop_fifo:
  assumes "loop bufs v s = Some y" and "ring_ok k (rl_ring s)" and "batch_size \<le> length bufs"
  shows "\<exists>taken ts m. limiter_result s y taken ts m"
proof -
  have "fifo_done k bufs s y"
  proof (rule loop_induct [of "\<lambda>bufs v s y. fifo_done k bufs s y", OF _ assms(1)])
    fix f bufs v s y
    assume "\<And>bufs v s y. f bufs v s = Some y \<Longrightarrow> fifo_done k bufs s y" "round_body env deq prep batch f bufs v s = Some y"
    from round_good [OF this] show "fifo_done k bufs s y" by (simp add: fifo_done_def)
  qed
  then show ?thesis using assms(2,3) by (simp add: fifo_done_def)
qed

end

section \<open>The three loops\<close>

lemma ring_dequeue_ok:
  assumes "ring_ok k r" and "n \<le> length bufs" and "n < 2 ^ 31"
  shows "\<exists>m bufs1 r1. ring_dequeue r bufs (int n) = Some (of_nat m, bufs1, r1) \<and> m = (if n \<le> used r then n else 0) \<and>
    ring_ok k r1 \<and> length bufs1 = length bufs \<and> contents r = take m bufs1 @ contents r1"
proof -
  let ?m = "moved QUEUE_FIXED (used r) (unat (of_nat n :: u32))"
  have u: "unat (of_nat n :: u32) = n" using assms(3) by (intro unat_of_nat_u32) simp
  then have m: "?m \<le> length bufs" "?m \<le> used r" "?m = (if n \<le> used r then n else 0)"
    using moved_le [of QUEUE_FIXED "used r" n] assms(2) by (auto simp: moved_def)
  obtain r' where r': "do_dequeue r bufs (of_nat n) QUEUE_FIXED True =
        Some (of_nat ?m, of_nat (used r - ?m), overlay 0 (take ?m (contents r)) bufs, r')"
      "ring_ok k r'" "contents r' = drop ?m (contents r)"
    using do_dequeue_spec [OF assms(1) refl m(1), of True] by blast
  have "take ?m (overlay 0 (take ?m (contents r)) bufs) = take ?m (contents r)"
    using overlay_front [of "take ?m (contents r)" bufs] m by simp
  moreover have "length (overlay 0 (take ?m (contents r)) bufs) = length bufs" using m by simp
  moreover have "ring_dequeue r bufs (int n) = Some (of_nat ?m, overlay 0 (take ?m (contents r)) bufs, r')"
    using r'(1) by (simp add: ring_dequeue_def rte_ring_sc_dequeue_bulk_def)
  ultimately show ?thesis using r'(2,3) m(3) by (metis append_take_drop_id)
qed

definition deq_batch :: "tx_mbuf list \<Rightarrow> tx_mbuf rte_ring \<Rightarrow> (u32 \<times> nat \<times> tx_mbuf list \<times> tx_mbuf rte_ring) option" where
  "deq_batch bufs ring = map_option (\<lambda>(n, b, r). (n, unat n, b, r)) (ring_dequeue ring bufs (int batch_size))"

lemma deq_batch_fifo:
  assumes "ring_ok k ring" and "batch_size \<le> length bufs" and "deq_batch bufs ring = Some (n, m, bufs1, ring1)"
  shows "ring_ok k ring1 \<and> length bufs1 = length bufs \<and>
    (if n = 0 then contents ring = contents ring1
     else contents ring = take m bufs1 @ contents ring1 \<and> unat n = m \<and> m \<le> batch_size \<and> m \<le> length bufs1)"
  using ring_dequeue_ok [OF assms(1,2)] assms(2,3)
  by (auto simp: deq_batch_def batch_size_def unat_of_nat_u32 split: if_splits)

lemma dequeue_halving_fifo:
  assumes "ring_ok k ring" and "c \<le> length bufs" and "c < 2 ^ 31" and "dequeue_halving bufs c ring = Some (n, m, bufs1, ring1)"
  shows "ring_ok k ring1 \<and> length bufs1 = length bufs \<and>
    (if n = 0 then contents ring = contents ring1
     else contents ring = take m bufs1 @ contents ring1 \<and> unat n = m \<and> m \<le> c)"
  using assms
proof (induction bufs c ring rule: dequeue_halving.induct)
  case (1 bufs c ring)
  obtain l bufs2 ring2 where d: "ring_dequeue ring bufs (int c) = Some (of_nat l, bufs2, ring2)"
      "l = (if c \<le> used ring then c else 0)" "ring_ok k ring2" "length bufs2 = length bufs" "contents ring = take l bufs2 @ contents ring2"
    using ring_dequeue_ok [OF "1.prems"(1-3)] by blast
  have l: "unat (of_nat l :: u32) = l" "l \<le> c" using d(2) "1.prems"(3) by (auto intro: unat_of_nat_u32)
  show ?case
  proof (cases "(of_nat l :: u32) = 0 \<and> 1 < c")
    case True
    then have l0: "l = 0" using l(1) by (metis unat_0)
    have "dequeue_halving bufs2 (c div 2) ring2 = Some (n, m, bufs1, ring1)"
      using "1.prems"(4) d(1) True by (subst (asm) dequeue_halving.simps) simp
    moreover have c: "c div 2 \<le> length bufs2" "c div 2 < 2 ^ 31" "c div 2 \<le> c" using "1.prems"(2,3) d(4) by auto
    ultimately show ?thesis
      using "1.IH" [OF d(1) refl refl True d(3) c(1,2)] d(4,5) l0 c(3) by (auto split: if_splits)
  next
    case False
    then have "n = of_nat l" "m = c" "bufs1 = bufs2" "ring1 = ring2"
      using "1.prems"(4) d(1) by (subst (asm) dequeue_halving.simps, simp split: if_splits)+
    then show ?thesis using d(2-5) l by (auto split: if_splits)
  qed
qed

definition prep_restart :: "rl_env \<Rightarrow> u64 \<Rightarrow> u64 \<Rightarrow> rl_state \<Rightarrow> (u64 \<times> rl_state) option" where
  "prep_restart env hz v s = (let (cur, s1) = get_tsc_cycles env s in map_option (\<lambda>v1. (v1, s1)) (restart hz cur v))"

lemma prep_restart_sends: "prep_restart env hz v s = Some (v1, s1) \<Longrightarrow> sent_on s [] s1"
  by (auto simp: prep_restart_def get_tsc_cycles_def)

lemma bind_of_map: "Option.bind (map_option h x) g = Option.bind x (\<lambda>y. g (h y))"
  by (cases x) simp_all

text \<open>The bodies of the loops are instances of a round.\<close>

lemma restart_body:
  "(let (r, s1) = is_running0 env s
      in if \<not> r then Some s1
         else Option.bind (ring_dequeue (rl_ring s1) bufs (int batch_size)) (\<lambda>(n, bufs1, ring1).
           let (cur, s2) = get_tsc_cycles env (s1\<lparr>rl_ring := ring1\<rparr>)
           in Option.bind (restart tsc_hz cur next_send) (\<lambda>ns.
             if n \<noteq> 0 then
               Option.bind (batch (take (unat n) bufs1) ns s2) (\<lambda>res.
                 case res of Inl s3 \<Rightarrow> Some s3 | Inr (ns1, s3) \<Rightarrow> f bufs1 ns1 (count_packets (ucast n) s3))
             else (let (r, s3) = ctl_running env s2 in if \<not> r then Some s3 else f bufs1 ns s3)))) =
   round_body env deq_batch (prep_restart env tsc_hz) batch f bufs next_send s"
  by (simp add: round_body_def deq_batch_def prep_restart_def bind_of_map Let_def split_def cong: if_cong)

interpretation cbrl: limiter_loop env "cbr_batch env c" "\<lambda>p v. Some v" "\<lambda>p v s. Some (v + c, s)"
  "\<lambda>bufs v s. cbr_loop env bufs hz c v s" deq_batch "prep_restart env hz" for env c hz
proof unfold_locales
  fix P bufs v s y
  assume step: "\<And>f bufs v s y. (\<And>bufs v s y. f bufs v s = Some y \<Longrightarrow> P bufs v s y) \<Longrightarrow>
      round_body env deq_batch (prep_restart env hz) (cbr_batch env c) f bufs v s = Some y \<Longrightarrow> P bufs v s y"
    and eq: "cbr_loop env bufs hz c v s = Some y"
  have "e = env \<and> h = hz \<and> d = c \<longrightarrow> P b v s y" if "cbr_loop e b h d v s = Some y" for e b h d v s y
  proof (rule cbr_loop.raw_induct [OF _ that, where P = "\<lambda>e b h d v s y. e = env \<and> h = hz \<and> d = c \<longrightarrow> P b v s y"], goal_cases)
    case (1 f e b h d v s y)
    show ?case
    proof (intro impI, elim conjE)
      assume e: "e = env" "h = hz" "d = c"
      have "round_body env deq_batch (prep_restart env hz) (cbr_batch env c) (\<lambda>b v s. f env b hz c v s) b v s = Some y"
        using 1(2) unfolding e restart_body [symmetric] .
      then show "P b v s y" by (rule step [rotated]) (use 1(1) in blast)
    qed
  qed
  then show "P bufs v s y" using eq by simp
qed (rule deq_batch_fifo prep_restart_sends; assumption)+

interpretation poissonl: limiter_loop env "poisson_batch env hz target speed" "poisson_due hz target speed"
  "poisson_advance env hz target speed" "\<lambda>bufs v s. poisson_loop env bufs hz target speed v s" deq_batch "prep_restart env hz"
  for env hz target speed
proof unfold_locales
  fix P bufs v s y
  assume step: "\<And>f bufs v s y. (\<And>bufs v s y. f bufs v s = Some y \<Longrightarrow> P bufs v s y) \<Longrightarrow>
      round_body env deq_batch (prep_restart env hz) (poisson_batch env hz target speed) f bufs v s = Some y \<Longrightarrow> P bufs v s y"
    and eq: "poisson_loop env bufs hz target speed v s = Some y"
  let ?P = "\<lambda>e b h t u v s y. e = env \<and> h = hz \<and> t = target \<and> u = speed \<longrightarrow> P b v s y"
  have "?P e b h t u v s y" if "poisson_loop e b h t u v s = Some y" for e b h t u v s y
  proof (rule poisson_loop.raw_induct [OF _ that, where P = ?P], goal_cases)
    case (1 f e b h t u v s y)
    show ?case
    proof (intro impI, elim conjE)
      assume e: "e = env" "h = hz" "t = target" "u = speed"
      have "round_body env deq_batch (prep_restart env hz) (poisson_batch env hz target speed)
          (\<lambda>b v s. f env b hz target speed v s) b v s = Some y"
        using 1(2) unfolding e restart_body [symmetric] .
      then show "P b v s y" by (rule step [rotated]) (use 1(1) in blast)
    qed
  qed
  then show "P bufs v s y" using eq by simp
qed (rule deq_batch_fifo prep_restart_sends; assumption)+

lemma gap_body:
  "(let (r, s1) = is_running0 env s
      in if \<not> r then Some s1
         else Option.bind (dequeue_halving bufs batch_size (rl_ring s1)) (\<lambda>(n, k, bufs1, ring1).
           let s2 = s1\<lparr>rl_ring := ring1\<rparr>
           in if n \<noteq> 0 then
                Option.bind (batch (take k bufs1) next_send s2) (\<lambda>res.
                  case res of Inl s3 \<Rightarrow> Some s3 | Inr (ns1, s3) \<Rightarrow> f bufs1 ns1 (count_packets (ucast n) s3))
              else (let (r, s3) = ctl_running env s2 in if \<not> r then Some s3 else f bufs1 next_send s3))) =
   round_body env (\<lambda>bufs. dequeue_halving bufs batch_size) (\<lambda>v s. Some (v, s)) batch f bufs next_send s"
  by (simp add: round_body_def Let_def split_def cong: if_cong)

interpretation gapl: limiter_loop env "gap_batch env bps hz" "\<lambda>p v. map_option ((+) v) (gap_cycles bps hz p)"
  "\<lambda>p v s. map_option (\<lambda>c. (v + c, s)) (gap_cycles bps hz p)" "\<lambda>bufs v s. gap_loop env bufs bps hz v s"
  "\<lambda>bufs. dequeue_halving bufs batch_size" "\<lambda>v s. Some (v, s)" for env bps hz
proof unfold_locales
  fix P bufs v s y
  assume step: "\<And>f bufs v s y. (\<And>bufs v s y. f bufs v s = Some y \<Longrightarrow> P bufs v s y) \<Longrightarrow>
      round_body env (\<lambda>bufs. dequeue_halving bufs batch_size) (\<lambda>v s. Some (v, s)) (gap_batch env bps hz) f bufs v s = Some y \<Longrightarrow> P bufs v s y"
    and eq: "gap_loop env bufs bps hz v s = Some y"
  let ?P = "\<lambda>e b h t v s y. e = env \<and> h = bps \<and> t = hz \<longrightarrow> P b v s y"
  have "?P e b h t v s y" if "gap_loop e b h t v s = Some y" for e b h t v s y
  proof (rule gap_loop.raw_induct [OF _ that, where P = ?P], goal_cases)
    case (1 f e b h t v s y)
    show ?case
    proof (intro impI, elim conjE)
      assume e: "e = env" "h = bps" "t = hz"
      have "round_body env (\<lambda>bufs. dequeue_halving bufs batch_size) (\<lambda>v s. Some (v, s)) (gap_batch env bps hz)
          (\<lambda>b v s. f env b bps hz v s) b v s = Some y"
        using 1(2) unfolding e gap_body [symmetric] .
      then show "P b v s y" by (rule step [rotated]) (use 1(1) in blast)
    qed
  qed
  then show "P bufs v s y" using eq by simp
next
  fix k ring bufs n m bufs1 ring1
  assume "ring_ok k ring" "batch_size \<le> length bufs" "dequeue_halving bufs batch_size ring = Some (n, m, bufs1, ring1)"
  then show "ring_ok k ring1 \<and> length bufs1 = length bufs \<and>
      (if n = 0 then contents ring = contents ring1
       else contents ring = take m bufs1 @ contents ring1 \<and> unat n = m \<and> m \<le> batch_size \<and> m \<le> length bufs1)"
    using dequeue_halving_fifo [of k ring batch_size bufs] by (auto simp: batch_size_def split: if_splits)
qed (simp add: sent_on_def)

section \<open>Properties\<close>

text \<open>
  C29. A batch of the constant bit rate limiter returns; it sends the packets in order, packet \<open>j\<close> not before
  \<open>next_send + j * id_cycles\<close>; either all of them are sent and the time of the next packet is \<open>id_cycles\<close> after that of
  the last, or the limiter was stopped before.
\<close>

theorem cbr_batch_paced:
  assumes "ticking (tsc env)" and "drains (room_for env)"
  shows "\<exists>ts s'. wire (rl_queue s') = wire (rl_queue s) @ ts \<and> map snd ts = take (length ts) ps \<and>
    (\<forall>j. j < length ts \<longrightarrow> v + of_nat j * c \<le> fst (ts ! j)) \<and>
    (cbr_batch env c ps v s = Some (Inl s') \<and> length ts < length ps \<or>
     cbr_batch env c ps v s = Some (Inr (v + of_nat (length ps) * c, s')) \<and> length ts = length ps)"
  using cbr_batch_ok [OF assms, of c ps v s] by (auto simp: sent_on_def on_time_def)

definition rl_packet0 :: tx_mbuf where
  "rl_packet0 = \<lparr>m_id = 1, pkt_len = 60, data_len = 60, udata64 = 100, no_crc = False\<rparr>"

definition rl_env0 :: rl_env where
  "rl_env0 = \<lparr>tsc = of_nat, running = (\<lambda>n. n < 1), stop = (\<lambda>_. False), room_for = (\<lambda>_. 1), exponential = (\<lambda>_ _. 1)\<rparr>"

definition example_ring :: "tx_mbuf rte_ring" where
  "example_ring = \<lparr>rname = ''ring'', rflags = 3, rsize = 128, rmask = 127, rcapacity = 127, prod_head = 1, prod_tail = 1, prod_single = True,
     cons_head = 0, cons_tail = 0, cons_single = True, slots = replicate 128 rl_packet0\<rparr>"

definition example_rl :: rl_state where
  "example_rl = \<lparr>rl_ring = example_ring, reads = 0, asked = 0, stops = 0, draws = 0, rl_queue = \<lparr>tx_calls = 0, wire = []\<rparr>, ctl_count = 0\<rparr>"

lemma ticking_of_nat: "ticking of_nat"
  unfolding ticking_def
proof (intro allI)
  fix v :: u64 and n :: nat
  have "n \<le> 2 ^ 64 * n" by simp
  then have "n + (unat v + (2 ^ 64 * n - n)) = unat v + 2 ^ 64 * n" by simp
  moreover have "of_nat (2 ^ LENGTH(64) * n) = (0 :: u64)" by (simp only: word_of_nat_eq_0_iff dvd_triv_left)
  then have "of_nat (unat v + 2 ^ 64 * n) = v" by simp
  ultimately show "\<exists>d. v \<le> of_nat (n + d)" by (metis order_refl)
qed

theorem cbr_batch_paced_witness:
  "\<exists>ts s'. map snd ts = take (length ts) [rl_packet0, rl_packet0] \<and>
     (\<forall>j. j < length ts \<longrightarrow> 1000 + of_nat j * 50 \<le> fst (ts ! j :: u64 \<times> tx_mbuf)) \<and>
     (cbr_batch rl_env0 50 [rl_packet0, rl_packet0] 1000 example_rl = Some (Inl s') \<and> length ts < 2 \<or>
      cbr_batch rl_env0 50 [rl_packet0, rl_packet0] 1000 example_rl = Some (Inr (1100, s')) \<and> length ts = 2)"
proof -
  have "ticking (tsc rl_env0)" "drains (room_for rl_env0)"
    using ticking_of_nat by (simp_all add: rl_env0_def drains_def)
  from cbr_batch_paced [OF this, of example_rl "[rl_packet0, rl_packet0]" 1000 50] show ?thesis
    by (auto simp del: cbr_batch.simps simp flip: numeral_2_eq_2)
qed


lemma example_ring_ok: "ring_ok 7 example_ring"
  by (simp add: ring_ok_def example_ring_def)


end
