(* ===== verification/Spec2Isabelle.thy ===== *)
theory Spec2Isabelle
  imports Parse_Finish Rude_Main Crude_Main Bs_Ring Ring_Threads Pipe_Props Crc_Props Checksum_Laws Moonsniff Rate_Laws
begin

text \<open>
  The sender \<^verbatim>\<open>rude\<close> and the receiver \<^verbatim>\<open>crude\<close>.
\<close>

section \<open>From rude to crude\<close>

lemma header_of_recv:
  assumes "sizeof_udp_data \<le> length bs" and "int sizeof_udp_data \<le> PMAXSIZE"
  shows "header_of (recv_into bs buf) = take sizeof_udp_data bs"
  using assms by (intro nth_equalityI) (simp_all add: header_of_def recv_into_def)

lemma print_line_header:
  assumes "header_ok c now bs" and "int sizeof_udp_data \<le> int (length bs)" and "int (length bs) \<le> PMAXSIZE"
  shows "print_line port (header_of (recv_into bs buf)) (Received bs src sp t) =
    \<lparr>l_id = word_of_int (flow_id c), l_seq = word_of_int (sequence_nmbr c), l_src = src, l_sport = ntohs sp,
     l_dst = sin_addr (dst c), l_dport = port, l_tx_s = word_of_int (tv_sec now), l_tx_us = word_of_int (tv_usec now),
     l_rx_s = tv_sec t, l_rx_us = tv_usec t, l_size = int (length bs)\<rparr>"
proof -
  have h: "header_of (recv_into bs buf) = take 40 bs"
    using header_of_recv [of bs buf] assms(2) by (simp add: sizeof_udp_data_def PMAXSIZE_def)
  have "header_ok c now (take 40 bs)"
    using header_ok_take [OF assms(1), of 40] by (simp add: sizeof_udp_data_def)
  then show ?thesis
    using assms(3) by (simp add: print_line_def h header_ok_def rec_bytes_def min_def)
qed

text \<open>
  C12. \<^verbatim>\<open>crude\<close> prints for a packet of a CBR flow of \<^verbatim>\<open>rude\<close> the flow id, the sequence number, the
  destination, the time the packet was sent and its size, whatever the receive buffer held before.
\<close>

theorem crude_reads_rude:
  assumes "heap s a = Some c" and "params c = P_cbr p" and "0 < rate p" and "normalized (next_tx c)"
    and "int sizeof_udp_data \<le> psize p" and "psize p \<le> int (length (buffer s))" and "psize p \<le> PMAXSIZE"
    and "ticks s \<le> n" and "next_tx c \<le> clock env n"
  shows "\<exists>d s'. send_cbr env a s = Some s' \<and> sent s' = sent s @ [d] \<and> next_tx c \<le> dg_time d \<and>
    (\<forall>port buf src sp t. print_line port (header_of (recv_into (dg_bytes d) buf)) (Received (dg_bytes d) src sp t) =
      \<lparr>l_id = word_of_int (flow_id c), l_seq = word_of_int (sequence_nmbr c), l_src = src, l_sport = ntohs sp,
       l_dst = sin_addr (dst c), l_dport = port,
       l_tx_s = word_of_int (tv_sec (dg_time d)), l_tx_us = word_of_int (tv_usec (dg_time d)),
       l_rx_s = tv_sec t, l_rx_us = tv_usec t, l_size = psize p\<rparr>)"
proof -
  have len: "sizeof_udp_data \<le> length (buffer s)" "0 \<le> psize p" using assms(5,6) by linarith+
  obtain d s1 where x: "xmit env a c (psize p) s = Some (counted (sendto env (sent s) d = psize p) c, s1)"
    and one: "sent_one env c (psize p) s d s1"
    using xmit_sent_one [OF len assms(6,8,9)] by blast
  obtain t where "next_cbr (rate p) (next_tx c) = Some t"
    using next_cbr_micros [OF assms(3,4)] by blast
  then have send: "send_cbr env a s =
      Some (store a ((counted (sendto env (sent s) d = psize p) c)\<lparr>next_tx := t\<rparr>) s1)"
    using x assms(1,2) by (simp add: send_cbr_def)
  have d: "header_ok c (dg_time d) (dg_bytes d)" "int (length (dg_bytes d)) = psize p" "next_tx c \<le> dg_time d"
    "sent s1 = sent s @ [d]"
    using one header_ok_take assms(5,6) len(2) by (auto simp: sent_one_def)
  show ?thesis
    using send d print_line_header [OF d(1)] assms(5,7) by (intro exI conjI allI) (assumption | simp)+
qed

theorem crude_reads_rude_witness:
  "\<exists>d s'. send_cbr example_net 1 example_tx = Some s' \<and> sent s' = [d] \<and>
    l_size (print_line 10001 (header_of (recv_into (dg_bytes d) (\<lambda>_. 0))) (Received (dg_bytes d) 5 6 tv_zero)) = 60"
proof -
  let ?c = "(example_block 10 20)\<lparr>mod_flow := Some 2, next_flow := Some 3\<rparr>"
  have c: "heap example_tx 1 = Some ?c" "params ?c = P_cbr \<lparr>rate = 5, psize = 60\<rparr>"
    "next_tx ?c = Timeval 10 0" "ticks example_tx \<le> 10" "sent example_tx = []" "buffer example_tx = replicate 60 0"
    by (simp_all add: example_tx_def example_flows_def example_block_def init_state_def)
  obtain d s' where "send_cbr example_net 1 example_tx = Some s'" "sent s' = [d]"
    "l_size (print_line 10001 (header_of (recv_into (dg_bytes d) (\<lambda>_. 0))) (Received (dg_bytes d) 5 6 tv_zero)) = 60"
    using crude_reads_rude [OF c(1,2), of 10 example_net] c
    by (auto simp: normalized_def sizeof_udp_data_def example_net_def PMAXSIZE_def)
  then show ?thesis by blast
qed

end
